(* ===== verification/Prelude.thy ===== *)
theory Prelude
  imports Main "HOL-Library.Word" "HOL-Library.Signed_Division"
begin

text \<open>
  Shared vocabulary of the development: the machine integers of Rust as \<open>'a word\<close> with the
  saturating and checked operations the node uses instead of wrapping arithmetic, results as
  sums, and the generic list and map lemmas the component theories share.

  An unsigned Rust integer is a word read by \<open>unat\<close>; a signed one is a word read by \<open>sint\<close>.
  The collection \<open>rust_arith\<close> rewrites the numeric value of a saturating operation, so component
  proofs move to \<open>nat\<close> or \<open>int\<close> with \<open>simp add: rust_arith\<close>; \<open>rust_eval\<close> unfolds the operations,
  which evaluates them on concrete arguments.
\<close>

named_theorems rust_arith
named_theorems rust_eval

type_synonym u8 = "8 word"
type_synonym u16 = "16 word"
type_synonym u32 = "32 word"
type_synonym u64 = "64 word"
type_synonym u128 = "128 word"
type_synonym usize = "64 word"
type_synonym i64 = "64 word"
type_synonym i128 = "128 word"

type_synonym ('e, 'a) result = "'e + 'a"

section \<open>Unsigned integers\<close>

definition sat_u :: "nat \<Rightarrow> 'a::len word" where
  "sat_u n = (if n < 2 ^ LENGTH('a) then of_nat n else - 1)"

definition saturating_add :: "'a::len word \<Rightarrow> 'a word \<Rightarrow> 'a word" where
  "saturating_add a b = sat_u (unat a + unat b)"

definition saturating_sub :: "'a::len word \<Rightarrow> 'a word \<Rightarrow> 'a word" where
  "saturating_sub a b = sat_u (unat a - unat b)"

definition saturating_mul :: "'a::len word \<Rightarrow> 'a word \<Rightarrow> 'a word" where
  "saturating_mul a b = sat_u (unat a * unat b)"

definition checked_add :: "'a::len word \<Rightarrow> 'a word \<Rightarrow> 'a word option" where
  "checked_add a b = (if unat a + unat b < 2 ^ LENGTH('a) then Some (a + b) else None)"

definition checked_sub :: "'a::len word \<Rightarrow> 'a word \<Rightarrow> 'a word option" where
  "checked_sub a b = (if b \<le> a then Some (a - b) else None)"

definition checked_div :: "'a::len word \<Rightarrow> 'a word \<Rightarrow> 'a word option" where
  "checked_div a b = (if b = 0 then None else Some (a div b))"

definition div_ceil :: "'a::len word \<Rightarrow> 'a word \<Rightarrow> 'a word" where
  "div_ceil a b = (if a mod b = 0 then a div b else a div b + 1)"

lemmas [rust_eval] = sat_u_def saturating_add_def saturating_sub_def saturating_mul_def
  checked_add_def checked_sub_def checked_div_def div_ceil_def

lemma unat_less_exp: "unat (a :: 'a::len word) < 2 ^ LENGTH('a)"
  by (rule unsigned_less)

lemma unat_ucast_up:
  "LENGTH('a) \<le> LENGTH('b) \<Longrightarrow> unat (ucast (x :: 'a::len word) :: 'b::len word) = unat x"
  by (simp add: unsigned_ucast_eq take_bit_nat_eq_self_iff)
     (metis order_less_le_trans one_le_numeral power_increasing unat_less_exp)

lemma unat_le_exp: "unat (a :: 'a::len word) \<le> 2 ^ LENGTH('a) - 1"
  using unat_less_exp [of a] by linarith

lemma unat_minus_one_word: "unat (- 1 :: 'a::len word) = 2 ^ LENGTH('a) - 1"
  by (simp add: unsigned_minus_1_eq_mask mask_eq_exp_minus_1)

lemma unat_min: "unat (min a b :: 'a::len word) = min (unat a) (unat b)"
  by (simp add: min_def word_le_nat_alt)

lemma of_nat_word_inj:
  assumes "(of_nat a :: 'a::len word) = of_nat b" "a < 2 ^ LENGTH('a)" "b < 2 ^ LENGTH('a)"
  shows "a = b"
  using assms by (simp add: word_of_nat_eq_iff take_bit_nat_eq_self)

lemma unat_sat_u [rust_arith]: "unat (sat_u n :: 'a::len word) = min n (2 ^ LENGTH('a) - 1)"
  by (auto simp: sat_u_def unat_of_nat take_bit_nat_eq_self unat_minus_one_word min_def)

lemma unat_saturating_add [rust_arith]:
  "unat (saturating_add a b :: 'a::len word) = min (unat a + unat b) (2 ^ LENGTH('a) - 1)"
  by (simp add: saturating_add_def rust_arith)

lemma unat_saturating_add_exact:
  "unat a + unat b < 2 ^ LENGTH('a) \<Longrightarrow> unat (saturating_add a b :: 'a::len word) = unat a + unat b"
  by (simp add: rust_arith)

lemma unat_saturating_sub [rust_arith]: "unat (saturating_sub a b) = unat a - unat b"
  using unat_le_exp [of a] by (simp add: saturating_sub_def rust_arith)

lemma unat_saturating_mul [rust_arith]:
  "unat (saturating_mul a b :: 'a::len word) = min (unat a * unat b) (2 ^ LENGTH('a) - 1)"
  by (simp add: saturating_mul_def rust_arith)

lemma saturating_mul_mono: "a \<le> b \<Longrightarrow> saturating_mul a c \<le> saturating_mul b c"
  by (simp add: word_le_nat_alt rust_arith min.coboundedI1 min_le_iff_disj)

lemma saturating_sub_le: "saturating_sub a b \<le> a"
  by (simp add: word_le_nat_alt rust_arith)

lemma saturating_add_ge: "a \<le> saturating_add a b"
  using unat_le_exp [of a] by (simp add: word_le_nat_alt rust_arith)

lemma saturating_add_0 [simp]: "saturating_add a 0 = a"
  by (rule word_unat_eq_iff [THEN iffD2]) (use unat_le_exp [of a] in \<open>simp add: rust_arith\<close>)

lemma unat_checked_add: "checked_add a b = Some c \<Longrightarrow> unat c = unat a + unat b"
  by (auto simp: checked_add_def unat_word_ariths split: if_splits)

lemma unat_checked_sub: "checked_sub a b = Some c \<Longrightarrow> unat c = unat a - unat b \<and> unat b \<le> unat a"
  by (auto simp: checked_sub_def unat_sub word_le_nat_alt split: if_splits)

lemma checked_add_None_iff: "checked_add a 1 = None \<longleftrightarrow> a = (- 1 :: 'a::len word)"
proof -
  have "a = - 1 \<longleftrightarrow> unat a = 2 ^ LENGTH('a) - 1"
    by (simp add: word_unat_eq_iff unat_minus_one_word)
  then show ?thesis
    using unat_le_exp [of a] by (auto simp: checked_add_def less_Suc_eq_le le_less)
qed

lemma checked_sub_None_iff: "checked_sub a 1 = None \<longleftrightarrow> a = (0 :: 'a::len word)"
  by (auto simp: checked_sub_def word_le_nat_alt unat_eq_0 [symmetric] simp del: unat_eq_0)

section \<open>Signed integers\<close>

definition i_max :: "'a::len itself \<Rightarrow> int" where
  "i_max _ = 2 ^ (LENGTH('a) - 1) - 1"

definition i_min :: "'a::len itself \<Rightarrow> int" where
  "i_min _ = - (2 ^ (LENGTH('a) - 1))"

definition sat_i :: "int \<Rightarrow> 'a::len word" where
  "sat_i x = word_of_int (max (i_min TYPE('a)) (min (i_max TYPE('a)) x))"

definition i_saturating_add :: "'a::len word \<Rightarrow> 'a word \<Rightarrow> 'a word" where
  "i_saturating_add a b = sat_i (sint a + sint b)"

definition i_saturating_sub :: "'a::len word \<Rightarrow> 'a word \<Rightarrow> 'a word" where
  "i_saturating_sub a b = sat_i (sint a - sint b)"

definition i_saturating_mul :: "'a::len word \<Rightarrow> 'a word \<Rightarrow> 'a word" where
  "i_saturating_mul a b = sat_i (sint a * sint b)"

definition i_saturating_abs :: "'a::len word \<Rightarrow> 'a word" where
  "i_saturating_abs a = sat_i \<bar>sint a\<bar>"

definition i_signum :: "'a::len word \<Rightarrow> 'a word" where
  "i_signum a = word_of_int (sgn (sint a))"

definition i_min_of :: "'a::len word \<Rightarrow> 'a word \<Rightarrow> 'a word" where
  "i_min_of a b = (if sint a \<le> sint b then a else b)"

definition i_checked_add :: "'a::len word \<Rightarrow> 'a word \<Rightarrow> 'a word option" where
  "i_checked_add a b =
     (let s = sint a + sint b
      in if i_min TYPE('a) \<le> s \<and> s \<le> i_max TYPE('a) then Some (word_of_int s) else None)"

definition i_checked_div :: "'a::len word \<Rightarrow> 'a word \<Rightarrow> 'a word option" where
  "i_checked_div a b =
     (if b = 0 \<or> (sint a = i_min TYPE('a) \<and> sint b = - 1) then None
      else Some (word_of_int (sint a sdiv sint b)))"

lemmas [rust_eval] = i_max_def i_min_def sat_i_def i_saturating_add_def i_saturating_sub_def
  i_saturating_mul_def i_saturating_abs_def i_signum_def i_min_of_def i_checked_add_def
  i_checked_div_def Let_def

lemma sint_le_i_max: "sint (a :: 'a::len word) \<le> i_max TYPE('a)"
  using sint_lt [of a] by (simp add: i_max_def)

lemma i_min_le_sint: "i_min TYPE('a) \<le> sint (a :: 'a::len word)"
  using sint_ge [of a] by (simp add: i_min_def)

lemma i_min_neg: "i_min TYPE('a::len) \<le> - 1"
  by (simp add: i_min_def)

lemma i_max_nonneg: "0 \<le> i_max TYPE('a::len)"
  by (simp add: i_max_def)

lemma sint_word_of_int_range:
  assumes "i_min TYPE('a) \<le> x" "x \<le> i_max TYPE('a)"
  shows "sint (word_of_int x :: 'a::len word) = x"
  using assms by (simp add: signed_of_int signed_take_bit_int_eq_self i_min_def i_max_def)

lemma sint_sat_i [rust_arith]:
  "sint (sat_i x :: 'a::len word) = max (i_min TYPE('a)) (min (i_max TYPE('a)) x)"
  unfolding sat_i_def using i_min_neg [where 'a = 'a] i_max_nonneg [where 'a = 'a]
  by (intro sint_word_of_int_range) auto

lemma sint_i_saturating_sub [rust_arith]:
  "sint (i_saturating_sub a b :: 'a::len word)
     = max (i_min TYPE('a)) (min (i_max TYPE('a)) (sint a - sint b))"
  by (simp add: i_saturating_sub_def rust_arith)

lemma sint_i_saturating_add [rust_arith]:
  "sint (i_saturating_add a b :: 'a::len word)
     = max (i_min TYPE('a)) (min (i_max TYPE('a)) (sint a + sint b))"
  by (simp add: i_saturating_add_def rust_arith)

lemma sint_i_saturating_mul [rust_arith]:
  "sint (i_saturating_mul a b :: 'a::len word)
     = max (i_min TYPE('a)) (min (i_max TYPE('a)) (sint a * sint b))"
  by (simp add: i_saturating_mul_def rust_arith)

lemma sint_i_min_of [rust_arith]: "sint (i_min_of a b) = min (sint a) (sint b)"
  by (simp add: i_min_of_def min_def)

end
