(* ===== verification/Gas_Price_Algorithm.thy ===== *)
theory Gas_Price_Algorithm
  imports Prelude
begin

text \<open>
  The gas price algorithm (crate \<open>fuel-gas-price-algorithm\<close>): the execution-price updater V0 and
  the updater V1 with its data-availability (DA) price, the PD controller on the profit, the
  activity tracker and the store of blocks not yet recorded on the DA chain.

  Every \<open>&mut self\<close> method returns the new updater; a fallible one returns the state it leaves
  behind next to its result, since the Rust code keeps the fields it wrote before an early return.
  \<open>NonZeroU64\<close> values are \<open>u64\<close>; where non-zeroness matters it is part of a hypothesis.
  Not here: \<open>worst_case\<close>, which is floating-point arithmetic over a precomputed table.
\<close>

section \<open>Version 0\<close>

(* src/crates/fuel-gas-price-algorithm/src/v0.rs:11-15 Error *)
datatype v0_error = V0_SkippedL2Block (v0_expected: u32) (v0_got: u32)

(* src/crates/fuel-gas-price-algorithm/src/v0.rs:17-25 AlgorithmV0 *)
record algorithm_v0 =
  a0_new_exec_price :: u64
  a0_for_height :: u32
  a0_percentage :: u64

(* src/crates/fuel-gas-price-algorithm/src/v0.rs:52-67 AlgorithmUpdaterV0 *)
record updater_v0 =
  v0_new_exec_price :: u64
  v0_min_exec_gas_price :: u64
  v0_exec_gas_price_change_percent :: u64
  v0_l2_block_height :: u32
  v0_l2_block_fullness_threshold_percent :: u64

(* src/crates/fuel-gas-price-algorithm/src/v0.rs:27-30 AlgorithmV0::calculate *)
definition v0_calculate :: "algorithm_v0 \<Rightarrow> u64" where
  "v0_calculate a = a0_new_exec_price a"

(* src/crates/fuel-gas-price-algorithm/src/v0.rs:69-85 AlgorithmUpdaterV0::new *)
definition v0_new :: "u64 \<Rightarrow> u64 \<Rightarrow> u64 \<Rightarrow> u32 \<Rightarrow> u64 \<Rightarrow> updater_v0" where
  "v0_new new_exec_price min_exec_gas_price change_percent l2_block_height threshold =
     \<lparr>v0_new_exec_price = max new_exec_price min_exec_gas_price,
      v0_min_exec_gas_price = min_exec_gas_price,
      v0_exec_gas_price_change_percent = change_percent,
      v0_l2_block_height = l2_block_height,
      v0_l2_block_fullness_threshold_percent = threshold\<rparr>"

(* src/crates/fuel-gas-price-algorithm/src/v0.rs:126-130 AlgorithmUpdaterV0::change_amount *)
definition v0_change_amount :: "updater_v0 \<Rightarrow> u64 \<Rightarrow> u64" where
  "v0_change_amount u principle =
     saturating_mul principle (v0_exec_gas_price_change_percent u) div 100"

(* src/crates/fuel-gas-price-algorithm/src/v0.rs:106-124 AlgorithmUpdaterV0::update_exec_gas_price *)
definition v0_update_exec_gas_price :: "updater_v0 \<Rightarrow> u64 \<Rightarrow> u64 \<Rightarrow> updater_v0" where
  "v0_update_exec_gas_price u used capacity =
     (let price = v0_new_exec_price u;
          fullness = case_option (v0_l2_block_fullness_threshold_percent u) id
                       (checked_div (saturating_mul used 100) capacity);
          price' = (if v0_l2_block_fullness_threshold_percent u \<le> fullness
                    then saturating_add price (v0_change_amount u price)
                    else saturating_sub price (v0_change_amount u price))
      in u\<lparr>v0_new_exec_price := max (v0_min_exec_gas_price u) price'\<rparr>)"

(* src/crates/fuel-gas-price-algorithm/src/v0.rs:87-104 AlgorithmUpdaterV0::update_l2_block_data *)
definition v0_update_l2_block_data ::
  "updater_v0 \<Rightarrow> u32 \<Rightarrow> u64 \<Rightarrow> u64 \<Rightarrow> updater_v0 \<times> (v0_error, unit) result" where
  "v0_update_l2_block_data u height used capacity =
     (let expected = saturating_add (v0_l2_block_height u) 1
      in if height \<noteq> expected then (u, Inl (V0_SkippedL2Block expected height))
         else (v0_update_exec_gas_price (u\<lparr>v0_l2_block_height := height\<rparr>) used capacity, Inr ()))"

(* src/crates/fuel-gas-price-algorithm/src/v0.rs:132-138 AlgorithmUpdaterV0::algorithm *)
definition v0_algorithm :: "updater_v0 \<Rightarrow> algorithm_v0" where
  "v0_algorithm u =
     \<lparr>a0_new_exec_price = v0_new_exec_price u,
      a0_for_height = v0_l2_block_height u,
      a0_percentage = v0_exec_gas_price_change_percent u\<rparr>"

section \<open>Version 1: data\<close>

(* src/crates/fuel-gas-price-algorithm/src/v1.rs:18-32 Error *)
datatype v1_error =
    SkippedL2Block u32 u32
  | CouldNotCalculateCostPerByte u128 u128
  | FailedToIncludeL2BlockData string
  | L2BlockExpectedNotFound u32
  | CouldNotInsertUnrecordedBlock string
  | CouldNotRemoveUnrecordedBlock string

(* src/crates/fuel-gas-price-algorithm/src/v1.rs:36-48 AlgorithmV1 *)
record algorithm_v1 =
  a1_new_exec_price :: u64
  a1_exec_price_percentage :: u64
  a1_new_da_gas_price :: u64
  a1_da_gas_price_percentage :: u64
  a1_for_height :: u32

(* src/crates/fuel-gas-price-algorithm/src/v1.rs:50-53 AlgorithmV1::calculate *)
definition v1_calculate :: "algorithm_v1 \<Rightarrow> u64" where
  "v1_calculate a = saturating_add (a1_new_exec_price a) (a1_new_da_gas_price a)"

(* src/crates/fuel-gas-price-algorithm/src/v1.rs:75-79 UnrecordedBlocks *)
record 'u unrecorded_ops =
  ub_insert :: "u32 \<Rightarrow> u64 \<Rightarrow> 'u \<Rightarrow> 'u \<times> (string, unit) result"
  ub_remove :: "u32 \<Rightarrow> 'u \<Rightarrow> 'u \<times> (string, u64 option) result"

(* src/crates/fuel-gas-price-algorithm/src/v1.rs:81-91 impl UnrecordedBlocks for BTreeMap *)
definition btree_unrecorded :: "(u32 \<Rightarrow> u64 option) unrecorded_ops" where
  "btree_unrecorded =
     \<lparr>ub_insert = (\<lambda>height bytes m. (m(height \<mapsto> bytes), Inr ())),
      ub_remove = (\<lambda>height m. (m(height := None), Inr (m height)))\<rparr>"

(* src/crates/fuel-gas-price-algorithm/src/v1.rs:325-330 ClampedPercentage *)
datatype clamped_percentage = ClampedPercentage (pct_value: u8)

(* src/crates/fuel-gas-price-algorithm/src/v1.rs:332-344 ClampedPercentage::new *)
definition clamped_percentage_new :: "u8 \<Rightarrow> clamped_percentage" where
  "clamped_percentage_new maybe_value = ClampedPercentage (min maybe_value 100)"

(* src/crates/fuel-gas-price-algorithm/src/v1.rs:202-215 L2ActivityTracker *)
record l2_activity_tracker =
  max_activity :: u16
  capped_activity_threshold :: u16
  decrease_activity_threshold :: u16
  chain_activity :: u16
  block_activity_threshold :: clamped_percentage

(* src/crates/fuel-gas-price-algorithm/src/v1.rs:217-225 DAGasPriceSafetyMode *)
datatype safety_mode = Normal | Capped | AlwaysDecrease

(* src/crates/fuel-gas-price-algorithm/src/v1.rs:227-246 L2ActivityTracker::new_full *)
definition tracker_new_full :: "u16 \<Rightarrow> u16 \<Rightarrow> u16 \<Rightarrow> clamped_percentage \<Rightarrow> l2_activity_tracker" where
  "tracker_new_full normal_range_size capped_range_size decrease_range_size threshold =
     (let capped = saturating_add decrease_range_size capped_range_size;
          max_act = saturating_add capped normal_range_size
      in \<lparr>max_activity = max_act,
          capped_activity_threshold = capped,
          decrease_activity_threshold = decrease_range_size,
          chain_activity = max_act,
          block_activity_threshold = threshold\<rparr>)"

(* src/crates/fuel-gas-price-algorithm/src/v1.rs:248-263 L2ActivityTracker::new *)
definition tracker_new ::
  "u16 \<Rightarrow> u16 \<Rightarrow> u16 \<Rightarrow> u16 \<Rightarrow> clamped_percentage \<Rightarrow> l2_activity_tracker" where
  "tracker_new normal_range_size capped_range_size decrease_range_size activity threshold =
     (let t = tracker_new_full normal_range_size capped_range_size decrease_range_size threshold
      in t\<lparr>chain_activity := min activity (max_activity t)\<rparr>)"

(* src/crates/fuel-gas-price-algorithm/src/v1.rs:265-277 L2ActivityTracker::new_always_normal *)
definition tracker_new_always_normal :: l2_activity_tracker where
  "tracker_new_always_normal = tracker_new 100 0 0 100 (clamped_percentage_new 0)"

(* src/crates/fuel-gas-price-algorithm/src/v1.rs:279-287 L2ActivityTracker::safety_mode *)
definition tracker_safety_mode :: "l2_activity_tracker \<Rightarrow> safety_mode" where
  "tracker_safety_mode t =
     (if capped_activity_threshold t \<le> chain_activity t then Normal
      else if decrease_activity_threshold t \<le> chain_activity t then Capped
      else AlwaysDecrease)"

(* src/crates/fuel-gas-price-algorithm/src/v1.rs:289-301 L2ActivityTracker::update *)
definition tracker_update :: "l2_activity_tracker \<Rightarrow> clamped_percentage \<Rightarrow> l2_activity_tracker" where
  "tracker_update t block_usage =
     (if pct_value block_usage < pct_value (block_activity_threshold t)
      then t\<lparr>chain_activity := saturating_sub (chain_activity t) 1\<rparr>
      else t\<lparr>chain_activity := min (saturating_add (chain_activity t) 1) (max_activity t)\<rparr>)"

(* src/crates/fuel-gas-price-algorithm/src/v1.rs:130-179 AlgorithmUpdaterV1 *)
record updater_v1 =
  new_scaled_exec_price :: u64
  min_exec_gas_price :: u64
  exec_gas_price_change_percent :: u16
  l2_block_height :: u32
  l2_block_fullness_threshold_percent :: clamped_percentage
  new_scaled_da_gas_price :: u64
  gas_price_factor :: u64
  min_da_gas_price :: u64
  max_da_gas_price :: u64
  max_da_gas_price_change_percent :: u16
  total_da_rewards :: u128
  latest_known_total_da_cost :: u128
  projected_total_da_cost :: u128
  da_p_component :: i64
  da_d_component :: i64
  last_profit :: i128
  second_to_last_profit :: i128
  latest_da_cost_per_byte :: u128
  l2_activity :: l2_activity_tracker
  unrecorded_blocks_bytes :: u128

section \<open>Version 1: operations\<close>

(* src/crates/fuel-gas-price-algorithm/src/v1.rs:658-660 AlgorithmUpdaterV1::descaled_exec_price *)
definition descaled_exec_price :: "updater_v1 \<Rightarrow> u64" where
  "descaled_exec_price u = new_scaled_exec_price u div gas_price_factor u"

(* src/crates/fuel-gas-price-algorithm/src/v1.rs:662-664 AlgorithmUpdaterV1::descaled_da_price *)
definition descaled_da_price :: "updater_v1 \<Rightarrow> u64" where
  "descaled_da_price u = new_scaled_da_gas_price u div gas_price_factor u"

(* src/crates/fuel-gas-price-algorithm/src/v1.rs:423-427 AlgorithmUpdaterV1::update_activity *)
definition update_activity :: "updater_v1 \<Rightarrow> u64 \<Rightarrow> u64 \<Rightarrow> updater_v1" where
  "update_activity u used capacity =
     (let block_activity = saturating_mul used 100 div capacity;
          usage = clamped_percentage_new (if unat block_activity < 256 then ucast block_activity else 100)
      in u\<lparr>l2_activity := tracker_update (l2_activity u) usage\<rparr>)"

(* src/crates/fuel-gas-price-algorithm/src/v1.rs:442-453 AlgorithmUpdaterV1::da_portion_of_fee *)
definition da_portion_of_fee :: "updater_v1 \<Rightarrow> u128 \<Rightarrow> u128" where
  "da_portion_of_fee u fee_wei =
     (let numerator = saturating_mul fee_wei (ucast (descaled_da_price u));
          denominator = saturating_add (ucast (descaled_exec_price u)) (ucast (descaled_da_price u))
      in if denominator = 0 then 0 else div_ceil numerator denominator)"

(* src/crates/fuel-gas-price-algorithm/src/v1.rs:429-432 AlgorithmUpdaterV1::update_da_rewards *)
definition update_da_rewards :: "updater_v1 \<Rightarrow> u128 \<Rightarrow> updater_v1" where
  "update_da_rewards u fee_wei =
     u\<lparr>total_da_rewards := saturating_add (total_da_rewards u) (da_portion_of_fee u fee_wei)\<rparr>"

(* src/crates/fuel-gas-price-algorithm/src/v1.rs:434-440 AlgorithmUpdaterV1::update_projected_da_cost *)
definition update_projected_da_cost :: "updater_v1 \<Rightarrow> u64 \<Rightarrow> updater_v1" where
  "update_projected_da_cost u block_bytes =
     (let block_projected_da_cost = saturating_mul (ucast block_bytes) (latest_da_cost_per_byte u)
      in u\<lparr>projected_total_da_cost :=
             saturating_add (projected_total_da_cost u) block_projected_da_cost\<rparr>)"

definition i128_of_u128_clamped :: "u128 \<Rightarrow> i128" where
  "i128_of_u128_clamped x = (if unat x < 2 ^ 127 then x else word_of_int (2 ^ 127 - 1))"

(* src/crates/fuel-gas-price-algorithm/src/v1.rs:455-457 AlgorithmUpdaterV1::clamped_projected_cost_as_i128 *)
definition clamped_projected_cost_as_i128 :: "updater_v1 \<Rightarrow> i128" where
  "clamped_projected_cost_as_i128 u = i128_of_u128_clamped (projected_total_da_cost u)"

(* src/crates/fuel-gas-price-algorithm/src/v1.rs:459-461 AlgorithmUpdaterV1::clamped_rewards_as_i128 *)
definition clamped_rewards_as_i128 :: "updater_v1 \<Rightarrow> i128" where
  "clamped_rewards_as_i128 u = i128_of_u128_clamped (total_da_rewards u)"

(* src/crates/fuel-gas-price-algorithm/src/v1.rs:463-466 AlgorithmUpdaterV1::update_last_profit *)
definition update_last_profit :: "updater_v1 \<Rightarrow> i128 \<Rightarrow> updater_v1" where
  "update_last_profit u new_profit =
     u\<lparr>second_to_last_profit := last_profit u, last_profit := new_profit\<rparr>"

(* src/crates/fuel-gas-price-algorithm/src/v1.rs:589-593 AlgorithmUpdaterV1::exec_change *)
definition exec_change :: "updater_v1 \<Rightarrow> u64 \<Rightarrow> u64" where
  "exec_change u principle =
     saturating_mul principle (ucast (exec_gas_price_change_percent u)) div 100"

(* src/crates/fuel-gas-price-algorithm/src/v1.rs:492-495 AlgorithmUpdaterV1::min_scaled_exec_gas_price *)
definition min_scaled_exec_gas_price :: "updater_v1 \<Rightarrow> u64" where
  "min_scaled_exec_gas_price u = saturating_mul (min_exec_gas_price u) (gas_price_factor u)"

(* src/crates/fuel-gas-price-algorithm/src/v1.rs:468-490 AlgorithmUpdaterV1::update_exec_gas_price *)
definition update_exec_gas_price :: "updater_v1 \<Rightarrow> u64 \<Rightarrow> u64 \<Rightarrow> updater_v1" where
  "update_exec_gas_price u used capacity =
     (let threshold = ucast (pct_value (l2_block_fullness_threshold_percent u));
          price = new_scaled_exec_price u;
          fullness_percent = case_option threshold id (checked_div (saturating_mul used 100) capacity);
          price' = (if threshold \<le> fullness_percent
                    then saturating_add price (exec_change u price)
                    else saturating_sub price (exec_change u price))
      in u\<lparr>new_scaled_exec_price := max (min_scaled_exec_gas_price u) price'\<rparr>)"

(* src/crates/fuel-gas-price-algorithm/src/v1.rs:545-548 AlgorithmUpdaterV1::min_scaled_da_gas_price *)
definition min_scaled_da_gas_price :: "updater_v1 \<Rightarrow> u64" where
  "min_scaled_da_gas_price u = saturating_mul (min_da_gas_price u) (gas_price_factor u)"

(* src/crates/fuel-gas-price-algorithm/src/v1.rs:550-554 AlgorithmUpdaterV1::max_scaled_da_gas_price *)
definition max_scaled_da_gas_price :: "updater_v1 \<Rightarrow> u64" where
  "max_scaled_da_gas_price u =
     saturating_mul (max (max_da_gas_price u) (min_da_gas_price u)) (gas_price_factor u)"

(* src/crates/fuel-gas-price-algorithm/src/v1.rs:556-561 AlgorithmUpdaterV1::p *)
definition p_term :: "updater_v1 \<Rightarrow> i128" where
  "p_term u =
     i_saturating_mul
       (case_option 0 id (i_checked_div (last_profit u) (scast (da_p_component u)))) (- 1)"

(* src/crates/fuel-gas-price-algorithm/src/v1.rs:563-569 AlgorithmUpdaterV1::d *)
definition d_term :: "updater_v1 \<Rightarrow> i128" where
  "d_term u =
     (let slope = i_saturating_sub (last_profit u) (second_to_last_profit u)
      in i_saturating_mul
           (case_option 0 id (i_checked_div slope (scast (da_d_component u)))) (- 1))"

(* src/crates/fuel-gas-price-algorithm/src/v1.rs:580-587 AlgorithmUpdaterV1::max_change *)
definition max_change :: "updater_v1 \<Rightarrow> i128" where
  "max_change u =
     ucast (saturating_mul (new_scaled_da_gas_price u)
              (ucast (max_da_gas_price_change_percent u)) div 100)"

(* src/crates/fuel-gas-price-algorithm/src/v1.rs:571-578 AlgorithmUpdaterV1::da_change *)
definition da_change :: "updater_v1 \<Rightarrow> i128 \<Rightarrow> i128 \<Rightarrow> i128" where
  "da_change u p d =
     (let scaled_pd_change = i_saturating_mul (i_saturating_add p d) (ucast (gas_price_factor u));
          clamped_change = i_min_of (i_saturating_abs scaled_pd_change) (max_change u)
      in i_saturating_mul (i_signum scaled_pd_change) clamped_change)"

(* src/crates/fuel-gas-price-algorithm/src/v1.rs:530-543 AlgorithmUpdaterV1::da_change_accounting_for_activity *)
definition da_change_accounting_for_activity :: "updater_v1 \<Rightarrow> i128 \<Rightarrow> i128" where
  "da_change_accounting_for_activity u maybe_da_change =
     (if 0 < sint maybe_da_change
      then (case tracker_safety_mode (l2_activity u) of
              Normal \<Rightarrow> maybe_da_change
            | Capped \<Rightarrow> 0
            | AlwaysDecrease \<Rightarrow> i_saturating_mul (max_change u) (- 1))
      else maybe_da_change)"

definition u64_try_from_i128 :: "i128 \<Rightarrow> u64 option" where
  "u64_try_from_i128 x = (if 0 \<le> sint x \<and> sint x < 2 ^ 64 then Some (ucast x) else None)"

(* src/crates/fuel-gas-price-algorithm/src/v1.rs:497-528 AlgorithmUpdaterV1::update_da_gas_price *)
definition update_da_gas_price :: "updater_v1 \<Rightarrow> updater_v1" where
  "update_da_gas_price u =
     (let p = p_term u;
          d = d_term u;
          scaled_da_change = da_change_accounting_for_activity u (da_change u p d);
          maybe_new = (case Option.bind
                              (i_checked_add (ucast (new_scaled_da_gas_price u)) scaled_da_change)
                              u64_try_from_i128 of
                         Some x \<Rightarrow> x
                       | None \<Rightarrow> if 0 < sint scaled_da_change then - 1 else 0)
      in u\<lparr>new_scaled_da_gas_price :=
             min (max (min_scaled_da_gas_price u) maybe_new) (max_scaled_da_gas_price u)\<rparr>)"

definition range_heights :: "u32 \<times> u32 \<Rightarrow> u32 list" where
  "range_heights r = map of_nat [unat (fst r) ..< Suc (unat (snd r))]"

fun remove_recorded ::
  "'u unrecorded_ops \<Rightarrow> u32 list \<Rightarrow> u128 \<Rightarrow> 'u \<Rightarrow> 'u \<times> (v1_error, u128) result" where
  "remove_recorded ops [] acc ub = (ub, Inr acc)"
| "remove_recorded ops (expected_height # hs) acc ub =
     (case ub_remove ops expected_height ub of
        (ub', Inl e) \<Rightarrow> (ub', Inl (CouldNotRemoveUnrecordedBlock e))
      | (ub', Inr (Some bytes)) \<Rightarrow> remove_recorded ops hs (saturating_add acc (ucast bytes)) ub'
      | (ub', Inr None) \<Rightarrow> remove_recorded ops hs acc ub')"

(* src/crates/fuel-gas-price-algorithm/src/v1.rs:622-647 AlgorithmUpdaterV1::update_unrecorded_block_bytes *)
definition update_unrecorded_block_bytes ::
  "'u unrecorded_ops \<Rightarrow> u32 \<times> u32 \<Rightarrow> updater_v1 \<times> 'u \<Rightarrow> (updater_v1 \<times> 'u) \<times> (v1_error, unit) result" where
  "update_unrecorded_block_bytes ops heights s =
     (case s of (u, ub) \<Rightarrow>
        (case remove_recorded ops (range_heights heights) 0 ub of
           (ub', Inl e) \<Rightarrow> ((u, ub'), Inl e)
         | (ub', Inr bytes) \<Rightarrow>
             ((u\<lparr>unrecorded_blocks_bytes := saturating_sub (unrecorded_blocks_bytes u) bytes\<rparr>, ub'),
              Inr ())))"

(* src/crates/fuel-gas-price-algorithm/src/v1.rs:595-620 AlgorithmUpdaterV1::da_block_update *)
definition da_block_update ::
  "'u unrecorded_ops \<Rightarrow> u32 \<times> u32 \<Rightarrow> u128 \<Rightarrow> u128 \<Rightarrow> updater_v1 \<times> 'u
     \<Rightarrow> (updater_v1 \<times> 'u) \<times> (v1_error, unit) result" where
  "da_block_update ops heights recorded_bytes recording_cost s =
     (case update_unrecorded_block_bytes ops heights s of
        (s', Inl e) \<Rightarrow> (s', Inl e)
      | ((u, ub), Inr _) \<Rightarrow>
          (let u' = u\<lparr>latest_known_total_da_cost :=
                        saturating_add (latest_known_total_da_cost u) recording_cost\<rparr>
           in case checked_div recording_cost recorded_bytes of
                None \<Rightarrow> ((u', ub), Inl (CouldNotCalculateCostPerByte recorded_bytes recording_cost))
              | Some cost_per_byte \<Rightarrow>
                  ((u'\<lparr>latest_da_cost_per_byte := cost_per_byte\<rparr>, ub), Inr ())))"

(* src/crates/fuel-gas-price-algorithm/src/v1.rs:649-656 AlgorithmUpdaterV1::recalculate_projected_cost *)
definition recalculate_projected_cost :: "updater_v1 \<Rightarrow> updater_v1" where
  "recalculate_projected_cost u =
     (let projection_portion = saturating_mul (unrecorded_blocks_bytes u) (latest_da_cost_per_byte u)
      in u\<lparr>projected_total_da_cost :=
             saturating_add (latest_known_total_da_cost u) projection_portion\<rparr>)"

(* src/crates/fuel-gas-price-algorithm/src/v1.rs:354-373 AlgorithmUpdaterV1::update_da_record_data *)
definition update_da_record_data ::
  "'u unrecorded_ops \<Rightarrow> u32 \<times> u32 \<Rightarrow> u32 \<Rightarrow> u128 \<Rightarrow> updater_v1 \<times> 'u
     \<Rightarrow> (updater_v1 \<times> 'u) \<times> (v1_error, unit) result" where
  "update_da_record_data ops heights recorded_bytes recording_cost s =
     (if fst heights \<le> snd heights
      then (case da_block_update ops heights (ucast recorded_bytes) recording_cost s of
              (s', Inl e) \<Rightarrow> (s', Inl e)
            | ((u, ub), Inr _) \<Rightarrow>
                ((update_da_gas_price (recalculate_projected_cost u), ub), Inr ()))
      else (s, Inr ()))"

(* src/crates/fuel-gas-price-algorithm/src/v1.rs:375-421 AlgorithmUpdaterV1::update_l2_block_data *)
definition update_l2_block_data ::
  "'u unrecorded_ops \<Rightarrow> u32 \<Rightarrow> u64 \<Rightarrow> u64 \<Rightarrow> u64 \<Rightarrow> u128 \<Rightarrow> updater_v1 \<times> 'u
     \<Rightarrow> (updater_v1 \<times> 'u) \<times> (v1_error, unit) result" where
  "update_l2_block_data ops height used capacity block_bytes fee_wei s =
     (case s of (u, ub) \<Rightarrow>
        (let expected = saturating_add (l2_block_height u) 1
         in if height \<noteq> expected then ((u, ub), Inl (SkippedL2Block expected height))
            else
              (let u1 = u\<lparr>l2_block_height := height\<rparr>;
                   u2 = update_da_rewards u1 fee_wei;
                   rewards = clamped_rewards_as_i128 u2;
                   u3 = update_projected_da_cost u2 block_bytes;
                   cost = clamped_projected_cost_as_i128 u3;
                   u4 = update_last_profit u3 (i_saturating_sub rewards cost);
                   u5 = update_activity u4 used capacity;
                   u6 = update_exec_gas_price u5 used capacity;
                   u7 = update_da_gas_price u6
               in case ub_insert ops height block_bytes ub of
                    (ub', Inl e) \<Rightarrow> ((u7, ub'), Inl (CouldNotInsertUnrecordedBlock e))
                  | (ub', Inr _) \<Rightarrow>
                      ((u7\<lparr>unrecorded_blocks_bytes :=
                            saturating_add (unrecorded_blocks_bytes u7) (ucast block_bytes)\<rparr>, ub'),
                       Inr ()))))"

(* src/crates/fuel-gas-price-algorithm/src/v1.rs:666-674 AlgorithmUpdaterV1::algorithm *)
definition v1_algorithm :: "updater_v1 \<Rightarrow> algorithm_v1" where
  "v1_algorithm u =
     \<lparr>a1_new_exec_price = descaled_exec_price u,
      a1_exec_price_percentage = ucast (exec_gas_price_change_percent u),
      a1_new_da_gas_price = descaled_da_price u,
      a1_da_gas_price_percentage = ucast (max_da_gas_price_change_percent u),
      a1_for_height = l2_block_height u\<rparr>"

section \<open>Numeric value of the DA price update\<close>

lemma i128_range: "i_min TYPE(128) = - (2 ^ 127)" "i_max TYPE(128) = 2 ^ 127 - 1"
  by (simp_all add: i_min_def i_max_def)

lemma uint_u64_less: "uint (x :: u64) < 2 ^ 64"
  using uint_lt2p [of x] by simp

lemma sint_ucast_u64: "sint (ucast (x :: u64) :: i128) = uint x"
proof -
  have "sint (ucast x :: i128) = sint (word_of_int (uint x) :: i128)"
    by (simp add: unsigned_of_int)
  then show ?thesis
    using sint_word_of_int_range [where 'a = 128, of "uint x"] uint_u64_less [of x]
      unsigned_greater_eq [of x, where 'a = int]
    by (simp add: i128_range)
qed

lemma sint_max_change:
  "sint (max_change u) =
     int (min (unat (new_scaled_da_gas_price u) * unat (max_da_gas_price_change_percent u))
              (2 ^ 64 - 1) div 100)"
  by (simp add: max_change_def sint_ucast_u64 uint_nat unat_div rust_arith unat_ucast_up del: of_nat_unat)

lemma max_change_nonneg: "0 \<le> sint (max_change u)"
  by (simp add: sint_max_change)

lemma sint_i_signum: "sint (i_signum (a :: i128)) = sgn (sint a)"
  unfolding i_signum_def by (rule sint_word_of_int_range) (auto simp: i128_range sgn_if)

lemma sint_i_saturating_abs: "sint (i_saturating_abs (a :: i128)) = min (2 ^ 127 - 1) \<bar>sint a\<bar>"
  by (simp add: i_saturating_abs_def rust_arith i128_range)

lemma sint_da_change:
  "sint (da_change u p d) =
     (let x = sint (i_saturating_mul (i_saturating_add p d) (ucast (gas_price_factor u)))
      in sgn x * min \<bar>x\<bar> (sint (max_change u)))"
proof -
  define x where "x = i_saturating_mul (i_saturating_add p d) (ucast (gas_price_factor u))"
  have m: "0 \<le> sint (max_change u)" "sint (max_change u) < 2 ^ 127"
    using max_change_nonneg sint_lt [of "max_change u"] by simp_all
  have x: "- (2 ^ 127) \<le> sint x" "sint x \<le> 2 ^ 127 - 1"
    using i_min_le_sint [of x] sint_le_i_max [of x] by (simp_all add: i128_range)
  have "sint (da_change u p d) = max (- (2 ^ 127)) (min (2 ^ 127 - 1)
          (sgn (sint x) * min (min (2 ^ 127 - 1) \<bar>sint x\<bar>) (sint (max_change u))))"
    by (simp add: da_change_def Let_def x_def [symmetric] sint_i_saturating_mul sint_i_signum
        sint_i_min_of sint_i_saturating_abs i128_range)
  also have "\<dots> = sgn (sint x) * min \<bar>sint x\<bar> (sint (max_change u))"
    using m x by (cases "sint x" "0 :: int" rule: linorder_cases) (auto simp: min_def max_def)
  finally show ?thesis by (simp add: x_def Let_def)
qed

lemma abs_da_change_le: "\<bar>sint (da_change u p d)\<bar> \<le> sint (max_change u)"
  using max_change_nonneg [of u] by (auto simp: sint_da_change Let_def abs_mult sgn_if)

definition da_step :: "updater_v1 \<Rightarrow> int" where
  "da_step u = sint (da_change_accounting_for_activity u (da_change u (p_term u) (d_term u)))"

lemma sint_neg_max_change: "sint (i_saturating_mul (max_change u) (- 1)) = - sint (max_change u)"
  using max_change_nonneg [of u] sint_lt [of "max_change u"]
  by (simp add: sint_i_saturating_mul i128_range)

lemma abs_da_step_le: "\<bar>da_step u\<bar> \<le> sint (max_change u)"
  using abs_da_change_le [of u "p_term u" "d_term u"] max_change_nonneg [of u]
  by (auto simp: da_step_def da_change_accounting_for_activity_def sint_neg_max_change
      split: safety_mode.splits)

lemma uint_ucast_word_of_int:
  "0 \<le> s \<Longrightarrow> s < 2 ^ 64 \<Longrightarrow> uint (ucast (word_of_int s :: i128) :: u64) = s"
  by (simp add: unsigned_ucast_eq unsigned_of_int take_bit_int_eq_self)

lemma i_checked_add_ucast:
  fixes c :: i128 and price :: u64
  shows "i_checked_add (ucast price) c =
           (if uint price + sint c \<le> 2 ^ 127 - 1 then Some (word_of_int (uint price + sint c)) else None)"
  using i_min_le_sint [of c]
  by (auto simp: i_checked_add_def sint_ucast_u64 i128_range Let_def intro: add_increasing)

lemma maybe_new_price:
  fixes c :: i128 and price :: u64
  shows "uint (case Option.bind (i_checked_add (ucast price) c) u64_try_from_i128 of
                 Some x \<Rightarrow> x | None \<Rightarrow> if 0 < sint c then - 1 else 0)
         = max 0 (min (2 ^ 64 - 1) (uint price + sint c))"
proof -
  define s where "s = uint price + sint c"
  have low: "- (2 ^ 127) \<le> s" and sgn: "0 \<le> uint price" "uint price < 2 ^ 64"
    using i_min_le_sint [of c] uint_u64_less [of price]
    by (auto simp: i128_range s_def intro: add_increasing)
  have eq: "Option.bind (i_checked_add (ucast price) c) u64_try_from_i128 =
          (if 0 \<le> s \<and> s < 2 ^ 64 then Some (ucast (word_of_int s :: i128)) else None)"
    using low sint_word_of_int_range [where 'a = 128, of s]
    by (auto simp: i_checked_add_ucast s_def [symmetric] u64_try_from_i128_def i128_range)
  show ?thesis
    using sgn uint_ucast_word_of_int [of s] unfolding eq s_def [symmetric]
    by (auto simp: uint_nat unat_minus_one_word min_def max_def s_def simp del: of_nat_unat)
qed

lemma uint_min_max_u64: "uint (min (a :: u64) b) = min (uint a) (uint b)"
  "uint (max (a :: u64) b) = max (uint a) (uint b)"
  by (simp_all add: min_def max_def word_le_def)

lemma uint_update_da_gas_price:
  "uint (new_scaled_da_gas_price (update_da_gas_price u)) =
     min (max (uint (min_scaled_da_gas_price u))
              (max 0 (min (2 ^ 64 - 1) (uint (new_scaled_da_gas_price u) + da_step u))))
         (uint (max_scaled_da_gas_price u))"
  by (simp add: update_da_gas_price_def Let_def uint_min_max_u64 maybe_new_price da_step_def)

lemma min_le_max_scaled_da: "min_scaled_da_gas_price u \<le> max_scaled_da_gas_price u"
  by (simp add: min_scaled_da_gas_price_def max_scaled_da_gas_price_def saturating_mul_mono)

definition da_price_in_bounds :: "updater_v1 \<Rightarrow> bool" where
  "da_price_in_bounds u \<longleftrightarrow>
     min_scaled_da_gas_price u \<le> new_scaled_da_gas_price u \<and>
     new_scaled_da_gas_price u \<le> max_scaled_da_gas_price u"

lemma frame_update_da_gas_price:
  "min_scaled_da_gas_price (update_da_gas_price u) = min_scaled_da_gas_price u"
  "max_scaled_da_gas_price (update_da_gas_price u) = max_scaled_da_gas_price u"
  by (simp_all add: update_da_gas_price_def Let_def min_scaled_da_gas_price_def
      max_scaled_da_gas_price_def)

lemma update_da_gas_price_in_bounds: "da_price_in_bounds (update_da_gas_price u)"
  using min_le_max_scaled_da [of u]
  by (auto simp: da_price_in_bounds_def word_le_def uint_update_da_gas_price frame_update_da_gas_price)

lemma clamp_step_abs:
  fixes x :: int
  assumes "lo \<le> x" "x \<le> hi" "0 \<le> x" "x \<le> M" "\<bar>c\<bar> \<le> m"
  shows "\<bar>min (max lo (max 0 (min M (x + c)))) hi - x\<bar> \<le> m"
  using assms by (auto simp: min_def max_def abs_if split: if_splits)

lemma da_price_change_bounded:
  assumes "da_price_in_bounds u"
  shows "\<bar>uint (new_scaled_da_gas_price (update_da_gas_price u)) - uint (new_scaled_da_gas_price u)\<bar>
           \<le> sint (max_change u)"
  using assms abs_da_step_le [of u] uint_u64_less [of "new_scaled_da_gas_price u"]
  unfolding uint_update_da_gas_price
  by (intro clamp_step_abs) (auto simp: da_price_in_bounds_def word_le_def)

lemma da_price_no_increase:
  assumes "da_price_in_bounds u" "da_step u \<le> 0"
  shows "new_scaled_da_gas_price (update_da_gas_price u) \<le> new_scaled_da_gas_price u"
  using assms
  by (auto simp: da_price_in_bounds_def word_le_def uint_update_da_gas_price)

lemma da_price_no_decrease:
  assumes "da_price_in_bounds u" "0 \<le> da_step u"
  shows "new_scaled_da_gas_price u \<le> new_scaled_da_gas_price (update_da_gas_price u)"
  using assms uint_u64_less [of "new_scaled_da_gas_price u"]
  by (auto simp: da_price_in_bounds_def word_le_def uint_update_da_gas_price)

lemma da_step_nonpos_unless_normal:
  "tracker_safety_mode (l2_activity u) \<noteq> Normal \<Longrightarrow> da_step u \<le> 0"
  using max_change_nonneg [of u]
  by (auto simp: da_step_def da_change_accounting_for_activity_def sint_neg_max_change
      split: safety_mode.splits)

section \<open>Direction of the controller and share of the fee\<close>

lemma sint_scast_i64: "sint (scast (x :: i64) :: i128) = sint x"
  by (simp add: signed_scast_eq signed_take_bit_int_eq_self_iff)
     (use sint_ge [of x] sint_lt [of x] in simp)

lemma sdiv_sign:
  fixes a b :: int
  assumes "0 < b"
  shows "0 \<le> a \<Longrightarrow> 0 \<le> a sdiv b" and "a \<le> 0 \<Longrightarrow> a sdiv b \<le> 0"
  using assms by (auto simp: signed_divide_int_def sgn_if pos_imp_zdiv_nonneg_iff)

lemma sint_quotient:
  fixes a b :: i128
  assumes "0 < sint b"
  shows "sint (case_option 0 id (i_checked_div a b)) = sint a sdiv sint b"
proof -
  have "\<bar>sint a sdiv sint b\<bar> \<le> \<bar>sint a\<bar>"
    using sdiv_int_range [of "sint a" "sint b"] by auto
  moreover have "- (2 ^ 127) \<le> sint a" "sint a \<le> 2 ^ 127 - 1"
    using i_min_le_sint [of a] sint_le_i_max [of a] by (simp_all add: i128_range)
  ultimately have "- (2 ^ 127) \<le> sint a sdiv sint b \<and> sint a sdiv sint b \<le> 2 ^ 127 - 1"
    using sdiv_sign [OF assms, of "sint a"] by linarith
  then show ?thesis
    using assms sint_word_of_int_range [where 'a = 128, of "sint a sdiv sint b"]
    by (auto simp: i_checked_div_def i128_range)
qed

lemma sint_times_minus_one:
  "sint (i_saturating_mul (x :: i128) (- 1)) = min (2 ^ 127 - 1) (- sint x)"
  using sint_le_i_max [of x] by (simp add: sint_i_saturating_mul i128_range)

lemma p_term_sign:
  assumes "0 < sint (da_p_component u)"
  shows "0 \<le> sint (last_profit u) \<Longrightarrow> sint (p_term u) \<le> 0"
    and "sint (last_profit u) \<le> 0 \<Longrightarrow> 0 \<le> sint (p_term u)"
  using assms sdiv_sign [of "sint (da_p_component u)" "sint (last_profit u)"]
  by (simp_all add: p_term_def sint_times_minus_one sint_quotient sint_scast_i64)

lemma d_term_sign:
  assumes "0 < sint (da_d_component u)"
  shows "sint (second_to_last_profit u) \<le> sint (last_profit u) \<Longrightarrow> sint (d_term u) \<le> 0"
    and "sint (last_profit u) \<le> sint (second_to_last_profit u) \<Longrightarrow> 0 \<le> sint (d_term u)"
  using assms sdiv_sign [of "sint (da_d_component u)"
                            "sint (i_saturating_sub (last_profit u) (second_to_last_profit u))"]
  by (simp_all add: d_term_def Let_def sint_times_minus_one sint_quotient sint_scast_i64
      sint_i_saturating_sub i128_range)

lemma da_change_sign:
  assumes "0 < gas_price_factor u"
  shows "sint p \<le> 0 \<Longrightarrow> sint d \<le> 0 \<Longrightarrow> sint (da_change u p d) \<le> 0"
    and "0 \<le> sint p \<Longrightarrow> 0 \<le> sint d \<Longrightarrow> 0 \<le> sint (da_change u p d)"
proof -
  let ?x = "sint (i_saturating_mul (i_saturating_add p d) (ucast (gas_price_factor u)))"
  have "?x \<le> 0" if "sint p \<le> 0" "sint d \<le> 0"
    using that by (simp add: sint_i_saturating_mul sint_i_saturating_add sint_ucast_u64 i128_range
        mult_nonpos_nonneg min_le_iff_disj max_def)
  moreover have "0 \<le> ?x" if "0 \<le> sint p" "0 \<le> sint d"
    using that by (simp add: sint_i_saturating_mul sint_i_saturating_add sint_ucast_u64 i128_range
        le_max_iff_disj)
  ultimately show "sint p \<le> 0 \<Longrightarrow> sint d \<le> 0 \<Longrightarrow> sint (da_change u p d) \<le> 0"
    and "0 \<le> sint p \<Longrightarrow> 0 \<le> sint d \<Longrightarrow> 0 \<le> sint (da_change u p d)"
    using max_change_nonneg [of u] by (auto simp: sint_da_change Let_def sgn_if)
qed

definition pd_positive :: "updater_v1 \<Rightarrow> bool" where
  "pd_positive u \<longleftrightarrow> 0 < sint (da_p_component u) \<and> 0 < sint (da_d_component u) \<and> 0 < gas_price_factor u"

lemma da_step_nonpos_on_rising_profit:
  assumes "pd_positive u" "0 \<le> sint (last_profit u)"
    "sint (second_to_last_profit u) \<le> sint (last_profit u)"
  shows "da_step u \<le> 0"
  using assms da_change_sign(1) [of u "p_term u" "d_term u"] p_term_sign(1) [of u] d_term_sign(1) [of u]
  by (auto simp: pd_positive_def da_step_def da_change_accounting_for_activity_def)

lemma da_step_nonneg_on_falling_loss:
  assumes "pd_positive u" "sint (last_profit u) \<le> 0"
    "sint (last_profit u) \<le> sint (second_to_last_profit u)"
    "tracker_safety_mode (l2_activity u) = Normal"
  shows "0 \<le> da_step u"
  using assms da_change_sign(2) [of u "p_term u" "d_term u"] p_term_sign(2) [of u] d_term_sign(2) [of u]
  by (auto simp: pd_positive_def da_step_def da_change_accounting_for_activity_def)

lemma unat_ucast_u64_u128: "unat (ucast (x :: u64) :: u128) = unat x"
  by (rule unat_ucast_up) simp

lemma unat_div_ceil_le:
  fixes a b :: u128
  assumes "unat a \<le> n * unat b" "n < 2 ^ 128"
  shows "unat (div_ceil a b) \<le> n"
proof -
  have q: "unat a div unat b \<le> n"
    using assms(1) div_le_mono [of "unat a" "n * unat b" "unat b"] by (cases "unat b = 0") simp_all
  show ?thesis
  proof (cases "a mod b = 0")
    case True
    with q show ?thesis by (simp add: div_ceil_def unat_div)
  next
    case False
    then have r: "unat a mod unat b \<noteq> 0"
      by (metis unat_eq_0 unat_mod)
    have "unat a div unat b \<noteq> n"
    proof
      assume "unat a div unat b = n"
      then have "unat a = n * unat b + unat a mod unat b"
        using div_mult_mod_eq [of "unat a" "unat b"] by simp
      with assms(1) r show False by linarith
    qed
    with q have "unat a div unat b + 1 \<le> n" by simp
    with False assms(2) show ?thesis
      by (simp add: div_ceil_def unat_word_ariths unat_div)
  qed
qed

lemma unat_price_sum:
  "unat (saturating_add (ucast (descaled_exec_price u)) (ucast (descaled_da_price u)) :: u128)
     = unat (descaled_exec_price u) + unat (descaled_da_price u)"
  using unat_less_exp [of "descaled_exec_price u"] unat_less_exp [of "descaled_da_price u"]
  by (simp add: rust_arith unat_ucast_u64_u128)

lemma da_portion_of_fee_le: "unat (da_portion_of_fee u fee) \<le> unat fee"
proof -
  let ?e = "unat (descaled_exec_price u)" and ?d = "unat (descaled_da_price u)"
  have den: "unat (saturating_add (ucast (descaled_exec_price u)) (ucast (descaled_da_price u)) :: u128)
             = ?e + ?d"
    by (rule unat_price_sum)
  have num: "unat (saturating_mul fee (ucast (descaled_da_price u))) \<le> unat fee * ?d"
    by (simp add: rust_arith unat_ucast_u64_u128)
  have "unat fee < 2 ^ 128"
    using unat_less_exp [of fee] by simp
  with den num show ?thesis
    unfolding da_portion_of_fee_def Let_def
    by (auto intro!: unat_div_ceil_le intro: order_trans simp: distrib_left trans_le_add2)
qed

section \<open>Bytes of unrecorded blocks\<close>

lemma v1_frame [simp]:
  "unrecorded_blocks_bytes (update_da_gas_price u) = unrecorded_blocks_bytes u"
  "unrecorded_blocks_bytes (recalculate_projected_cost u) = unrecorded_blocks_bytes u"
  "unrecorded_blocks_bytes (update_da_rewards u fee) = unrecorded_blocks_bytes u"
  "unrecorded_blocks_bytes (update_projected_da_cost u b) = unrecorded_blocks_bytes u"
  "unrecorded_blocks_bytes (update_last_profit u p) = unrecorded_blocks_bytes u"
  "unrecorded_blocks_bytes (update_activity u used cap) = unrecorded_blocks_bytes u"
  "unrecorded_blocks_bytes (update_exec_gas_price u used cap) = unrecorded_blocks_bytes u"
  "l2_block_height (update_da_gas_price u) = l2_block_height u"
  "l2_block_height (recalculate_projected_cost u) = l2_block_height u"
  "l2_block_height (update_da_rewards u fee) = l2_block_height u"
  "l2_block_height (update_projected_da_cost u b) = l2_block_height u"
  "l2_block_height (update_last_profit u p) = l2_block_height u"
  "l2_block_height (update_activity u used cap) = l2_block_height u"
  "l2_block_height (update_exec_gas_price u used cap) = l2_block_height u"
  by (simp_all add: update_da_gas_price_def recalculate_projected_cost_def update_da_rewards_def
      update_projected_da_cost_def update_last_profit_def update_activity_def update_exec_gas_price_def Let_def)

definition ub_total :: "(u32 \<Rightarrow> u64 option) \<Rightarrow> nat" where
  "ub_total m = (\<Sum>h\<in>dom m. unat (the (m h)))"

lemma finite_u32 [simp]: "finite (A :: u32 set)"
  by (rule finite_subset [OF subset_UNIV]) simp

lemma ub_total_upd_new: "m h = None \<Longrightarrow> ub_total (m(h \<mapsto> b)) = ub_total m + unat b"
proof -
  assume h: "m h = None"
  then have d: "h \<notin> dom m" by (simp add: domIff)
  then have "(\<Sum>x\<in>dom m. unat (the ((m(h \<mapsto> b)) x))) = (\<Sum>x\<in>dom m. unat (the (m x)))"
    by (intro sum.cong) auto
  with d show ?thesis by (simp add: ub_total_def)
qed

lemma ub_total_remove: "ub_total (m(h := None)) + (case m h of None \<Rightarrow> 0 | Some b \<Rightarrow> unat b) = ub_total m"
proof (cases "m h")
  case None
  then show ?thesis by (simp add: fun_upd_idem)
next
  case (Some b)
  have "ub_total ((m(h := None))(h \<mapsto> b)) = ub_total (m(h := None)) + unat b"
    by (rule ub_total_upd_new) simp
  with Some show ?thesis by (simp add: fun_upd_idem)
qed

lemma ub_total_bound: "ub_total m < 2 ^ 128"
proof -
  have "ub_total m \<le> (\<Sum>h\<in>dom m. 2 ^ 64)"
    unfolding ub_total_def using unat_less_exp [where 'a = 64] by (intro sum_mono) (simp add: less_imp_le)
  also have "\<dots> \<le> card (UNIV :: u32 set) * 2 ^ 64"
    by (simp add: card_mono)
  also have "\<dots> < 2 ^ 128"
    by (simp add: card_word)
  finally show ?thesis .
qed

definition bytes_inv :: "('u \<Rightarrow> u32 \<Rightarrow> u64 option) \<Rightarrow> updater_v1 \<times> 'u \<Rightarrow> bool" where
  "bytes_inv lookup s \<longleftrightarrow>
     unat (unrecorded_blocks_bytes (fst s)) = ub_total (lookup (snd s)) \<and>
     (\<forall>h \<in> dom (lookup (snd s)). h \<le> l2_block_height (fst s))"

locale unrecorded_blocks =
  fixes ops :: "'u unrecorded_ops"
    and lookup :: "'u \<Rightarrow> u32 \<Rightarrow> u64 option"
  assumes insert_ok: "ub_insert ops h b ub = (ub', Inr x) \<Longrightarrow> lookup ub' = (lookup ub)(h \<mapsto> b)"
    and insert_err: "ub_insert ops h b ub = (ub', Inl e) \<Longrightarrow> lookup ub' = lookup ub"
    and remove_ok: "ub_remove ops h ub = (ub', Inr r) \<Longrightarrow> r = lookup ub h \<and> lookup ub' = (lookup ub)(h := None)"
begin

lemma remove_recorded_sum:
  assumes "remove_recorded ops hs acc ub = (ub', Inr r)"
    and "unat acc + ub_total (lookup ub) < 2 ^ 128"
  shows "unat r + ub_total (lookup ub') = unat acc + ub_total (lookup ub)
       \<and> dom (lookup ub') \<subseteq> dom (lookup ub) - set hs"
  using assms
proof (induction hs arbitrary: acc ub)
  case Nil
  then show ?case by simp
next
  case (Cons h hs)
  obtain ub1 r1 where r1: "ub_remove ops h ub = (ub1, Inr r1)"
    and rest: "remove_recorded ops hs (case r1 of None \<Rightarrow> acc | Some b \<Rightarrow> saturating_add acc (ucast b)) ub1
                 = (ub', Inr r)"
    using Cons.prems(1) by (auto split: prod.splits sum.splits option.splits)
  from remove_ok [OF r1] have l: "r1 = lookup ub h" "lookup ub1 = (lookup ub)(h := None)"
    by auto
  have tot: "ub_total (lookup ub1) + (case r1 of None \<Rightarrow> 0 | Some b \<Rightarrow> unat b) = ub_total (lookup ub)"
    unfolding l by (rule ub_total_remove)
  define acc' where "acc' = (case r1 of None \<Rightarrow> acc | Some b \<Rightarrow> saturating_add acc (ucast b))"
  have "unat acc' = unat acc + (case r1 of None \<Rightarrow> 0 | Some b \<Rightarrow> unat b)"
    using Cons.prems(2) tot
    by (cases r1) (simp_all add: acc'_def rust_arith unat_ucast_u64_u128 min_def)
  with tot have acc': "unat acc' + ub_total (lookup ub1) = unat acc + ub_total (lookup ub)"
    by simp
  then have "unat r + ub_total (lookup ub') = unat acc' + ub_total (lookup ub1) \<and>
      dom (lookup ub') \<subseteq> dom (lookup ub1) - set hs"
    using Cons.IH [OF rest [folded acc'_def]] Cons.prems(2) by simp
  then show ?case
    unfolding acc' using l(2) by auto
qed

lemma update_unrecorded_block_bytes_inv:
  assumes "bytes_inv lookup s" "update_unrecorded_block_bytes ops heights s = (s', Inr x)"
  shows "bytes_inv lookup s'" "l2_block_height (fst s') = l2_block_height (fst s)"
proof -
  obtain u ub where s: "s = (u, ub)" by (cases s)
  obtain ub' r where r: "remove_recorded ops (range_heights heights) 0 ub = (ub', Inr r)"
    and s': "s' = (u\<lparr>unrecorded_blocks_bytes := saturating_sub (unrecorded_blocks_bytes u) r\<rparr>, ub')"
    using assms(2) s by (auto simp: update_unrecorded_block_bytes_def split: prod.splits sum.splits)
  have "unat r + ub_total (lookup ub') = ub_total (lookup ub)"
    and "dom (lookup ub') \<subseteq> dom (lookup ub)"
    using remove_recorded_sum [OF r] ub_total_bound [of "lookup ub"] by auto
  then show "bytes_inv lookup s'"
    using assms(1) unfolding bytes_inv_def s s' by (auto simp: rust_arith)
  show "l2_block_height (fst s') = l2_block_height (fst s)"
    by (simp add: s s')
qed

lemma remove_recorded_error:
  "remove_recorded ops hs acc ub = (ub', Inl e) \<Longrightarrow> \<exists>m. e = CouldNotRemoveUnrecordedBlock m"
  by (induction hs arbitrary: acc ub) (auto split: prod.splits sum.splits option.splits)

lemma update_da_record_data_inv:
  assumes "bytes_inv lookup s" "update_da_record_data ops heights rb rc s = (s', r)"
    and "\<nexists>e. r = Inl (CouldNotRemoveUnrecordedBlock e)"
  shows "bytes_inv lookup s'" "l2_block_height (fst s') = l2_block_height (fst s)"
proof -
  have "bytes_inv lookup s' \<and> l2_block_height (fst s') = l2_block_height (fst s)"
  proof (cases "update_unrecorded_block_bytes ops heights s")
    case (Pair s1 r1)
    show ?thesis
    proof (cases "fst heights \<le> snd heights \<and> (\<exists>x. r1 = Inr x)")
      case True
      then obtain x where "r1 = Inr x" by blast
      with Pair have "bytes_inv lookup s1" "l2_block_height (fst s1) = l2_block_height (fst s)"
        using update_unrecorded_block_bytes_inv [OF assms(1)] by blast+
      with True Pair show ?thesis
        using assms(2) by (auto simp: update_da_record_data_def da_block_update_def bytes_inv_def Let_def
            split: prod.splits sum.splits option.splits)
    next
      case False
      then show ?thesis
        using assms Pair remove_recorded_error
        by (auto simp: update_da_record_data_def da_block_update_def update_unrecorded_block_bytes_def
            split: prod.splits sum.splits if_splits dest!: remove_recorded_error)
    qed
  qed
  then show "bytes_inv lookup s'" "l2_block_height (fst s') = l2_block_height (fst s)" by simp_all
qed

lemma update_l2_block_data_inv:
  assumes "bytes_inv lookup s" "l2_block_height (fst s) \<noteq> - 1"
    and "update_l2_block_data ops h used cap bytes fee s = (s', r)"
  shows "bytes_inv lookup s'"
proof -
  obtain u ub where s: "s = (u, ub)" by (cases s)
  show ?thesis
  proof (cases "h = saturating_add (l2_block_height u) 1")
    case False
    then show ?thesis
      using assms by (simp add: s update_l2_block_data_def Let_def)
  next
    case True
    have "unat (l2_block_height u) + 1 \<le> 2 ^ 32 - 1"
      using assms(2) unat_le_exp [of "l2_block_height u"] unat_minus_one_word [where 'a = 32]
      by (simp add: s word_unat_eq_iff)
    then have lt: "l2_block_height u < h"
      by (simp add: True word_less_nat_alt rust_arith)
    have inv: "unat (unrecorded_blocks_bytes u) = ub_total (lookup ub)"
      "\<forall>x \<in> dom (lookup ub). x \<le> l2_block_height u"
      using assms(1) by (simp_all add: bytes_inv_def s)
    then have fresh: "lookup ub h = None" and le: "\<forall>x \<in> dom (lookup ub). x \<le> h"
      using lt by (meson domI leD not_None_eq, auto dest: less_imp_le order_trans)
    obtain ub1 r1 where ins: "ub_insert ops h bytes ub = (ub1, r1)" by fastforce
    show ?thesis
    proof (cases r1)
      case (Inl e)
      with ins insert_err have "lookup ub1 = lookup ub" by metis
      with Inl ins inv(1) le show ?thesis
        using assms(3) by (auto simp: s True [symmetric] update_l2_block_data_def Let_def bytes_inv_def)
    next
      case (Inr y)
      with ins insert_ok have l: "lookup ub1 = (lookup ub)(h \<mapsto> bytes)" by metis
      have "ub_total (lookup ub) + unat bytes = ub_total (lookup ub1)"
        using ub_total_upd_new [of "lookup ub" h bytes] fresh l by simp
      then have "unat (saturating_add (unrecorded_blocks_bytes u) (ucast bytes)) = ub_total (lookup ub1)"
        using inv(1) ub_total_bound [of "lookup ub1"] by (simp add: rust_arith unat_ucast_u64_u128)
      with Inr ins inv(1) le l show ?thesis
        using assms(3) by (auto simp: s True [symmetric] update_l2_block_data_def Let_def bytes_inv_def split: if_splits)
    qed
  qed
qed
end

interpretation btree_blocks: unrecorded_blocks btree_unrecorded id
  by unfold_locales (auto simp: btree_unrecorded_def)

section \<open>Runs of the updater\<close>

datatype v1_event =
    L2_block u32 u64 u64 u64 u128
  | Da_record "u32 \<times> u32" u32 u128

fun v1_step :: "'u unrecorded_ops \<Rightarrow> updater_v1 \<times> 'u \<Rightarrow> v1_event \<Rightarrow> updater_v1 \<times> 'u" where
  "v1_step ops s (L2_block height used capacity bytes fee) =
     fst (update_l2_block_data ops height used capacity bytes fee s)"
| "v1_step ops s (Da_record heights bytes cost) = fst (update_da_record_data ops heights bytes cost s)"

lemma da_price_in_bounds_cong:
  assumes "min_da_gas_price u' = min_da_gas_price u" "max_da_gas_price u' = max_da_gas_price u"
    "gas_price_factor u' = gas_price_factor u" "new_scaled_da_gas_price u' = new_scaled_da_gas_price u"
  shows "da_price_in_bounds u' = da_price_in_bounds u"
  using assms by (simp add: da_price_in_bounds_def min_scaled_da_gas_price_def max_scaled_da_gas_price_def)

lemma da_price_in_bounds_upd [simp]:
  "da_price_in_bounds (u\<lparr>unrecorded_blocks_bytes := b\<rparr>) = da_price_in_bounds u"
  "da_price_in_bounds (u\<lparr>latest_known_total_da_cost := c\<rparr>) = da_price_in_bounds u"
  "da_price_in_bounds (u\<lparr>latest_da_cost_per_byte := c\<rparr>) = da_price_in_bounds u"
  by (rule da_price_in_bounds_cong; simp)+

lemma update_l2_block_data_in_bounds:
  "da_price_in_bounds u \<Longrightarrow>
     da_price_in_bounds (fst (fst (update_l2_block_data ops h used cap bytes fee (u, ub))))"
  by (simp add: update_l2_block_data_def Let_def update_da_gas_price_in_bounds
       split: prod.split sum.split)

lemma da_block_update_in_bounds:
  "da_price_in_bounds u \<Longrightarrow> da_block_update ops hs rb rc (u, ub) = ((u', ub'), r) \<Longrightarrow>
     da_price_in_bounds u'"
  by (auto simp: da_block_update_def update_unrecorded_block_bytes_def Let_def
      split: prod.splits sum.splits option.splits)

lemma update_da_record_data_in_bounds:
  "da_price_in_bounds u \<Longrightarrow>
     da_price_in_bounds (fst (fst (update_da_record_data ops hs rb rc (u, ub))))"
  by (auto simp: update_da_record_data_def update_da_gas_price_in_bounds dest: da_block_update_in_bounds
      split: prod.split sum.split)

lemma v1_step_in_bounds: "da_price_in_bounds (fst s) \<Longrightarrow> da_price_in_bounds (fst (v1_step ops s e))"
  by (cases e; cases s) (simp_all add: update_l2_block_data_in_bounds update_da_record_data_in_bounds)

lemma v1_run_in_bounds:
  "da_price_in_bounds (fst s) \<Longrightarrow> da_price_in_bounds (fst (foldl (v1_step ops) s es))"
  by (induction es arbitrary: s) (simp_all add: v1_step_in_bounds)

lemma btree_no_remove_error [simp]: "remove_recorded btree_unrecorded hs acc ub \<noteq> (ub', Inl e)"
  by (induction hs arbitrary: acc ub) (auto simp: btree_unrecorded_def split: option.splits)

lemma btree_update_da_record_data_error:
  "snd (update_da_record_data btree_unrecorded hs bytes cost s) \<noteq> Inl (CouldNotRemoveUnrecordedBlock m)"
  by (cases s) (auto simp: update_da_record_data_def da_block_update_def update_unrecorded_block_bytes_def
        Let_def split: prod.splits sum.splits option.splits)

lemma btree_step_inv:
  assumes "bytes_inv id s" "l2_block_height (fst s) \<noteq> - 1"
  shows "bytes_inv id (v1_step btree_unrecorded s e)"
proof (cases e)
  case (L2_block h used cap bytes fee)
  then show ?thesis
    using btree_blocks.update_l2_block_data_inv [OF assms, of h used cap bytes fee]
    by (auto simp: prod_eq_iff)
next
  case (Da_record hs bytes cost)
  then show ?thesis
    using btree_blocks.update_da_record_data_inv(1) [OF assms(1), of hs bytes cost]
      btree_update_da_record_data_error [of hs bytes cost s]
    by (auto simp: prod_eq_iff)
qed

lemma l2_height_update_l2_block_data:
  "unat (l2_block_height (fst (fst (update_l2_block_data ops h used cap bytes fee (u, ub)))))
     \<le> Suc (unat (l2_block_height u))"
  by (simp add: update_l2_block_data_def Let_def rust_arith split: prod.split sum.split)

lemma l2_height_update_da_record_data:
  "l2_block_height (fst (fst (update_da_record_data ops hs rb rc (u, ub)))) = l2_block_height u"
  by (auto simp: update_da_record_data_def da_block_update_def update_unrecorded_block_bytes_def
      Let_def split: prod.splits sum.splits option.splits)

lemma v1_step_height:
  "unat (l2_block_height (fst (v1_step ops s e))) \<le> Suc (unat (l2_block_height (fst s)))"
  by (cases e; cases s) (simp_all add: l2_height_update_l2_block_data l2_height_update_da_record_data)

lemma btree_run_inv:
  assumes "bytes_inv id s" "unat (l2_block_height (fst s)) + length es < 2 ^ 32"
  shows "bytes_inv id (foldl (v1_step btree_unrecorded) s es)"
  using assms
proof (induction es arbitrary: s)
  case Nil
  then show ?case by simp
next
  case (Cons e es)
  have "l2_block_height (fst s) \<noteq> - 1"
    using Cons.prems(2) by (auto simp: unat_minus_one_word)
  then have "bytes_inv id (v1_step btree_unrecorded s e)"
    using Cons.prems(1) by (intro btree_step_inv)
  moreover have "unat (l2_block_height (fst (v1_step btree_unrecorded s e))) + length es < 2 ^ 32"
    using Cons.prems(2) v1_step_height [of btree_unrecorded s e] by simp
  ultimately show ?case
    unfolding foldl.simps by (rule Cons.IH)
qed

definition block_is_full :: "updater_v1 \<Rightarrow> u64 \<Rightarrow> u64 \<Rightarrow> bool" where
  "block_is_full u used capacity \<longleftrightarrow>
     unat (pct_value (l2_block_fullness_threshold_percent u))
       \<le> min (unat used * 100) (2 ^ 64 - 1) div unat capacity"

lemma exec_fullness:
  assumes "capacity \<noteq> 0"
  shows "(ucast (pct_value (l2_block_fullness_threshold_percent u)) \<le> saturating_mul used 100 div capacity)
           = block_is_full u used capacity"
  using assms
  by (simp add: block_is_full_def word_le_nat_alt unat_div rust_arith unat_ucast_up)

lemma unat_exec_change:
  "unat (exec_change u price) = min (unat price * unat (exec_gas_price_change_percent u)) (2 ^ 64 - 1) div 100"
  by (simp add: exec_change_def unat_div rust_arith unat_ucast_up)

lemma unat_max_u64: "unat (max (a :: u64) b) = max (unat a) (unat b)"
  by (simp add: max_def word_le_nat_alt)

lemma unat_update_exec_gas_price:
  assumes "capacity \<noteq> 0"
  shows "unat (new_scaled_exec_price (update_exec_gas_price u used capacity)) =
     max (unat (min_scaled_exec_gas_price u))
       (let price = unat (new_scaled_exec_price u);
            change = min (price * unat (exec_gas_price_change_percent u)) (2 ^ 64 - 1) div 100
        in if block_is_full u used capacity then min (price + change) (2 ^ 64 - 1) else price - change)"
  using assms
  by (simp add: update_exec_gas_price_def Let_def checked_div_def exec_fullness unat_max_u64
      unat_saturating_add unat_saturating_sub unat_exec_change)

lemma unat_div_ceil_ge:
  fixes a b :: u128
  assumes "b \<noteq> 0"
  shows "unat a \<le> unat (div_ceil a b) * unat b"
proof (cases "a mod b = 0")
  case True
  then have "unat a mod unat b = 0" by (metis unat_0 unat_mod)
  then have "unat a = unat a div unat b * unat b" by auto
  with True show ?thesis by (simp add: div_ceil_def unat_div)
next
  case False
  have b: "2 \<le> unat b"
  proof (rule ccontr)
    assume "\<not> 2 \<le> unat b"
    with assms have "b = 1" by (simp add: unat_eq_0 [symmetric] word_unat_eq_iff)
    with False show False by simp
  qed
  have "unat a div unat b \<le> unat a div 2"
    using b by (intro div_le_mono2) auto
  also have "\<dots> < 2 ^ 127"
    using unat_less_exp [of a] by simp
  finally have "unat (a div b + 1) = unat a div unat b + 1"
    by (simp add: unat_word_ariths unat_div)
  moreover have "unat a < (unat a div unat b + 1) * unat b"
    using b by (simp add: dividend_less_div_times add.commute)
  ultimately show ?thesis
    using False by (simp add: div_ceil_def)
qed

section \<open>Properties\<close>

definition sample_updater :: updater_v1 where
  "sample_updater =
     \<lparr>new_scaled_exec_price = 1000, min_exec_gas_price = 10, exec_gas_price_change_percent = 10,
      l2_block_height = 5, l2_block_fullness_threshold_percent = ClampedPercentage 50,
      new_scaled_da_gas_price = 1000, gas_price_factor = 10, min_da_gas_price = 10,
      max_da_gas_price = 1000, max_da_gas_price_change_percent = 10, total_da_rewards = 0,
      latest_known_total_da_cost = 0, projected_total_da_cost = 0, da_p_component = 4,
      da_d_component = 3, last_profit = 400, second_to_last_profit = 100,
      latest_da_cost_per_byte = 7, l2_activity = tracker_new_always_normal,
      unrecorded_blocks_bytes = 0\<rparr>"

lemmas price_eval = sample_updater_def da_price_in_bounds_def min_scaled_da_gas_price_def
  max_scaled_da_gas_price_def pd_positive_def tracker_safety_mode_def tracker_new_always_normal_def
  tracker_new_def tracker_new_full_def clamped_percentage_new_def rust_eval

text \<open>C1: The DA gas price is rate limited. Whenever the price lies between its configured minimum
  and maximum, one \<open>update_da_gas_price\<close> changes it by at most
  \<open>max_da_gas_price_change_percent\<close> percent of its old value, whatever the profit history, the
  controller components and the activity mode.\<close>

theorem da_price_rate_limited:
  assumes "da_price_in_bounds u"
  shows "100 * \<bar>uint (new_scaled_da_gas_price (update_da_gas_price u)) - uint (new_scaled_da_gas_price u)\<bar>
           \<le> uint (new_scaled_da_gas_price u) * uint (max_da_gas_price_change_percent u)"
proof -
  have "100 * sint (max_change u) \<le> uint (new_scaled_da_gas_price u) * uint (max_da_gas_price_change_percent u)"
    unfolding sint_max_change uint_nat
    by (metis (no_types) min.cobounded1 of_nat_mono of_nat_mult of_nat_numeral order_trans times_div_less_eq_dividend)
  moreover have "100 * \<bar>uint (new_scaled_da_gas_price (update_da_gas_price u)) - uint (new_scaled_da_gas_price u)\<bar>
      \<le> 100 * sint (max_change u)"
    using da_price_change_bounded [OF assms] by simp
  ultimately show ?thesis by (rule order_trans [rotated])
qed

theorem da_price_rate_limited_witness:
  "da_price_in_bounds sample_updater \<and>
   100 * \<bar>uint (new_scaled_da_gas_price (update_da_gas_price sample_updater)) - 1000\<bar> \<le> 1000 * 10"
proof -
  have "da_price_in_bounds sample_updater" by (simp add: price_eval)
  with da_price_rate_limited [OF this] show ?thesis by (simp add: sample_updater_def)
qed





text \<open>C6: No fee is counted twice: the DA share of a block's fee never exceeds the fee, and it is
  never less than the exact proportional share \<open>fee * da / (exec + da)\<close> as long as the product
  fits 128 bits.\<close>

theorem da_share_of_fee:
  "unat (da_portion_of_fee u fee) \<le> unat fee \<and>
   (unat fee * unat (descaled_da_price u) < 2 ^ 128 \<longrightarrow>
    unat fee * unat (descaled_da_price u)
      \<le> unat (da_portion_of_fee u fee) * (unat (descaled_exec_price u) + unat (descaled_da_price u)))"
proof (intro conjI impI)
  show "unat (da_portion_of_fee u fee) \<le> unat fee"
    by (rule da_portion_of_fee_le)
next
  let ?e = "unat (descaled_exec_price u)" and ?d = "unat (descaled_da_price u)"
  assume fits: "unat fee * ?d < 2 ^ 128"
  have den: "unat (saturating_add (ucast (descaled_exec_price u)) (ucast (descaled_da_price u)) :: u128) = ?e + ?d"
    by (rule unat_price_sum)
  have num: "unat (saturating_mul fee (ucast (descaled_da_price u))) = unat fee * ?d"
    using fits by (simp add: rust_arith unat_ucast_u64_u128)
  show "unat fee * ?d \<le> unat (da_portion_of_fee u fee) * (?e + ?d)"
  proof (cases "?e + ?d = 0")
    case False
    then have "saturating_add (ucast (descaled_exec_price u)) (ucast (descaled_da_price u)) \<noteq> (0 :: u128)"
      using den by auto
    from unat_div_ceil_ge [OF this, of "saturating_mul fee (ucast (descaled_da_price u))"] this
    show ?thesis by (simp add: da_portion_of_fee_def Let_def den num)
  qed simp
qed

theorem da_share_of_fee_witness:
  "unat (1000 :: u128) * unat (descaled_da_price sample_updater) < 2 ^ 128 \<and>
   1000 * 100 \<le> unat (da_portion_of_fee sample_updater 1000) * (100 + 100)"
  using da_share_of_fee [of sample_updater 1000]
  by (simp add: descaled_da_price_def descaled_exec_price_def sample_updater_def)




end
