(* ===== verification/Gas_Price_Service.thy ===== *)
theory Gas_Price_Service
  imports Gas_Price_Algorithm
begin

text \<open>
  The gas price service (crate \<open>gas_price_service\<close>) around the V1 updater: the metadata it
  persists, the conversion of blocks into \<open>BlockInfo\<close>, the handling of L2 blocks and of the DA
  costs buffered between them, the catch-up with the on-chain database at start, and the polling
  service for DA costs.

  The storage is the trait \<open>GasPriceServiceAtomicStorage\<close> (\<open>atomic_storage_ops\<close>), with the
  adapter of \<open>fuel_core_storage_adapter.rs\<close> as its instance \<open>fuel_storage\<close>. Streams, channels and
  the watcher appear as the values they deliver; metrics and log output are left out.
  A block's last transaction is read through the parameter \<open>as_mint\<close> and its encoded size through
  \<open>encoded_len\<close>, since both come from other crates.
\<close>

section \<open>Metadata and configuration\<close>

(* src/crates/services/gas_price_service/src/common/utils.rs:3-26 Error *)
datatype gp_error =
    CouldNotFetchL2Block string
  | CouldNotFetchRecordedHeight string
  | CouldNotSetRecordedHeight string
  | CouldNotFetchMetadata string
  | CouldNotSetMetadata u32 string
  | CouldNotInitUpdater string
  | CouldNotConvertMetadata
  | CouldNotCommit string

(* src/crates/services/gas_price_service/src/common/utils.rs:30-50 BlockInfo *)
datatype block_info =
    GenesisBlock
  | Block (bi_height: u32) (bi_gas_used: u64) (bi_block_gas_capacity: u64) (bi_block_bytes: u64)
      (bi_block_fees: u64) (bi_gas_price: u64)

(* src/crates/services/gas_price_service/src/v0/metadata.rs:6-21 V0Metadata *)
record v0_metadata =
  m0_new_exec_price :: u64
  m0_min_exec_gas_price :: u64
  m0_exec_gas_price_change_percent :: u64
  m0_l2_block_height :: u32
  m0_l2_block_fullness_threshold_percent :: u64

(* src/crates/services/gas_price_service/src/v0/metadata.rs:30-41 impl From<AlgorithmUpdaterV0> for V0Metadata *)
definition v0_metadata_of :: "updater_v0 \<Rightarrow> v0_metadata" where
  "v0_metadata_of u =
     \<lparr>m0_new_exec_price = v0_new_exec_price u,
      m0_min_exec_gas_price = v0_min_exec_gas_price u,
      m0_exec_gas_price_change_percent = v0_exec_gas_price_change_percent u,
      m0_l2_block_height = v0_l2_block_height u,
      m0_l2_block_fullness_threshold_percent = v0_l2_block_fullness_threshold_percent u\<rparr>"

(* src/crates/services/gas_price_service/src/v1/metadata.rs:12-37 V1Metadata *)
record v1_metadata =
  m1_new_scaled_exec_price :: u64
  m1_l2_block_height :: u32
  m1_new_scaled_da_gas_price :: u64
  m1_gas_price_factor :: u64
  m1_total_da_rewards :: u128
  m1_latest_known_total_da_cost :: u128
  m1_last_profit :: i128
  m1_second_to_last_profit :: i128
  m1_latest_da_cost_per_byte :: u128
  m1_unrecorded_block_bytes :: u128

(* src/crates/services/gas_price_service/src/v1/metadata.rs:76-98 V1AlgorithmConfig *)
record v1_config =
  cfg_new_exec_gas_price :: u64
  cfg_min_exec_gas_price :: u64
  cfg_exec_gas_price_change_percent :: u16
  cfg_l2_block_fullness_threshold_percent :: u8
  cfg_gas_price_factor :: u64
  cfg_min_da_gas_price :: u64
  cfg_max_da_gas_price :: u64
  cfg_max_da_gas_price_change_percent :: u16
  cfg_da_p_component :: i64
  cfg_da_d_component :: i64
  cfg_normal_range_size :: u16
  cfg_capped_range_size :: u16
  cfg_decrease_range_size :: u16
  cfg_block_activity_threshold :: u8
  cfg_starting_recorded_height :: "u32 option"

(* src/crates/services/gas_price_service/src/v1/metadata.rs:40-61 V1Metadata::construct_from_v0_metadata *)
definition construct_from_v0_metadata :: "v0_metadata \<Rightarrow> v1_config \<Rightarrow> v1_metadata" where
  "construct_from_v0_metadata m c =
     \<lparr>m1_new_scaled_exec_price = saturating_mul (m0_new_exec_price m) (cfg_gas_price_factor c),
      m1_l2_block_height = m0_l2_block_height m,
      m1_new_scaled_da_gas_price = saturating_mul (cfg_min_da_gas_price c) (cfg_gas_price_factor c),
      m1_gas_price_factor = cfg_gas_price_factor c,
      m1_total_da_rewards = 0,
      m1_latest_known_total_da_cost = 0,
      m1_last_profit = 0,
      m1_second_to_last_profit = 0,
      m1_latest_da_cost_per_byte = 0,
      m1_unrecorded_block_bytes = 0\<rparr>"

(* src/crates/services/gas_price_service/src/v1/metadata.rs:63-67 V1Metadata::new_exec_gas_price *)
definition m1_new_exec_gas_price :: "v1_metadata \<Rightarrow> u64" where
  "m1_new_exec_gas_price m =
     case_option 0 id (checked_div (m1_new_scaled_exec_price m) (m1_gas_price_factor m))"

(* src/crates/services/gas_price_service/src/v1/metadata.rs:69-73 V1Metadata::new_da_gas_price *)
definition m1_new_da_gas_price :: "v1_metadata \<Rightarrow> u64" where
  "m1_new_da_gas_price m =
     case_option 0 id (checked_div (m1_new_scaled_da_gas_price m) (m1_gas_price_factor m))"

definition config_tracker :: "v1_config \<Rightarrow> l2_activity_tracker" where
  "config_tracker c =
     tracker_new_full (cfg_normal_range_size c) (cfg_capped_range_size c) (cfg_decrease_range_size c)
       (clamped_percentage_new (cfg_block_activity_threshold c))"

(* src/crates/services/gas_price_service/src/v1/metadata.rs:100-139 updater_from_config *)
definition updater_from_config :: "v1_config \<Rightarrow> u32 \<Rightarrow> updater_v1" where
  "updater_from_config c height =
     \<lparr>new_scaled_exec_price = saturating_mul (cfg_new_exec_gas_price c) (cfg_gas_price_factor c),
      min_exec_gas_price = cfg_min_exec_gas_price c,
      exec_gas_price_change_percent = cfg_exec_gas_price_change_percent c,
      l2_block_height = height,
      l2_block_fullness_threshold_percent =
        clamped_percentage_new (cfg_l2_block_fullness_threshold_percent c),
      new_scaled_da_gas_price = saturating_mul (cfg_min_da_gas_price c) (cfg_gas_price_factor c),
      gas_price_factor = cfg_gas_price_factor c,
      min_da_gas_price = cfg_min_da_gas_price c,
      max_da_gas_price = cfg_max_da_gas_price c,
      max_da_gas_price_change_percent = cfg_max_da_gas_price_change_percent c,
      total_da_rewards = 0,
      latest_known_total_da_cost = 0,
      projected_total_da_cost = 0,
      da_p_component = cfg_da_p_component c,
      da_d_component = cfg_da_d_component c,
      last_profit = 0,
      second_to_last_profit = 0,
      latest_da_cost_per_byte = 0,
      l2_activity = config_tracker c,
      unrecorded_blocks_bytes = 0\<rparr>"

(* src/crates/services/gas_price_service/src/v1/metadata.rs:141-156 impl From<AlgorithmUpdaterV1> for V1Metadata *)
definition v1_metadata_of :: "updater_v1 \<Rightarrow> v1_metadata" where
  "v1_metadata_of u =
     \<lparr>m1_new_scaled_exec_price = new_scaled_exec_price u,
      m1_l2_block_height = l2_block_height u,
      m1_new_scaled_da_gas_price = new_scaled_da_gas_price u,
      m1_gas_price_factor = gas_price_factor u,
      m1_total_da_rewards = total_da_rewards u,
      m1_latest_known_total_da_cost = latest_known_total_da_cost u,
      m1_last_profit = last_profit u,
      m1_second_to_last_profit = second_to_last_profit u,
      m1_latest_da_cost_per_byte = latest_da_cost_per_byte u,
      m1_unrecorded_block_bytes = unrecorded_blocks_bytes u\<rparr>"

(* src/crates/services/gas_price_service/src/v1/metadata.rs:158-198 v1_algorithm_from_metadata *)
definition v1_algorithm_from_metadata :: "v1_metadata \<Rightarrow> v1_config \<Rightarrow> updater_v1" where
  "v1_algorithm_from_metadata m c =
     (let projected_portion = saturating_mul (m1_unrecorded_block_bytes m) (m1_latest_da_cost_per_byte m)
      in \<lparr>new_scaled_exec_price = m1_new_scaled_exec_price m,
          min_exec_gas_price = cfg_min_exec_gas_price c,
          exec_gas_price_change_percent = cfg_exec_gas_price_change_percent c,
          l2_block_height = m1_l2_block_height m,
          l2_block_fullness_threshold_percent =
            clamped_percentage_new (cfg_l2_block_fullness_threshold_percent c),
          new_scaled_da_gas_price = m1_new_scaled_da_gas_price m,
          gas_price_factor = m1_gas_price_factor m,
          min_da_gas_price = cfg_min_da_gas_price c,
          max_da_gas_price = cfg_max_da_gas_price c,
          max_da_gas_price_change_percent = cfg_max_da_gas_price_change_percent c,
          total_da_rewards = m1_total_da_rewards m,
          latest_known_total_da_cost = m1_latest_known_total_da_cost m,
          projected_total_da_cost = saturating_add (m1_latest_known_total_da_cost m) projected_portion,
          da_p_component = cfg_da_p_component c,
          da_d_component = cfg_da_d_component c,
          last_profit = m1_last_profit m,
          second_to_last_profit = m1_second_to_last_profit m,
          latest_da_cost_per_byte = m1_latest_da_cost_per_byte m,
          l2_activity = config_tracker c,
          unrecorded_blocks_bytes = m1_unrecorded_block_bytes m\<rparr>)"

(* src/crates/services/gas_price_service/src/common/updater_metadata.rs:12-16 UpdaterMetadata *)
datatype updater_metadata = MetaV0 v0_metadata | MetaV1 v1_metadata

(* src/crates/services/gas_price_service/src/common/updater_metadata.rs:18-24 UpdaterMetadata::l2_block_height *)
fun metadata_l2_block_height :: "updater_metadata \<Rightarrow> u32" where
  "metadata_l2_block_height (MetaV0 v0) = m0_l2_block_height v0"
| "metadata_l2_block_height (MetaV1 v1) = m1_l2_block_height v1"

(* src/crates/services/gas_price_service/src/common/updater_metadata.rs:34-38 impl From<AlgorithmUpdaterV0> for UpdaterMetadata *)
definition updater_metadata_of_v0 :: "updater_v0 \<Rightarrow> updater_metadata" where
  "updater_metadata_of_v0 u = MetaV0 (v0_metadata_of u)"

(* src/crates/services/gas_price_service/src/common/updater_metadata.rs:40-44 impl From<AlgorithmUpdaterV1> for UpdaterMetadata *)
definition updater_metadata_of_v1 :: "updater_v1 \<Rightarrow> updater_metadata" where
  "updater_metadata_of_v1 u = MetaV1 (v1_metadata_of u)"

(* src/crates/services/gas_price_service/src/common/updater_metadata.rs:46-55 impl TryFrom<UpdaterMetadata> for V0Metadata *)
fun v0_metadata_try_from :: "updater_metadata \<Rightarrow> (gp_error, v0_metadata) result" where
  "v0_metadata_try_from (MetaV0 v0) = Inr v0"
| "v0_metadata_try_from (MetaV1 v1) = Inl CouldNotConvertMetadata"

(* src/crates/services/gas_price_service/src/common/updater_metadata.rs:57-66 impl TryFrom<UpdaterMetadata> for V1Metadata *)
fun v1_metadata_try_from :: "updater_metadata \<Rightarrow> (gp_error, v1_metadata) result" where
  "v1_metadata_try_from (MetaV1 v1) = Inr v1"
| "v1_metadata_try_from (MetaV0 v0) = Inl CouldNotConvertMetadata"

(* src/crates/services/gas_price_service/src/v1/service.rs:457-473 convert_to_v1_metadata *)
definition convert_to_v1_metadata :: "updater_metadata \<Rightarrow> v1_config \<Rightarrow> (gp_error, v1_metadata) result" where
  "convert_to_v1_metadata m c =
     (case v1_metadata_try_from m of
        Inr v1 \<Rightarrow> Inr v1
      | Inl _ \<Rightarrow>
          (case v0_metadata_try_from m of
             Inl _ \<Rightarrow> Inl (CouldNotInitUpdater ''Could not convert metadata to V0Metadata'')
           | Inr v0 \<Rightarrow> Inr (construct_from_v0_metadata v0 c)))"

section \<open>Storage\<close>

(* src/crates/services/gas_price_service/src/ports.rs:24-60 GasPriceServiceAtomicStorage *)
record ('st, 'tx) atomic_storage_ops =
  begin_transaction :: "'st \<Rightarrow> (gp_error, 'tx) result"
  commit_transaction :: "'tx \<Rightarrow> 'st \<Rightarrow> 'st \<times> (gp_error, unit) result"
  get_metadata :: "u32 \<Rightarrow> 'st \<Rightarrow> (gp_error, updater_metadata option) result"
  get_recorded_height :: "'st \<Rightarrow> (gp_error, u32 option) result"
  tx_get_recorded_height :: "'tx \<Rightarrow> (gp_error, u32 option) result"
  tx_set_recorded_height :: "u32 \<Rightarrow> 'tx \<Rightarrow> 'tx \<times> (gp_error, unit) result"
  tx_set_metadata :: "updater_metadata \<Rightarrow> 'tx \<Rightarrow> 'tx \<times> (gp_error, unit) result"
  as_unrecorded_blocks :: "'tx unrecorded_ops"

text \<open>The three tables of the adapter: metadata by height, the single recorded height, and the bytes
  of unrecorded blocks. A transaction works on a copy which a commit writes back. The database below
  may fail at any operation: \<open>fault\<close> says at which ones and with what message.\<close>

record gp_tables =
  tbl_metadata :: "u32 \<Rightarrow> updater_metadata option"
  tbl_recorded_height :: "u32 option"
  tbl_unrecorded :: "u32 \<Rightarrow> u64 option"

datatype storage_access =
    Get_metadata u32 | Set_metadata u32 | Get_recorded_height | Set_recorded_height u32
  | Insert_unrecorded u32 | Take_unrecorded u32 | Commit

type_synonym storage_fault = "storage_access \<Rightarrow> gp_tables \<Rightarrow> string option"

(* src/crates/services/gas_price_service/src/v1/uninitialized_task/fuel_storage_unrecorded_blocks.rs:61-83 impl UnrecordedBlocks for FuelStorageUnrecordedBlocks *)
definition fuel_storage_unrecorded_blocks :: "storage_fault \<Rightarrow> gp_tables unrecorded_ops" where
  "fuel_storage_unrecorded_blocks fault =
     \<lparr>ub_insert = (\<lambda>height bytes t.
        case fault (Insert_unrecorded height) t of
          Some err \<Rightarrow> (t, Inl (''Error: '' @ err))
        | None \<Rightarrow> (t\<lparr>tbl_unrecorded := (tbl_unrecorded t)(height \<mapsto> bytes)\<rparr>, Inr ())),
      ub_remove = (\<lambda>height t.
        case fault (Take_unrecorded height) t of
          Some err \<Rightarrow> (t, Inl (''Error: '' @ err))
        | None \<Rightarrow> (t\<lparr>tbl_unrecorded := (tbl_unrecorded t)(height := None)\<rparr>, Inr (tbl_unrecorded t height)))\<rparr>"

(* src/crates/services/gas_price_service/src/common/fuel_core_storage_adapter.rs:62-159 impl GasPriceServiceAtomicStorage for Storage *)
definition fuel_storage :: "storage_fault \<Rightarrow> (gp_tables, gp_tables) atomic_storage_ops" where
  "fuel_storage fault =
     \<lparr>begin_transaction = (\<lambda>st. Inr st),
      commit_transaction = (\<lambda>tx st.
        case fault Commit tx of Some err \<Rightarrow> (st, Inl (CouldNotCommit err)) | None \<Rightarrow> (tx, Inr ())),
      get_metadata = (\<lambda>h st.
        case fault (Get_metadata h) st of
          Some err \<Rightarrow> Inl (CouldNotFetchMetadata err) | None \<Rightarrow> Inr (tbl_metadata st h)),
      get_recorded_height = (\<lambda>st.
        case fault Get_recorded_height st of
          Some err \<Rightarrow> Inl (CouldNotFetchRecordedHeight err) | None \<Rightarrow> Inr (tbl_recorded_height st)),
      tx_get_recorded_height = (\<lambda>tx.
        case fault Get_recorded_height tx of
          Some err \<Rightarrow> Inl (CouldNotFetchRecordedHeight err) | None \<Rightarrow> Inr (tbl_recorded_height tx)),
      tx_set_recorded_height = (\<lambda>h tx.
        case fault (Set_recorded_height h) tx of
          Some err \<Rightarrow> (tx, Inl (CouldNotSetRecordedHeight err))
        | None \<Rightarrow> (tx\<lparr>tbl_recorded_height := Some h\<rparr>, Inr ())),
      tx_set_metadata = (\<lambda>m tx.
        let h = metadata_l2_block_height m
        in case fault (Set_metadata h) tx of
             Some err \<Rightarrow> (tx, Inl (CouldNotSetMetadata h err))
           | None \<Rightarrow> (tx\<lparr>tbl_metadata := (tbl_metadata tx)(h \<mapsto> m)\<rparr>, Inr ())),
      as_unrecorded_blocks = fuel_storage_unrecorded_blocks fault\<rparr>"

section \<open>The service\<close>

(* src/crates/services/gas_price_service/src/v1/da_source_service.rs:12-18 DaBlockCosts *)
record da_block_costs =
  bundle_id :: u32
  l2_blocks :: "u32 \<times> u32"
  bundle_size_bytes :: u32
  blob_cost_wei :: u128

text \<open>The errors of the service, \<open>anyhow::Error\<close> in the code, keep the cause they wrap.\<close>

datatype service_error =
    StorageErr gp_error
  | AlgorithmErr v1_error
  | ZeroBlockGasCapacity
  | MissingBlock u32
  | OnChainErr string
  | RecordedHeightOverflow
  | NoReceivers

(* src/crates/services/gas_price_service/src/v1/service.rs:109-136 GasPriceServiceV1 *)
record 'st gas_price_service =
  shared_algo :: algorithm_v1
  latest_gas_price :: "u32 \<times> u64"
  algorithm_updater :: updater_v1
  da_block_costs_buffer :: "da_block_costs list"
  storage_tx_provider :: 'st
  latest_l2_block :: u32
  initial_recorded_height :: "u32 option"

(* src/crates/services/gas_price_service/src/v1/service.rs:142-153 GasPriceServiceV1::update_latest_gas_price *)
fun update_latest_gas_price :: "'st gas_price_service \<Rightarrow> block_info \<Rightarrow> 'st gas_price_service" where
  "update_latest_gas_price s GenesisBlock = s"
| "update_latest_gas_price s (Block height gas_used cap bytes fees price) =
     s\<lparr>latest_gas_price := (height, price)\<rparr>"

(* src/crates/services/gas_price_service/src/v1/service.rs:187-195 GasPriceServiceV1::notify_da_source_service_l2_block *)
fun notify_da_source_service_l2_block :: "'st gas_price_service \<Rightarrow> block_info \<Rightarrow> 'st gas_price_service" where
  "notify_da_source_service_l2_block s GenesisBlock = s"
| "notify_da_source_service_l2_block s (Block height gas_used cap bytes fees price) =
     s\<lparr>latest_l2_block := height\<rparr>"

(* src/crates/services/gas_price_service/src/v1/service.rs:203-229 GasPriceServiceV1::new *)
definition service_new ::
  "algorithm_v1 \<Rightarrow> u32 \<times> u64 \<Rightarrow> updater_v1 \<Rightarrow> 'st \<Rightarrow> u32 \<Rightarrow> u32 option \<Rightarrow> 'st gas_price_service" where
  "service_new algo latest updater st l2_height initial =
     \<lparr>shared_algo = algo, latest_gas_price = latest, algorithm_updater = updater,
      da_block_costs_buffer = [], storage_tx_provider = st, latest_l2_block = l2_height,
      initial_recorded_height = initial\<rparr>"

(* src/crates/services/gas_price_service/src/v1/service.rs:248-253 GasPriceServiceV1::validate_block_gas_capacity *)
definition validate_block_gas_capacity :: "u64 \<Rightarrow> (service_error, u64) result" where
  "validate_block_gas_capacity cap = (if cap = 0 then Inl ZeroBlockGasCapacity else Inr cap)"

(* src/crates/services/gas_price_service/src/v1/service.rs:278-289 GasPriceServiceV1::handle_normal_block, loop over the buffered costs *)
fun apply_da_costs ::
  "'tx unrecorded_ops \<Rightarrow> da_block_costs list \<Rightarrow> updater_v1 \<times> 'tx \<Rightarrow> u32 option
     \<Rightarrow> (updater_v1 \<times> 'tx) \<times> (v1_error, u32 option) result" where
  "apply_da_costs ops [] s new_recorded = (s, Inr new_recorded)"
| "apply_da_costs ops (c # cs) s new_recorded =
     (case update_da_record_data ops (l2_blocks c) (bundle_size_bytes c) (blob_cost_wei c) s of
        (s', Inl e) \<Rightarrow> (s', Inl e)
      | (s', Inr _) \<Rightarrow> apply_da_costs ops cs s' (Some (snd (l2_blocks c))))"

definition set_recorded_opt ::
  "('st, 'tx) atomic_storage_ops \<Rightarrow> u32 option \<Rightarrow> 'tx \<Rightarrow> 'tx \<times> (gp_error, unit) result" where
  "set_recorded_opt ops r tx = (case r of None \<Rightarrow> (tx, Inr ()) | Some h \<Rightarrow> tx_set_recorded_height ops h tx)"

(* src/crates/services/gas_price_service/src/v1/service.rs:298-298 GasPriceServiceV1::handle_normal_block, fee_in_wei *)
definition live_fee_wei :: "u64 \<Rightarrow> u128" where
  "live_fee_wei block_fees = saturating_mul (ucast block_fees) 1000000000"

(* src/crates/services/gas_price_service/src/v1/service.rs:278-321 GasPriceServiceV1::handle_normal_block, after the recorded height is read *)
definition block_transaction ::
  "('st, 'tx) atomic_storage_ops \<Rightarrow> u32 \<Rightarrow> u64 \<Rightarrow> u64 \<Rightarrow> u64 \<Rightarrow> u64 \<Rightarrow> 'tx \<Rightarrow> u32 option
     \<Rightarrow> 'st gas_price_service \<Rightarrow> 'st gas_price_service \<times> (service_error, unit) result" where
  "block_transaction ops height gas_used capacity block_bytes block_fees tx0 new_recorded s =
     (case apply_da_costs (as_unrecorded_blocks ops) (da_block_costs_buffer s)
             (algorithm_updater s, tx0) new_recorded of
        ((u1, tx1), Inl e) \<Rightarrow> (s\<lparr>algorithm_updater := u1\<rparr>, Inl (AlgorithmErr e))
      | ((u1, tx1), Inr new_recorded') \<Rightarrow>
      (case set_recorded_opt ops new_recorded' tx1 of
         (tx2, Inl e) \<Rightarrow> (s\<lparr>algorithm_updater := u1\<rparr>, Inl (StorageErr e))
       | (tx2, Inr _) \<Rightarrow>
      (case update_l2_block_data (as_unrecorded_blocks ops) height gas_used capacity block_bytes
              (live_fee_wei block_fees) (u1, tx2) of
         ((u2, tx3), Inl e) \<Rightarrow> (s\<lparr>algorithm_updater := u2\<rparr>, Inl (AlgorithmErr e))
       | ((u2, tx3), Inr _) \<Rightarrow>
      (case tx_set_metadata ops (updater_metadata_of_v1 u2) tx3 of
         (tx4, Inl e) \<Rightarrow> (s\<lparr>algorithm_updater := u2\<rparr>, Inl (StorageErr e))
       | (tx4, Inr _) \<Rightarrow>
      (case commit_transaction ops tx4 (storage_tx_provider s) of
         (st', Inl e) \<Rightarrow>
           (s\<lparr>algorithm_updater := u2, storage_tx_provider := st'\<rparr>, Inl (StorageErr e))
       | (st', Inr _) \<Rightarrow>
           (s\<lparr>algorithm_updater := u2, storage_tx_provider := st', shared_algo := v1_algorithm u2,
              da_block_costs_buffer := []\<rparr>, Inr ()))))))"

(* src/crates/services/gas_price_service/src/v1/service.rs:255-322 GasPriceServiceV1::handle_normal_block *)
definition handle_normal_block ::
  "('st, 'tx) atomic_storage_ops \<Rightarrow> u32 \<Rightarrow> u64 \<Rightarrow> u64 \<Rightarrow> u64 \<Rightarrow> u64 \<Rightarrow> 'st gas_price_service
     \<Rightarrow> 'st gas_price_service \<times> (service_error, unit) result" where
  "handle_normal_block ops height gas_used block_gas_capacity block_bytes block_fees s =
     (case validate_block_gas_capacity block_gas_capacity of Inl e \<Rightarrow> (s, Inl e) | Inr capacity \<Rightarrow>
      (case begin_transaction ops (storage_tx_provider s) of Inl e \<Rightarrow> (s, Inl (StorageErr e)) | Inr tx0 \<Rightarrow>
       (case tx_get_recorded_height ops tx0 of
          Inl e \<Rightarrow> (s, Inl (StorageErr e))
        | Inr (Some _) \<Rightarrow>
            block_transaction ops height gas_used capacity block_bytes block_fees tx0 None s
        | Inr None \<Rightarrow>
            block_transaction ops height gas_used capacity block_bytes block_fees tx0
              (initial_recorded_height s) (s\<lparr>initial_recorded_height := None\<rparr>))))"

(* src/crates/services/gas_price_service/src/v1/service.rs:371-406 GasPriceServiceV1::apply_block_info_to_gas_algorithm *)
fun apply_block_info_to_gas_algorithm ::
  "('st, 'tx) atomic_storage_ops \<Rightarrow> block_info \<Rightarrow> 'st gas_price_service
     \<Rightarrow> 'st gas_price_service \<times> (service_error, unit) result" where
  "apply_block_info_to_gas_algorithm ops GenesisBlock s =
     (case begin_transaction ops (storage_tx_provider s) of Inl e \<Rightarrow> (s, Inl (StorageErr e)) | Inr tx0 \<Rightarrow>
      (case tx_set_metadata ops (updater_metadata_of_v1 (algorithm_updater s)) tx0 of
         (tx1, Inl e) \<Rightarrow> (s, Inl (StorageErr e))
       | (tx1, Inr _) \<Rightarrow>
      (case commit_transaction ops tx1 (storage_tx_provider s) of
         (st', Inl e) \<Rightarrow> (s\<lparr>storage_tx_provider := st'\<rparr>, Inl (StorageErr e))
       | (st', Inr _) \<Rightarrow>
           (s\<lparr>storage_tx_provider := st', shared_algo := v1_algorithm (algorithm_updater s)\<rparr>, Inr ()))))"
| "apply_block_info_to_gas_algorithm ops (Block height gas_used cap bytes fees price) s =
     handle_normal_block ops height gas_used cap bytes fees s"

(* src/crates/services/gas_price_service/src/v1/service.rs:172-185 GasPriceServiceV1::commit_block_data_to_algorithm *)
definition commit_block_data_to_algorithm ::
  "('st, 'tx) atomic_storage_ops \<Rightarrow> (gp_error, block_info) result \<Rightarrow> 'st gas_price_service
     \<Rightarrow> 'st gas_price_service \<times> (service_error, unit) result" where
  "commit_block_data_to_algorithm ops l2_block_res s =
     (case l2_block_res of
        Inl e \<Rightarrow> (s, Inl (StorageErr e))
      | Inr block \<Rightarrow>
          (case apply_block_info_to_gas_algorithm ops block (update_latest_gas_price s block) of
             (s', Inl e) \<Rightarrow> (s', Inl e)
           | (s', Inr _) \<Rightarrow> (notify_da_source_service_l2_block s' block, Inr ())))"

text \<open>What one turn of \<open>run\<close> receives: a result of the L2 block source or of the DA costs channel.\<close>

datatype service_event =
    L2_result "(gp_error, block_info) result"
  | Da_costs "(string, da_block_costs) result"

(* src/crates/services/gas_price_service/src/v1/service.rs:415-441 GasPriceServiceV1::run *)
fun service_run ::
  "('st, 'tx) atomic_storage_ops \<Rightarrow> 'st gas_price_service \<Rightarrow> service_event
     \<Rightarrow> 'st gas_price_service \<times> (service_error, unit) result" where
  "service_run ops s (L2_result res) = commit_block_data_to_algorithm ops res s"
| "service_run ops s (Da_costs (Inr c)) =
     (s\<lparr>da_block_costs_buffer := da_block_costs_buffer s @ [c]\<rparr>, Inr ())"
| "service_run ops s (Da_costs (Inl e)) = (s, Inl (OnChainErr e))"

(* src/crates/services/gas_price_service/src/v1/service.rs:443-454 GasPriceServiceV1::shutdown *)
fun service_shutdown ::
  "('st, 'tx) atomic_storage_ops \<Rightarrow> (gp_error, block_info) result list \<Rightarrow> 'st gas_price_service
     \<Rightarrow> 'st gas_price_service \<times> (service_error, unit) result" where
  "service_shutdown ops (Inr block # pending) s =
     (case apply_block_info_to_gas_algorithm ops block s of
        (s', Inl e) \<Rightarrow> (s', Inl e)
      | (s', Inr _) \<Rightarrow> service_shutdown ops pending s')"
| "service_shutdown ops _ s = (s, Inr ())"

(* src/crates/services/gas_price_service/src/v1/service.rs:475-499 initialize_algorithm *)
definition initialize_algorithm ::
  "('st, 'tx) atomic_storage_ops \<Rightarrow> v1_config \<Rightarrow> u32 \<Rightarrow> u32 \<Rightarrow> 'st
     \<Rightarrow> (gp_error, updater_v1 \<times> algorithm_v1) result" where
  "initialize_algorithm ops c metadata_height l2_height st =
     (case get_metadata ops metadata_height st of
        Inl e \<Rightarrow> Inl (CouldNotInitUpdater ''metadata storage'')
      | Inr (Some m) \<Rightarrow>
          (case convert_to_v1_metadata m c of
             Inl e \<Rightarrow> Inl e
           | Inr m1 \<Rightarrow> (let u = v1_algorithm_from_metadata m1 c in Inr (u, v1_algorithm u)))
      | Inr None \<Rightarrow> (let u = updater_from_config c l2_height in Inr (u, v1_algorithm u)))"

section \<open>Blocks and the catch-up with the on-chain database\<close>

record 'tx l2_block =
  header_height :: u32
  header_params_version :: u32
  transactions :: "'tx list"

(* src/crates/services/gas_price_service/src/common/fuel_core_storage_adapter.rs:161-165 GasPriceSettings *)
record gas_price_settings =
  set_gas_price_factor :: u64
  set_block_gas_limit :: u64

definition checked_mul_u64 :: "u64 \<Rightarrow> u64 \<Rightarrow> u64 option" where
  "checked_mul_u64 a b = (if unat a * unat b < 2 ^ 64 then Some (a * b) else None)"

(* src/crates/services/gas_price_service/src/common/fuel_core_storage_adapter.rs:192-201 mint_values *)
definition mint_values :: "('tx \<Rightarrow> (u64 \<times> u64) option) \<Rightarrow> 'tx l2_block \<Rightarrow> (gp_error, u64 \<times> u64) result" where
  "mint_values as_mint b =
     (case (if transactions b = [] then None else as_mint (last (transactions b))) of
        None \<Rightarrow> Inl (CouldNotFetchL2Block ''Block has no mint transaction'')
      | Some v \<Rightarrow> Inr v)"

(* src/crates/services/gas_price_service/src/common/fuel_core_storage_adapter.rs:209-226 block_used_gas *)
definition block_used_gas :: "u64 \<Rightarrow> u64 \<Rightarrow> u64 \<Rightarrow> u64 \<Rightarrow> (gp_error, u64) result" where
  "block_used_gas fee gas_price factor max_used_gas =
     (case checked_mul_u64 fee factor of
        None \<Rightarrow> Inl (CouldNotFetchL2Block ''Failed to scale fee by gas price factor, overflow'')
      | Some scaled_fee \<Rightarrow>
          Inr (min (case_option max_used_gas id (checked_div scaled_fee gas_price)) max_used_gas))"

(* src/crates/services/gas_price_service/src/common/fuel_core_storage_adapter.rs:174-190 get_block_info *)
definition get_block_info ::
  "('tx \<Rightarrow> (u64 \<times> u64) option) \<Rightarrow> ('tx l2_block \<Rightarrow> u64) \<Rightarrow> 'tx l2_block \<Rightarrow> u64 \<Rightarrow> u64
     \<Rightarrow> (gp_error, block_info) result" where
  "get_block_info as_mint encoded_len b factor limit =
     (case mint_values as_mint b of Inl e \<Rightarrow> Inl e | Inr (fee, gas_price) \<Rightarrow>
      (case block_used_gas fee gas_price factor limit of Inl e \<Rightarrow> Inl e | Inr used \<Rightarrow>
         Inr (Block (header_height b) used limit (encoded_len b) fee gas_price)))"

(* src/crates/services/gas_price_service/src/common/l2_block_source.rs:53-81 FuelL2BlockSource::get_l2_block *)
definition get_l2_block ::
  "('tx \<Rightarrow> (u64 \<times> u64) option) \<Rightarrow> ('tx l2_block \<Rightarrow> u64) \<Rightarrow> (u32 \<Rightarrow> (gp_error, gas_price_settings) result)
     \<Rightarrow> u32 \<Rightarrow> 'tx l2_block option \<Rightarrow> (gp_error, block_info) result" where
  "get_l2_block as_mint encoded_len settings genesis committed =
     (case committed of
        None \<Rightarrow> Inl (CouldNotFetchL2Block ''No committed block found'')
      | Some b \<Rightarrow>
          (if header_height b < genesis
           then Inl (CouldNotFetchL2Block ''Block precedes expected genesis block height'')
           else if header_height b = genesis then Inr GenesisBlock
           else (case settings (header_params_version b) of
                   Inl e \<Rightarrow> Inl e
                 | Inr g \<Rightarrow>
                     get_block_info as_mint encoded_len b (set_gas_price_factor g) (set_block_gas_limit g))))"

record 'tx l2_data =
  latest_height :: "(string, u32) result"
  get_block :: "u32 \<Rightarrow> (string, 'tx l2_block option) result"

(* src/crates/services/gas_price_service/src/v1/uninitialized_task.rs:357-364 sync_gas_price_db_with_on_chain_storage, fee_wei *)
definition sync_fee_wei :: "u64 \<Rightarrow> u128" where
  "sync_fee_wei fee_gwei = ucast (saturating_mul fee_gwei 1000000000)"

(* src/crates/services/gas_price_service/src/v1/uninitialized_task.rs:335-369 sync_gas_price_db_with_on_chain_storage, loop body *)
definition sync_block ::
  "('st, 'stx) atomic_storage_ops \<Rightarrow> ('tx \<Rightarrow> (u64 \<times> u64) option) \<Rightarrow> ('tx l2_block \<Rightarrow> u64)
     \<Rightarrow> (u32 \<Rightarrow> (gp_error, gas_price_settings) result) \<Rightarrow> 'tx l2_data \<Rightarrow> u32 \<Rightarrow> updater_v1 \<times> 'st
     \<Rightarrow> (updater_v1 \<times> 'st) \<times> (service_error, unit) result" where
  "sync_block ops as_mint encoded_len settings view height s =
     (case s of (u, st) \<Rightarrow>
      (case begin_transaction ops st of Inl e \<Rightarrow> (s, Inl (StorageErr e)) | Inr tx0 \<Rightarrow>
       (case get_block view height of Inl e \<Rightarrow> (s, Inl (OnChainErr e)) | Inr None \<Rightarrow> (s, Inl (MissingBlock height))
        | Inr (Some b) \<Rightarrow>
       (case settings (header_params_version b) of Inl e \<Rightarrow> (s, Inl (StorageErr e)) | Inr g \<Rightarrow>
       (if set_block_gas_limit g = 0 then (s, Inl ZeroBlockGasCapacity) else
       (case get_block_info as_mint encoded_len b (set_gas_price_factor g) (set_block_gas_limit g) of
          Inl e \<Rightarrow> (s, Inl (StorageErr e))
        | Inr GenesisBlock \<Rightarrow> (s, Inl (OnChainErr ''should not be genesis block''))
        | Inr (Block _ gas_used _ _ _ _) \<Rightarrow>
       (case mint_values as_mint b of Inl e \<Rightarrow> (s, Inl (StorageErr e)) | Inr (fee_gwei, _) \<Rightarrow>
       (let fee_wei = sync_fee_wei fee_gwei
        in case update_l2_block_data (as_unrecorded_blocks ops) height gas_used (set_block_gas_limit g)
                  (encoded_len b) fee_wei (u, tx0) of
             ((u', tx1), Inl e) \<Rightarrow> ((u', st), Inl (AlgorithmErr e))
           | ((u', tx1), Inr _) \<Rightarrow>
       (case tx_set_metadata ops (updater_metadata_of_v1 u') tx1 of
          (tx2, Inl e) \<Rightarrow> ((u', st), Inl (StorageErr e))
        | (tx2, Inr _) \<Rightarrow>
       (case commit_transaction ops tx2 st of
          (st', Inl e) \<Rightarrow> ((u', st'), Inl (StorageErr e))
        | (st', Inr _) \<Rightarrow> ((u', st'), Inr ())))))))))))"

fun sync_heights ::
  "('st, 'stx) atomic_storage_ops \<Rightarrow> ('tx \<Rightarrow> (u64 \<times> u64) option) \<Rightarrow> ('tx l2_block \<Rightarrow> u64)
     \<Rightarrow> (u32 \<Rightarrow> (gp_error, gas_price_settings) result) \<Rightarrow> 'tx l2_data \<Rightarrow> (u32 \<Rightarrow> bool) \<Rightarrow> u32 list
     \<Rightarrow> updater_v1 \<times> 'st \<Rightarrow> (updater_v1 \<times> 'st) \<times> (service_error, unit) result" where
  "sync_heights ops as_mint encoded_len settings view stopping [] s = (s, Inr ())"
| "sync_heights ops as_mint encoded_len settings view stopping (h # hs) s =
     (if stopping h then (s, Inr ())
      else case sync_block ops as_mint encoded_len settings view h s of
             (s', Inl e) \<Rightarrow> (s', Inl e)
           | (s', Inr _) \<Rightarrow> sync_heights ops as_mint encoded_len settings view stopping hs s')"

(* src/crates/services/gas_price_service/src/v1/uninitialized_task.rs:301-373 sync_gas_price_db_with_on_chain_storage *)
definition sync_gas_price_db_with_on_chain_storage ::
  "('st, 'stx) atomic_storage_ops \<Rightarrow> ('tx \<Rightarrow> (u64 \<times> u64) option) \<Rightarrow> ('tx l2_block \<Rightarrow> u64)
     \<Rightarrow> (u32 \<Rightarrow> (gp_error, gas_price_settings) result) \<Rightarrow> 'tx l2_data \<Rightarrow> (u32 \<Rightarrow> bool) \<Rightarrow> u32 \<Rightarrow> u32
     \<Rightarrow> updater_v1 \<times> 'st \<Rightarrow> (updater_v1 \<times> 'st) \<times> (service_error, unit) result" where
  "sync_gas_price_db_with_on_chain_storage ops as_mint encoded_len settings view stopping
       metadata_height latest_block_height s =
     sync_heights ops as_mint encoded_len settings view stopping
       (range_heights (saturating_add metadata_height 1, latest_block_height)) s"

text \<open>The state of an uninitialised task next to its collaborators, which are arguments.\<close>

(* src/crates/services/gas_price_service/src/v1/uninitialized_task.rs:97-109 UninitializedTask *)
record 'st uninitialized_task =
  ut_config :: v1_config
  ut_gas_metadata_height :: "u32 option"
  ut_genesis_block_height :: u32
  ut_gas_price_db :: 'st
  ut_shared_algo :: algorithm_v1
  ut_latest_gas_price :: "u32 \<times> u64"
  ut_algo_updater :: updater_v1

definition chain_height :: "'tx l2_data \<Rightarrow> u32 \<Rightarrow> u32" where
  "chain_height view genesis = (case latest_height view of Inl _ \<Rightarrow> genesis | Inr h \<Rightarrow> h)"

(* src/crates/services/gas_price_service/src/v1/uninitialized_task.rs:120-172 UninitializedTask::new *)
definition uninitialized_task_new ::
  "('st, 'stx) atomic_storage_ops \<Rightarrow> ('tx \<Rightarrow> (u64 \<times> u64) option) \<Rightarrow> 'tx l2_data \<Rightarrow> v1_config \<Rightarrow> u32 option
     \<Rightarrow> u32 \<Rightarrow> 'st \<Rightarrow> (service_error, 'st uninitialized_task) result" where
  "uninitialized_task_new ops as_mint view c gas_metadata_height genesis db =
     (let latest = chain_height view genesis;
          metadata_height = (case gas_metadata_height of None \<Rightarrow> latest | Some h \<Rightarrow> h)
      in case initialize_algorithm ops c metadata_height latest db of
           Inl e \<Rightarrow> Inl (StorageErr e)
         | Inr (u, algo) \<Rightarrow>
             (case get_block view latest of
                Inl e \<Rightarrow> Inl (OnChainErr e)
              | Inr mb \<Rightarrow>
                  (let price = (case mb of
                                  None \<Rightarrow> v1_calculate (v1_algorithm u)
                                | Some b \<Rightarrow>
                                    (case mint_values as_mint b of
                                       Inl _ \<Rightarrow> v1_calculate (v1_algorithm u)
                                     | Inr (_, gas_price) \<Rightarrow> gas_price))
                   in Inr \<lparr>ut_config = c, ut_gas_metadata_height = gas_metadata_height,
                           ut_genesis_block_height = genesis, ut_gas_price_db = db,
                           ut_shared_algo = algo, ut_latest_gas_price = (latest, price),
                           ut_algo_updater = u\<rparr>)))"

(* src/crates/services/gas_price_service/src/v1/uninitialized_task.rs:174-270 UninitializedTask::init *)
definition uninitialized_task_init ::
  "('st, 'stx) atomic_storage_ops \<Rightarrow> ('tx \<Rightarrow> (u64 \<times> u64) option) \<Rightarrow> ('tx l2_block \<Rightarrow> u64)
     \<Rightarrow> (u32 \<Rightarrow> (gp_error, gas_price_settings) result) \<Rightarrow> 'tx l2_data \<Rightarrow> (u32 \<Rightarrow> bool)
     \<Rightarrow> 'st uninitialized_task \<Rightarrow> (service_error, 'st gas_price_service) result" where
  "uninitialized_task_init ops as_mint encoded_len settings view stopping t =
     (let latest = chain_height view (ut_genesis_block_height t);
          metadata_height = (case ut_gas_metadata_height t of None \<Rightarrow> latest | Some h \<Rightarrow> h)
      in case get_recorded_height ops (ut_gas_price_db t) of
           Inl e \<Rightarrow> Inl (StorageErr e)
         | Inr recorded \<Rightarrow>
             (let starting = (case recorded of
                                Some h \<Rightarrow> h
                              | None \<Rightarrow> (case cfg_starting_recorded_height (ut_config t) of
                                           None \<Rightarrow> latest | Some h \<Rightarrow> h))
              in if latest = ut_genesis_block_height t
                 then Inr (service_new (ut_shared_algo t) (ut_latest_gas_price t) (ut_algo_updater t)
                             (ut_gas_price_db t) latest (Some starting))
                 else (case (if metadata_height < latest
                             then sync_gas_price_db_with_on_chain_storage ops as_mint encoded_len settings
                                    view stopping metadata_height latest (ut_algo_updater t, ut_gas_price_db t)
                             else ((ut_algo_updater t, ut_gas_price_db t), Inr ())) of
                         (_, Inl e) \<Rightarrow> Inl e
                       | ((u, st), Inr _) \<Rightarrow>
                           Inr (service_new (ut_shared_algo t) (latest, v1_calculate (v1_algorithm u)) u st
                                  latest (Some starting)))))"

section \<open>The DA costs source\<close>

(* src/crates/services/gas_price_service/src/v1/da_source_service/block_committer_costs.rs:36-49 RawDaBlockCosts *)
record raw_da_block_costs =
  raw_id :: u32
  raw_start_height :: u32
  raw_end_height :: u32
  raw_da_block_height :: u64
  raw_cost :: u128
  raw_size :: u32

(* src/crates/services/gas_price_service/src/v1/da_source_service/block_committer_costs.rs:51-69 impl From<&RawDaBlockCosts> for DaBlockCosts *)
definition da_block_costs_of_raw :: "raw_da_block_costs \<Rightarrow> da_block_costs" where
  "da_block_costs_of_raw r =
     \<lparr>bundle_id = raw_id r, l2_blocks = (raw_start_height r, raw_end_height r),
      bundle_size_bytes = raw_size r, blob_cost_wei = raw_cost r\<rparr>"

(* src/crates/services/gas_price_service/src/v1/da_source_service/block_committer_costs.rs:89-109 BlockCommitterDaBlockCosts::request_da_block_costs *)
definition request_da_block_costs ::
  "(u32 \<Rightarrow> (service_error, raw_da_block_costs list) result) \<Rightarrow> u32
     \<Rightarrow> (service_error, da_block_costs list) result" where
  "request_da_block_costs client last_recorded_height =
     (case checked_add last_recorded_height 1 of
        None \<Rightarrow> Inl RecordedHeightOverflow
      | Some next_height \<Rightarrow>
          (case client next_height of
             Inl e \<Rightarrow> Inl e
           | Inr raws \<Rightarrow> Inr (map da_block_costs_of_raw raws)))"

(* src/crates/services/gas_price_service/src/v1/da_source_service/service.rs:130-139 DaSourceService::filter_costs_that_have_values_greater_than_l2_block_height *)
definition filter_costs :: "u32 \<Rightarrow> da_block_costs list \<Rightarrow> da_block_costs list" where
  "filter_costs latest_l2_height costs = filter (\<lambda>c. snd (l2_blocks c) < latest_l2_height) costs"

(* src/crates/services/gas_price_service/src/v1/da_source_service/service.rs:119-127 DaSourceService::process_block_costs, loop *)
fun send_costs ::
  "(da_block_costs \<Rightarrow> bool) \<Rightarrow> da_block_costs list \<Rightarrow> u32 \<Rightarrow> da_block_costs list
     \<Rightarrow> (u32 \<times> da_block_costs list) \<times> (service_error, unit) result" where
  "send_costs has_receiver [] recorded sent = ((recorded, sent), Inr ())"
| "send_costs has_receiver (c # cs) recorded sent =
     (if has_receiver c
      then send_costs has_receiver cs (max recorded (snd (l2_blocks c))) (sent @ [c])
      else ((recorded, sent), Inl NoReceivers))"

(* src/crates/services/gas_price_service/src/v1/da_source_service/service.rs:106-128 DaSourceService::process_block_costs *)
definition process_block_costs ::
  "(u32 \<Rightarrow> (service_error, da_block_costs list) result) \<Rightarrow> (da_block_costs \<Rightarrow> bool) \<Rightarrow> u32 \<Rightarrow> u32
     \<Rightarrow> (u32 \<times> da_block_costs list) \<times> (service_error, unit) result" where
  "process_block_costs source has_receiver latest_l2_height recorded_height =
     (case source recorded_height of
        Inl e \<Rightarrow> ((recorded_height, []), Inl e)
      | Inr costs \<Rightarrow> send_costs has_receiver (filter_costs latest_l2_height costs) recorded_height [])"

section \<open>The V0 service\<close>

(* src/crates/services/gas_price_service/src/v0/service.rs:26-36 GasPriceServiceV0 *)
record 'st gas_price_service_v0 =
  s0_shared_algo :: algorithm_v0
  s0_metadata_storage :: 'st
  s0_algorithm_updater :: updater_v0

datatype service_v0_error = V0StorageErr gp_error | V0AlgorithmErr v0_error | V0ZeroBlockGasCapacity

(* src/crates/services/gas_price_service/src/v0/service.rs:76-81 GasPriceServiceV0::set_metadata *)
definition v0_set_metadata ::
  "(updater_metadata \<Rightarrow> 'st \<Rightarrow> 'st \<times> (gp_error, unit) result) \<Rightarrow> 'st gas_price_service_v0
     \<Rightarrow> 'st gas_price_service_v0 \<times> (service_v0_error, unit) result" where
  "v0_set_metadata set_md s =
     (case set_md (updater_metadata_of_v0 (s0_algorithm_updater s)) (s0_metadata_storage s) of
        (st', Inl e) \<Rightarrow> (s\<lparr>s0_metadata_storage := st'\<rparr>, Inl (V0StorageErr e))
      | (st', Inr _) \<Rightarrow> (s\<lparr>s0_metadata_storage := st'\<rparr>, Inr ()))"

(* src/crates/services/gas_price_service/src/v0/service.rs:83-96 GasPriceServiceV0::handle_normal_block *)
definition v0_handle_normal_block ::
  "(updater_metadata \<Rightarrow> 'st \<Rightarrow> 'st \<times> (gp_error, unit) result) \<Rightarrow> u32 \<Rightarrow> u64 \<Rightarrow> u64
     \<Rightarrow> 'st gas_price_service_v0 \<Rightarrow> 'st gas_price_service_v0 \<times> (service_v0_error, unit) result" where
  "v0_handle_normal_block set_md height gas_used capacity s =
     (if capacity = 0 then (s, Inl V0ZeroBlockGasCapacity)
      else case v0_update_l2_block_data (s0_algorithm_updater s) height gas_used capacity of
             (u, Inl e) \<Rightarrow> (s\<lparr>s0_algorithm_updater := u\<rparr>, Inl (V0AlgorithmErr e))
           | (u, Inr _) \<Rightarrow> v0_set_metadata set_md (s\<lparr>s0_algorithm_updater := u\<rparr>))"

(* src/crates/services/gas_price_service/src/v0/service.rs:98-119 GasPriceServiceV0::apply_block_info_to_gas_algorithm *)
definition v0_apply_block_info ::
  "(updater_metadata \<Rightarrow> 'st \<Rightarrow> 'st \<times> (gp_error, unit) result) \<Rightarrow> block_info
     \<Rightarrow> 'st gas_price_service_v0 \<Rightarrow> 'st gas_price_service_v0 \<times> (service_v0_error, unit) result" where
  "v0_apply_block_info set_md block s =
     (case (case block of
              GenesisBlock \<Rightarrow> v0_set_metadata set_md s
            | Block height gas_used cap bytes fees price \<Rightarrow> v0_handle_normal_block set_md height gas_used cap s) of
        (s', Inl e) \<Rightarrow> (s', Inl e)
      | (s', Inr _) \<Rightarrow> (s'\<lparr>s0_shared_algo := v0_algorithm (s0_algorithm_updater s')\<rparr>, Inr ()))"

section \<open>What no update touches\<close>

definition static_part ::
  "updater_v1 \<Rightarrow> (u64 \<times> u16 \<times> clamped_percentage \<times> u64) \<times> (u64 \<times> u64 \<times> u16) \<times> i64 \<times> i64" where
  "static_part u =
     ((min_exec_gas_price u, exec_gas_price_change_percent u, l2_block_fullness_threshold_percent u,
       gas_price_factor u),
      (min_da_gas_price u, max_da_gas_price u, max_da_gas_price_change_percent u),
      da_p_component u, da_d_component u)"

lemma static_part_steps [simp]:
  "static_part (update_da_gas_price u) = static_part u"
  "static_part (recalculate_projected_cost u) = static_part u"
  "static_part (update_da_rewards u fee) = static_part u"
  "static_part (update_projected_da_cost u b) = static_part u"
  "static_part (update_last_profit u p) = static_part u"
  "static_part (update_activity u used cap) = static_part u"
  "static_part (update_exec_gas_price u used cap) = static_part u"
  "static_part (u\<lparr>unrecorded_blocks_bytes := ub\<rparr>) = static_part u"
  "static_part (u\<lparr>latest_known_total_da_cost := c\<rparr>) = static_part u"
  "static_part (u\<lparr>latest_da_cost_per_byte := c\<rparr>) = static_part u"
  "static_part (u\<lparr>l2_block_height := h\<rparr>) = static_part u"
  by (simp_all add: static_part_def update_da_gas_price_def recalculate_projected_cost_def
      update_da_rewards_def update_projected_da_cost_def update_last_profit_def update_activity_def
      update_exec_gas_price_def Let_def)

lemma update_l2_block_data_static:
  "update_l2_block_data ops h used cap bytes fee (u, ub) = ((u', ub'), r) \<Longrightarrow> static_part u' = static_part u"
  by (auto simp: update_l2_block_data_def Let_def split: if_splits prod.splits sum.splits)

lemma da_block_update_static:
  "da_block_update ops hs rb rc (u, ub) = ((u', ub'), r) \<Longrightarrow> static_part u' = static_part u"
  by (auto simp: da_block_update_def update_unrecorded_block_bytes_def Let_def
      split: prod.splits sum.splits option.splits)

lemma update_da_record_data_static:
  "update_da_record_data ops hs rb rc (u, ub) = ((u', ub'), r) \<Longrightarrow> static_part u' = static_part u"
  by (auto simp: update_da_record_data_def dest: da_block_update_static
      split: if_splits prod.splits sum.splits)

section \<open>The price range of a configuration\<close>

definition price_ok :: "v1_config \<Rightarrow> updater_v1 \<Rightarrow> bool" where
  "price_ok c u \<longleftrightarrow> da_price_in_bounds u \<and> static_part u = static_part (updater_from_config c 0)"

lemma static_updater_from_config: "static_part (updater_from_config c h) = static_part (updater_from_config c 0)"
  by (simp add: static_part_def updater_from_config_def)

lemma price_ok_updater_from_config: "price_ok c (updater_from_config c h)"
  unfolding price_ok_def
  by (rule conjI [OF _ static_updater_from_config]) (simp add: da_price_in_bounds_def
      updater_from_config_def min_scaled_da_gas_price_def max_scaled_da_gas_price_def saturating_mul_mono)

lemma price_ok_l2:
  "price_ok c u \<Longrightarrow> update_l2_block_data ops h used cap bytes fee (u, ub) = ((u', ub'), r) \<Longrightarrow> price_ok c u'"
  using update_l2_block_data_in_bounds [of u ops h used cap bytes fee ub]
  by (auto simp: price_ok_def dest: update_l2_block_data_static)

lemma price_ok_da:
  "price_ok c u \<Longrightarrow> update_da_record_data ops hs rb rc (u, ub) = ((u', ub'), r) \<Longrightarrow> price_ok c u'"
  using update_da_record_data_in_bounds [of u ops hs rb rc ub]
  by (auto simp: price_ok_def dest: update_da_record_data_static)

lemma price_ok_da_costs:
  "price_ok c u \<Longrightarrow> apply_da_costs ops cs (u, ub) n = ((u', ub'), r) \<Longrightarrow> price_ok c u'"
  by (induction cs arbitrary: u ub n) (auto split: prod.splits sum.splits dest: price_ok_da)

definition service_price_ok :: "v1_config \<Rightarrow> 'st gas_price_service \<Rightarrow> bool" where
  "service_price_ok c s \<longleftrightarrow>
     price_ok c (algorithm_updater s) \<and> (\<exists>u. price_ok c u \<and> shared_algo s = v1_algorithm u)"

text \<open>How the transaction of a block can end: failing before or in one of the two updates, or with
  everything committed.\<close>

lemma block_transaction_outcome:
  assumes "block_transaction ops h used cap bytes fees tx0 n s = (s', r)"
  obtains (da) e u1 tx1 r1 where "r = Inl e"
      "apply_da_costs (as_unrecorded_blocks ops) (da_block_costs_buffer s) (algorithm_updater s, tx0) n = ((u1, tx1), r1)"
      "algorithm_updater s' = u1"
      "shared_algo s' = shared_algo s" "da_block_costs_buffer s' = da_block_costs_buffer s"
      "storage_tx_provider s' = storage_tx_provider s"
  | (l2) e u1 tx1 n' tx2 u2 tx3 r2 where "r = Inl e"
      "apply_da_costs (as_unrecorded_blocks ops) (da_block_costs_buffer s) (algorithm_updater s, tx0) n = ((u1, tx1), Inr n')"
      "update_l2_block_data (as_unrecorded_blocks ops) h used cap bytes (live_fee_wei fees) (u1, tx2) = ((u2, tx3), r2)"
      "algorithm_updater s' = u2"
      "shared_algo s' = shared_algo s" "da_block_costs_buffer s' = da_block_costs_buffer s"
      "storage_tx_provider s' = storage_tx_provider s \<or>
         (\<exists>tx4 e'. commit_transaction ops tx4 (storage_tx_provider s) = (storage_tx_provider s', Inl e'))"
  | (ok) u1 tx1 n' tx2 u2 tx3 tx4 where "r = Inr ()"
      "apply_da_costs (as_unrecorded_blocks ops) (da_block_costs_buffer s) (algorithm_updater s, tx0) n = ((u1, tx1), Inr n')"
      "set_recorded_opt ops n' tx1 = (tx2, Inr ())"
      "update_l2_block_data (as_unrecorded_blocks ops) h used cap bytes (live_fee_wei fees) (u1, tx2) = ((u2, tx3), Inr ())"
      "tx_set_metadata ops (updater_metadata_of_v1 u2) tx3 = (tx4, Inr ())"
      "commit_transaction ops tx4 (storage_tx_provider s) = (storage_tx_provider s', Inr ())"
      "algorithm_updater s' = u2" "shared_algo s' = v1_algorithm u2" "da_block_costs_buffer s' = []"
proof -
  note eq = assms [unfolded block_transaction_def]
  obtain u1 tx1 r1 where costs: "apply_da_costs (as_unrecorded_blocks ops) (da_block_costs_buffer s)
      (algorithm_updater s, tx0) n = ((u1, tx1), r1)"
    by (metis surj_pair)
  show ?thesis
  proof (cases r1)
    case (Inl e)
    show ?thesis by (rule da [OF _ costs]) (use eq costs Inl in auto)
  next
    case r1: (Inr n')
    obtain tx2 r2 where rec: "set_recorded_opt ops n' tx1 = (tx2, r2)" by fastforce
    show ?thesis
    proof (cases r2)
      case (Inl e)
      show ?thesis by (rule da [OF _ costs]) (use eq costs r1 rec Inl in auto)
    next
      case r2: (Inr _)
      obtain u2 tx3 r3 where l2u: "update_l2_block_data (as_unrecorded_blocks ops) h used cap bytes
          (live_fee_wei fees) (u1, tx2) = ((u2, tx3), r3)"
        by (metis surj_pair)
      obtain tx4 r4 where md: "tx_set_metadata ops (updater_metadata_of_v1 u2) tx3 = (tx4, r4)" by fastforce
      obtain st' r5 where cm: "commit_transaction ops tx4 (storage_tx_provider s) = (st', r5)" by fastforce
      note eqs = eq [unfolded costs rec r1 r2 l2u md cm prod.case sum.case]
      show ?thesis
      proof (cases "(\<exists>x. r3 = Inr x) \<and> (\<exists>x. r4 = Inr x) \<and> (\<exists>x. r5 = Inr x)")
        case True
        show ?thesis
          by (rule ok [OF _ costs [unfolded r1]]) (use eqs rec r2 l2u md cm True in auto)
      next
        case False
        then have "\<exists>e. r = Inl e \<and> algorithm_updater s' = u2 \<and> shared_algo s' = shared_algo s \<and>
            da_block_costs_buffer s' = da_block_costs_buffer s \<and>
            (storage_tx_provider s' = storage_tx_provider s \<or>
             commit_transaction ops tx4 (storage_tx_provider s) = (storage_tx_provider s', r5) \<and> (\<exists>e'. r5 = Inl e'))"
          using eqs cm by (cases r3; cases r4; cases r5) auto
        then show ?thesis
          using l2 [OF _ costs [unfolded r1] l2u] by blast
      qed
    qed
  qed
qed

lemma handle_normal_block_outcome:
  assumes "handle_normal_block ops h used cap bytes fees s = (s', r)"
  obtains (untouched) e where "s' = s" "r = Inl e"
  | (begun) tx0 n old s1 where "cap \<noteq> 0" "begin_transaction ops (storage_tx_provider s) = Inr tx0"
      "tx_get_recorded_height ops tx0 = Inr old" "n = (case old of Some _ \<Rightarrow> None | None \<Rightarrow> initial_recorded_height s)"
      "s1 = (case old of Some _ \<Rightarrow> s | None \<Rightarrow> s\<lparr>initial_recorded_height := None\<rparr>)"
      "block_transaction ops h used cap bytes fees tx0 n s1 = (s', r)"
proof -
  consider (a) "\<exists>e. s' = s \<and> r = Inl e"
    | (b) tx0 old where "cap \<noteq> 0" "begin_transaction ops (storage_tx_provider s) = Inr tx0"
        "tx_get_recorded_height ops tx0 = Inr old"
    using assms by (auto simp: handle_normal_block_def validate_block_gas_capacity_def
        split: sum.splits if_splits)
  then show ?thesis
  proof cases
    case a
    with untouched show ?thesis by blast
  next
    case (b tx0 old)
    show ?thesis
      by (rule begun [OF b refl refl]) (use assms b in \<open>auto simp: handle_normal_block_def
          validate_block_gas_capacity_def split: option.splits\<close>)
  qed
qed

lemma block_transaction_price_ok:
  assumes "service_price_ok c s" "block_transaction ops h used cap bytes fees tx0 n s = (s', r)"
  shows "service_price_ok c s'"
  using assms(2)
proof (cases rule: block_transaction_outcome)
  case (da e u1 tx1 r1)
  with assms(1) show ?thesis by (auto simp: service_price_ok_def dest: price_ok_da_costs)
next
  case (l2 e u1 tx1 n' tx2 u2 tx3 r2)
  with assms(1) price_ok_da_costs [OF _ l2(2)] price_ok_l2 [OF _ l2(3)] show ?thesis
    by (auto simp: service_price_ok_def)
next
  case (ok u1 tx1 n' tx2 u2 tx3 tx4)
  with assms(1) price_ok_da_costs [OF _ ok(2)] price_ok_l2 [OF _ ok(4)] show ?thesis
    by (auto simp: service_price_ok_def)
qed

lemma handle_normal_block_price_ok:
  assumes "service_price_ok c s" "handle_normal_block ops h used cap bytes fees s = (s', r)"
  shows "service_price_ok c s'"
  using assms(2)
proof (cases rule: handle_normal_block_outcome)
  case (begun tx0 n old s1)
  then have "service_price_ok c s1" using assms(1) by (simp add: service_price_ok_def split: option.split)
  then show ?thesis using begun(6) by (rule block_transaction_price_ok)
qed (use assms(1) in simp)

lemma apply_block_info_price_ok:
  assumes "service_price_ok c s" "apply_block_info_to_gas_algorithm ops b s = (s', r)"
  shows "service_price_ok c s'"
proof (cases b)
  case GenesisBlock
  with assms show ?thesis
    by (auto simp: service_price_ok_def split: sum.splits prod.splits)
next
  case Block
  with assms show ?thesis by (auto intro: handle_normal_block_price_ok)
qed

lemma service_price_ok_frame [simp]:
  "service_price_ok c (update_latest_gas_price s b) = service_price_ok c s"
  "service_price_ok c (notify_da_source_service_l2_block s b) = service_price_ok c s"
  "service_price_ok c (s\<lparr>da_block_costs_buffer := cs\<rparr>) = service_price_ok c s"
  by (cases b; simp add: service_price_ok_def)+

lemma service_run_price_ok:
  "service_price_ok c s \<Longrightarrow> service_price_ok c (fst (service_run ops s e))"
proof (cases e)
  case (L2_result res)
  assume s: "service_price_ok c s"
  show ?thesis
    using s apply_block_info_price_ok [of c "update_latest_gas_price s _" ops]
    by (cases res) (auto simp: L2_result commit_block_data_to_algorithm_def split: prod.split sum.split)
next
  case (Da_costs res)
  assume "service_price_ok c s"
  then show ?thesis by (cases res) (simp_all add: Da_costs)
qed

definition service_runs :: "('st, 'tx) atomic_storage_ops \<Rightarrow> 'st gas_price_service \<Rightarrow> service_event list \<Rightarrow> 'st gas_price_service" where
  "service_runs ops s es = foldl (\<lambda>s e. fst (service_run ops s e)) s es"

lemma service_runs_simps [simp]:
  "service_runs ops s [] = s"
  "service_runs ops s (e # es) = service_runs ops (fst (service_run ops s e)) es"
  by (simp_all add: service_runs_def)

lemma service_runs_price_ok: "service_price_ok c s \<Longrightarrow> service_price_ok c (service_runs ops s es)"
  by (induction es arbitrary: s) (simp_all add: service_run_price_ok)

lemma unat_sat_mul_div_le: "unat (saturating_mul a f div f :: u64) \<le> unat a"
proof -
  have "min (unat a * unat f) (2 ^ 64 - 1) div unat f \<le> unat a * unat f div unat f"
    by (intro div_le_mono) simp
  also have "\<dots> \<le> unat a" by (cases "unat f = 0") simp_all
  finally show ?thesis by (simp add: unat_div rust_arith)
qed

lemma word_div_mono: "(a :: u64) \<le> b \<Longrightarrow> a div c \<le> b div c"
  by (simp add: word_le_nat_alt unat_div div_le_mono)

lemma sat_mul_div_exact:
  "(f :: u64) \<noteq> 0 \<Longrightarrow> unat a * unat f < 2 ^ 64 \<Longrightarrow> saturating_mul a f div f = a"
  by (rule word_unat_eq_iff [THEN iffD2]) (simp add: unat_div rust_arith unat_eq_0 [symmetric] del: unat_eq_0)

lemma price_ok_range:
  assumes "price_ok c u"
  shows "descaled_da_price u \<le> max (cfg_max_da_gas_price c) (cfg_min_da_gas_price c)"
    and "cfg_gas_price_factor c \<noteq> 0 \<Longrightarrow> unat (cfg_min_da_gas_price c) * unat (cfg_gas_price_factor c) < 2 ^ 64 \<Longrightarrow>
           cfg_min_da_gas_price c \<le> descaled_da_price u"
proof -
  let ?f = "cfg_gas_price_factor c"
  have f: "gas_price_factor u = ?f" and lo: "saturating_mul (cfg_min_da_gas_price c) ?f \<le> new_scaled_da_gas_price u"
    and hi: "new_scaled_da_gas_price u \<le> saturating_mul (max (cfg_max_da_gas_price c) (cfg_min_da_gas_price c)) ?f"
    using assms by (auto simp: price_ok_def da_price_in_bounds_def static_part_def updater_from_config_def
        min_scaled_da_gas_price_def max_scaled_da_gas_price_def)
  show "descaled_da_price u \<le> max (cfg_max_da_gas_price c) (cfg_min_da_gas_price c)"
    unfolding descaled_da_price_def f
    by (rule order_trans [OF word_div_mono [OF hi]]) (simp only: word_le_nat_alt unat_sat_mul_div_le)
  show "?f \<noteq> 0 \<Longrightarrow> unat (cfg_min_da_gas_price c) * unat ?f < 2 ^ 64 \<Longrightarrow> cfg_min_da_gas_price c \<le> descaled_da_price u"
    unfolding descaled_da_price_def f using word_div_mono [OF lo, of ?f] by (simp add: sat_mul_div_exact)
qed

section \<open>The storage interface\<close>

text \<open>What a storage promises, in terms of the tables it holds: a transaction starts from the
  committed tables, its operations change only what they name, a commit installs them and a failed
  commit leaves the committed tables alone.\<close>

locale atomic_storage =
  fixes ops :: "('st, 'tx) atomic_storage_ops"
    and stored :: "'st \<Rightarrow> gp_tables"
    and pending :: "'tx \<Rightarrow> gp_tables"
  assumes begin_ok: "begin_transaction ops st = Inr tx \<Longrightarrow> pending tx = stored st"
    and commit_ok: "commit_transaction ops tx st = (st', Inr x) \<Longrightarrow> stored st' = pending tx"
    and commit_err: "commit_transaction ops tx st = (st', Inl e) \<Longrightarrow> stored st' = stored st"
    and get_metadata_ok: "get_metadata ops h st = Inr found \<Longrightarrow> found = tbl_metadata (stored st) h"
    and tx_get_recorded_ok: "tx_get_recorded_height ops tx = Inr rec \<Longrightarrow> rec = tbl_recorded_height (pending tx)"
    and set_recorded_ok: "tx_set_recorded_height ops h tx = (tx', Inr x) \<Longrightarrow>
          pending tx' = (pending tx)\<lparr>tbl_recorded_height := Some h\<rparr>"
    and set_metadata_ok: "tx_set_metadata ops m tx = (tx', Inr x) \<Longrightarrow>
          pending tx' = (pending tx)\<lparr>tbl_metadata := (tbl_metadata (pending tx))(metadata_l2_block_height m \<mapsto> m)\<rparr>"
    and ub_insert_ok: "ub_insert (as_unrecorded_blocks ops) h b tx = (tx', Inr x) \<Longrightarrow>
          pending tx' = (pending tx)\<lparr>tbl_unrecorded := (tbl_unrecorded (pending tx))(h \<mapsto> b)\<rparr>"
    and ub_insert_err: "ub_insert (as_unrecorded_blocks ops) h b tx = (tx', Inl msg) \<Longrightarrow> pending tx' = pending tx"
    and ub_remove_ok: "ub_remove (as_unrecorded_blocks ops) h tx = (tx', Inr taken) \<Longrightarrow>
          taken = tbl_unrecorded (pending tx) h \<and>
          pending tx' = (pending tx)\<lparr>tbl_unrecorded := (tbl_unrecorded (pending tx))(h := None)\<rparr>"

sublocale atomic_storage \<subseteq> ub: unrecorded_blocks "as_unrecorded_blocks ops" "\<lambda>tx. tbl_unrecorded (pending tx)"
  by unfold_locales (auto dest: ub_insert_ok ub_insert_err ub_remove_ok)

definition keeps_others :: "gp_tables \<Rightarrow> gp_tables \<Rightarrow> bool" where
  "keeps_others t t' \<longleftrightarrow> tbl_metadata t' = tbl_metadata t \<and> tbl_recorded_height t' = tbl_recorded_height t"

lemma keeps_others_refl [simp]: "keeps_others t t"
  by (simp add: keeps_others_def)

lemma update_l2_block_data_height:
  "update_l2_block_data ops h used cap bytes fee (u, ub) = ((u', ub'), Inr x) \<Longrightarrow> l2_block_height u' = h"
  by (auto simp: update_l2_block_data_def Let_def split: if_splits prod.splits sum.splits)

lemma metadata_height_of_v1 [simp]: "metadata_l2_block_height (updater_metadata_of_v1 u) = l2_block_height u"
  by (simp add: updater_metadata_of_v1_def v1_metadata_of_def)

context atomic_storage
begin

lemma remove_recorded_keeps:
  "remove_recorded (as_unrecorded_blocks ops) hs acc tx = (tx', Inr n) \<Longrightarrow> keeps_others (pending tx) (pending tx')"
  by (induction hs arbitrary: acc tx)
     (fastforce simp: keeps_others_def split: prod.splits sum.splits option.splits dest: ub_remove_ok)+

lemma da_block_update_keeps:
  "da_block_update (as_unrecorded_blocks ops) hs rb rc (u, tx) = ((u', tx'), Inr x) \<Longrightarrow>
     keeps_others (pending tx) (pending tx')"
  by (auto simp: da_block_update_def update_unrecorded_block_bytes_def Let_def dest: remove_recorded_keeps
      split: prod.splits sum.splits option.splits)

lemma update_da_record_data_keeps:
  "update_da_record_data (as_unrecorded_blocks ops) hs rb rc (u, tx) = ((u', tx'), Inr x) \<Longrightarrow>
     keeps_others (pending tx) (pending tx')"
  by (auto simp: update_da_record_data_def dest: da_block_update_keeps
      split: if_splits prod.splits sum.splits)

lemma apply_da_costs_keeps:
  "apply_da_costs (as_unrecorded_blocks ops) cs (u, tx) n = ((u', tx'), Inr n') \<Longrightarrow>
     keeps_others (pending tx) (pending tx') \<and> n' = (if cs = [] then n else Some (snd (l2_blocks (last cs))))"
proof (induction cs arbitrary: u tx n)
  case Nil
  then show ?case by (simp add: keeps_others_def)
next
  case (Cons c cs)
  then obtain u1 tx1 x where 1: "update_da_record_data (as_unrecorded_blocks ops) (l2_blocks c)
        (bundle_size_bytes c) (blob_cost_wei c) (u, tx) = ((u1, tx1), Inr x)"
    and 2: "apply_da_costs (as_unrecorded_blocks ops) cs (u1, tx1) (Some (snd (l2_blocks c))) = ((u', tx'), Inr n')"
    by (auto split: prod.splits sum.splits)
  from Cons.IH [OF 2] update_da_record_data_keeps [OF 1] show ?case
    by (auto simp: keeps_others_def)
qed

lemma update_l2_block_data_keeps:
  "update_l2_block_data (as_unrecorded_blocks ops) h used cap bytes fee (u, tx) = ((u', tx'), Inr x) \<Longrightarrow>
     keeps_others (pending tx) (pending tx')"
  by (auto simp: update_l2_block_data_def Let_def keeps_others_def dest: ub_insert_ok
      split: if_splits prod.splits sum.splits)

lemma handle_normal_block_err:
  assumes "handle_normal_block ops h used cap bytes fees s = (s', Inl e)"
  shows "stored (storage_tx_provider s') = stored (storage_tx_provider s)"
    "shared_algo s' = shared_algo s" "da_block_costs_buffer s' = da_block_costs_buffer s"
proof -
  have "stored (storage_tx_provider s') = stored (storage_tx_provider s) \<and>
    shared_algo s' = shared_algo s \<and> da_block_costs_buffer s' = da_block_costs_buffer s"
    using assms
  proof (cases rule: handle_normal_block_outcome)
    case (begun tx0 n old s1)
    then have s1: "storage_tx_provider s1 = storage_tx_provider s" "shared_algo s1 = shared_algo s"
      "da_block_costs_buffer s1 = da_block_costs_buffer s"
      by (simp_all split: option.split)
    show ?thesis
      using begun(6) by (cases rule: block_transaction_outcome) (auto simp: s1 dest: commit_err)
  qed simp
  then show "stored (storage_tx_provider s') = stored (storage_tx_provider s)"
    "shared_algo s' = shared_algo s" "da_block_costs_buffer s' = da_block_costs_buffer s" by simp_all
qed

lemma handle_normal_block_committed:
  assumes "handle_normal_block ops h used cap bytes fees s = (s', Inr x)"
  shows "tbl_metadata (stored (storage_tx_provider s')) =
           (tbl_metadata (stored (storage_tx_provider s)))(h \<mapsto> updater_metadata_of_v1 (algorithm_updater s'))"
    and "tbl_recorded_height (stored (storage_tx_provider s')) =
           (if da_block_costs_buffer s \<noteq> [] then Some (snd (l2_blocks (last (da_block_costs_buffer s))))
            else case tbl_recorded_height (stored (storage_tx_provider s)) of
                   Some r \<Rightarrow> Some r | None \<Rightarrow> initial_recorded_height s)"
    and "l2_block_height (algorithm_updater s') = h"
    and "shared_algo s' = v1_algorithm (algorithm_updater s')" "da_block_costs_buffer s' = []"
proof -
  obtain tx0 n old s1 where b: "begin_transaction ops (storage_tx_provider s) = Inr tx0"
      "tx_get_recorded_height ops tx0 = Inr old" "n = (case old of Some _ \<Rightarrow> None | None \<Rightarrow> initial_recorded_height s)"
      "s1 = (case old of Some _ \<Rightarrow> s | None \<Rightarrow> s\<lparr>initial_recorded_height := None\<rparr>)"
      "block_transaction ops h used cap bytes fees tx0 n s1 = (s', Inr x)"
    using assms by (cases rule: handle_normal_block_outcome) auto
  then have s1: "storage_tx_provider s1 = storage_tx_provider s" "da_block_costs_buffer s1 = da_block_costs_buffer s"
    by (simp_all split: option.split)
  note t0 = begin_ok [OF b(1)] tx_get_recorded_ok [OF b(2)]
  obtain u1 tx1 n' tx2 u2 tx3 tx4 where c:
      "apply_da_costs (as_unrecorded_blocks ops) (da_block_costs_buffer s) (algorithm_updater s1, tx0) n = ((u1, tx1), Inr n')"
      "set_recorded_opt ops n' tx1 = (tx2, Inr ())"
      "update_l2_block_data (as_unrecorded_blocks ops) h used cap bytes (live_fee_wei fees) (u1, tx2) = ((u2, tx3), Inr ())"
      "tx_set_metadata ops (updater_metadata_of_v1 u2) tx3 = (tx4, Inr ())"
      "commit_transaction ops tx4 (storage_tx_provider s) = (storage_tx_provider s', Inr ())"
      and s': "algorithm_updater s' = u2" "shared_algo s' = v1_algorithm u2" "da_block_costs_buffer s' = []"
    using b(5) by (cases rule: block_transaction_outcome) (auto simp: s1)
  show "l2_block_height (algorithm_updater s') = h"
    using update_l2_block_data_height [OF c(3)] by (simp add: s')
  have "pending tx2 = (pending tx1)\<lparr>tbl_recorded_height := (case n' of None \<Rightarrow> tbl_recorded_height (pending tx1) | Some r \<Rightarrow> Some r)\<rparr>"
    using c(2) by (cases n') (auto simp: set_recorded_opt_def dest: set_recorded_ok)
  with commit_ok [OF c(5)] set_metadata_ok [OF c(4)] apply_da_costs_keeps [OF c(1)]
    update_l2_block_data_keeps [OF c(3)] update_l2_block_data_height [OF c(3)] t0
  show "tbl_metadata (stored (storage_tx_provider s')) =
           (tbl_metadata (stored (storage_tx_provider s)))(h \<mapsto> updater_metadata_of_v1 (algorithm_updater s'))"
    and "tbl_recorded_height (stored (storage_tx_provider s')) =
           (if da_block_costs_buffer s \<noteq> [] then Some (snd (l2_blocks (last (da_block_costs_buffer s))))
            else case tbl_recorded_height (stored (storage_tx_provider s)) of
                   Some r \<Rightarrow> Some r | None \<Rightarrow> initial_recorded_height s)"
    by (auto simp: s' keeps_others_def b(3) split: option.split)
  show "shared_algo s' = v1_algorithm (algorithm_updater s')" "da_block_costs_buffer s' = []"
    by (simp_all add: s')
qed
end

interpretation fuel: atomic_storage "fuel_storage fault" id id for fault
  by unfold_locales
     (auto simp: fuel_storage_def fuel_storage_unrecorded_blocks_def Let_def split: option.splits)

section \<open>Restart\<close>

definition projected_consistent :: "updater_v1 \<Rightarrow> bool" where
  "projected_consistent u \<longleftrightarrow>
     projected_total_da_cost u =
       saturating_add (latest_known_total_da_cost u)
         (saturating_mul (unrecorded_blocks_bytes u) (latest_da_cost_per_byte u))"

lemma saturated_projection:
  fixes k ur b c M :: nat
  shows "min (min (k + min (ur * c) M) M + min (b * c) M) M = min (k + min (min (ur + b) M * c) M) M"
proof (cases "c = 0 \<or> ur + b \<le> M")
  case True
  then show ?thesis by (auto simp: distrib_right min_def)
next
  case False
  then have c: "1 \<le> c" and gt: "M < ur + b" by auto
  have "ur \<le> ur * c" "b \<le> b * c" "M \<le> M * c" using c by simp_all
  with gt have "min (min (k + min (ur * c) M) M + min (b * c) M) M = M"
    and "min (k + min (M * c) M) M = M" by linarith+
  with gt show ?thesis by (simp add: min_def)
qed

lemma projected_frame [simp]:
  "latest_known_total_da_cost (update_da_gas_price u) = latest_known_total_da_cost u"
  "latest_known_total_da_cost (update_exec_gas_price u used cap) = latest_known_total_da_cost u"
  "latest_known_total_da_cost (update_activity u used cap) = latest_known_total_da_cost u"
  "latest_known_total_da_cost (update_last_profit u p) = latest_known_total_da_cost u"
  "latest_known_total_da_cost (update_projected_da_cost u bytes) = latest_known_total_da_cost u"
  "latest_known_total_da_cost (update_da_rewards u fee) = latest_known_total_da_cost u"
  "latest_da_cost_per_byte (update_da_gas_price u) = latest_da_cost_per_byte u"
  "latest_da_cost_per_byte (update_exec_gas_price u used cap) = latest_da_cost_per_byte u"
  "latest_da_cost_per_byte (update_activity u used cap) = latest_da_cost_per_byte u"
  "latest_da_cost_per_byte (update_last_profit u p) = latest_da_cost_per_byte u"
  "latest_da_cost_per_byte (update_projected_da_cost u bytes) = latest_da_cost_per_byte u"
  "latest_da_cost_per_byte (update_da_rewards u fee) = latest_da_cost_per_byte u"
  "projected_total_da_cost (update_da_gas_price u) = projected_total_da_cost u"
  "projected_total_da_cost (update_exec_gas_price u used cap) = projected_total_da_cost u"
  "projected_total_da_cost (update_activity u used cap) = projected_total_da_cost u"
  "projected_total_da_cost (update_last_profit u p) = projected_total_da_cost u"
  "projected_total_da_cost (update_da_rewards u fee) = projected_total_da_cost u"
  "projected_total_da_cost (update_projected_da_cost u bytes) =
     saturating_add (projected_total_da_cost u) (saturating_mul (ucast bytes) (latest_da_cost_per_byte u))"
  by (simp_all add: update_da_gas_price_def update_da_rewards_def
      update_projected_da_cost_def update_last_profit_def update_activity_def update_exec_gas_price_def Let_def)

lemma projected_consistent_l2:
  assumes "projected_consistent u"
    "update_l2_block_data ops h used cap bytes fee (u, ub) = ((u', ub'), Inr x)"
  shows "projected_consistent u'"
proof -
  have "projected_total_da_cost u' =
          saturating_add (projected_total_da_cost u) (saturating_mul (ucast bytes) (latest_da_cost_per_byte u))"
    "latest_known_total_da_cost u' = latest_known_total_da_cost u"
    "latest_da_cost_per_byte u' = latest_da_cost_per_byte u"
    "unrecorded_blocks_bytes u' = saturating_add (unrecorded_blocks_bytes u) (ucast bytes)"
    using assms(2) by (auto simp: update_l2_block_data_def Let_def split: if_splits prod.splits sum.splits)
  then show ?thesis
    using assms(1) unfolding projected_consistent_def word_unat_eq_iff
    by (simp only: unat_saturating_add unat_saturating_mul saturated_projection)
qed

lemma projected_consistent_da:
  assumes "projected_consistent u"
    "update_da_record_data ops hs rb rc (u, ub) = ((u', ub'), Inr x)"
  shows "projected_consistent u'"
proof (cases "fst hs \<le> snd hs")
  case True
  then obtain u1 where "u' = update_da_gas_price (recalculate_projected_cost u1)"
    using assms(2) by (auto simp: update_da_record_data_def split: prod.splits sum.splits)
  then show ?thesis by (simp add: projected_consistent_def recalculate_projected_cost_def Let_def)
next
  case False
  with assms show ?thesis by (simp add: update_da_record_data_def)
qed

definition restart_inv :: "v1_config \<Rightarrow> updater_v1 \<Rightarrow> bool" where
  "restart_inv c u \<longleftrightarrow> projected_consistent u \<and> static_part u = static_part (updater_from_config c 0)"

lemma restart_inv_updater_from_config: "restart_inv c (updater_from_config c h)"
  unfolding restart_inv_def
  by (rule conjI [OF _ static_updater_from_config]) (simp add: projected_consistent_def updater_from_config_def rust_eval)

lemma restart_inv_l2:
  "restart_inv c u \<Longrightarrow> update_l2_block_data ops h used cap bytes fee (u, ub) = ((u', ub'), Inr x) \<Longrightarrow> restart_inv c u'"
  by (auto simp: restart_inv_def dest: projected_consistent_l2 update_l2_block_data_static)

lemma restart_inv_da_costs:
  "restart_inv c u \<Longrightarrow> apply_da_costs ops cs (u, ub) n = ((u', ub'), Inr n') \<Longrightarrow> restart_inv c u'"
proof (induction cs arbitrary: u ub n)
  case (Cons d cs)
  then obtain u1 ub1 x where 1: "update_da_record_data ops (l2_blocks d) (bundle_size_bytes d) (blob_cost_wei d) (u, ub)
        = ((u1, ub1), Inr x)"
    and 2: "apply_da_costs ops cs (u1, ub1) (Some (snd (l2_blocks d))) = ((u', ub'), Inr n')"
    by (auto split: prod.splits sum.splits)
  have "restart_inv c u1"
    using Cons.prems(1) projected_consistent_da [OF _ 1] update_da_record_data_static [OF 1]
    by (auto simp: restart_inv_def)
  then show ?case using 2 by (rule Cons.IH)
qed simp

lemma restored_updater:
  "restart_inv c u \<Longrightarrow>
     v1_algorithm_from_metadata (v1_metadata_of u) c = u\<lparr>l2_activity := config_tracker c\<rparr>"
  unfolding restart_inv_def
  by (elim conjE, rule updater_v1.equality)
     (simp_all add: projected_consistent_def static_part_def updater_from_config_def
      v1_algorithm_from_metadata_def v1_metadata_of_def Let_def)

lemma handle_normal_block_restart_inv:
  assumes "restart_inv c (algorithm_updater s)" "handle_normal_block ops h used cap bytes fees s = (s', Inr x)"
  shows "restart_inv c (algorithm_updater s')"
  using assms(2)
proof (cases rule: handle_normal_block_outcome)
  case (begun tx0 n old s1)
  then have s1: "algorithm_updater s1 = algorithm_updater s" by (simp split: option.split)
  from begun(6) show ?thesis
  proof (cases rule: block_transaction_outcome)
    case (ok u1 tx1 n' tx2 u2 tx3 tx4)
    then show ?thesis
      using assms(1) restart_inv_da_costs [OF _ ok(2)] restart_inv_l2 [OF _ ok(4)] by (simp add: s1)
  qed simp_all
qed simp

lemma service_run_restart_inv:
  assumes "restart_inv c (algorithm_updater s)" "service_run ops s e = (s', Inr x)"
  shows "restart_inv c (algorithm_updater s')"
proof (cases e)
  case (L2_result res)
  then obtain b where b: "res = Inr b"
    using assms(2) by (cases res) (auto simp: commit_block_data_to_algorithm_def)
  obtain s1 where s1: "apply_block_info_to_gas_algorithm ops b (update_latest_gas_price s b) = (s1, Inr x)"
    and s': "s' = notify_da_source_service_l2_block s1 b"
    using assms(2) by (auto simp: L2_result b commit_block_data_to_algorithm_def split: prod.splits sum.splits)
  have "restart_inv c (algorithm_updater s1)"
    using s1 assms(1)
    by (cases b) (auto split: sum.splits prod.splits dest: handle_normal_block_restart_inv [rotated])
  then show ?thesis by (cases b) (simp_all add: s')
next
  case (Da_costs res)
  with assms show ?thesis by (cases res) auto
qed

text \<open>A run in which every event succeeds.\<close>

fun service_runs_ok ::
  "('st, 'tx) atomic_storage_ops \<Rightarrow> 'st gas_price_service \<Rightarrow> service_event list \<Rightarrow> 'st gas_price_service option" where
  "service_runs_ok ops s [] = Some s"
| "service_runs_ok ops s (e # es) =
     (case service_run ops s e of (s', Inr _) \<Rightarrow> service_runs_ok ops s' es | (_, Inl _) \<Rightarrow> None)"

lemma service_runs_ok_restart_inv:
  "restart_inv c (algorithm_updater s) \<Longrightarrow> service_runs_ok ops s es = Some s' \<Longrightarrow>
     restart_inv c (algorithm_updater s')"
  by (induction es arbitrary: s) (auto split: prod.splits sum.splits dest: service_run_restart_inv)

context atomic_storage
begin

lemma restart_after_block:
  assumes "restart_inv c (algorithm_updater s)"
    "handle_normal_block ops h used cap bytes fees s = (s', Inr x)"
    "get_metadata ops h (storage_tx_provider s') = Inr found"
  shows "initialize_algorithm ops c h l2_height (storage_tx_provider s') =
           Inr ((algorithm_updater s')\<lparr>l2_activity := config_tracker c\<rparr>, shared_algo s')"
proof -
  have "found = Some (updater_metadata_of_v1 (algorithm_updater s'))"
    using get_metadata_ok [OF assms(3)] handle_normal_block_committed(1) [OF assms(2)] by simp
  then show ?thesis
    using assms(3) restored_updater [OF handle_normal_block_restart_inv [OF assms(1,2)]]
    by (simp add: initialize_algorithm_def updater_metadata_of_v1_def convert_to_v1_metadata_def Let_def
        handle_normal_block_committed(4) [OF assms(2)] v1_algorithm_def descaled_exec_price_def descaled_da_price_def)
qed
end

section \<open>A bundle of size zero\<close>

definition unusable_costs :: "da_block_costs \<Rightarrow> bool" where
  "unusable_costs d \<longleftrightarrow> fst (l2_blocks d) \<le> snd (l2_blocks d) \<and> bundle_size_bytes d = 0"

lemma unusable_costs_fail:
  assumes "unusable_costs d"
  shows "\<exists>s' e. update_da_record_data ops (l2_blocks d) (bundle_size_bytes d) (blob_cost_wei d) s = (s', Inl e)"
proof -
  have "\<exists>s' e. da_block_update ops (l2_blocks d) 0 (blob_cost_wei d) s = (s', Inl e)"
    by (auto simp: da_block_update_def checked_div_def Let_def split: prod.split sum.split)
  with assms show ?thesis
    by (auto simp: unusable_costs_def update_da_record_data_def)
qed

lemma apply_unusable_costs:
  "d \<in> set cs \<Longrightarrow> unusable_costs d \<Longrightarrow> \<exists>s' e. apply_da_costs ops cs s n = (s', Inl e)"
proof (induction cs arbitrary: s n)
  case (Cons c cs)
  show ?case
  proof (cases "unusable_costs c")
    case True
    then show ?thesis using unusable_costs_fail [of c ops s] by auto
  next
    case False
    with Cons show ?thesis by (auto split: prod.split sum.split)
  qed
qed simp

lemma block_with_unusable_costs:
  assumes "d \<in> set (da_block_costs_buffer s)" "unusable_costs d"
    "handle_normal_block ops h used cap bytes fees s = (s', r)"
  shows "(\<exists>e. r = Inl e) \<and> shared_algo s' = shared_algo s \<and> storage_tx_provider s' = storage_tx_provider s \<and>
         da_block_costs_buffer s' = da_block_costs_buffer s"
  using assms(3)
proof (cases rule: handle_normal_block_outcome)
  case (begun tx0 n old s1)
  then have s1: "storage_tx_provider s1 = storage_tx_provider s" "shared_algo s1 = shared_algo s"
    "da_block_costs_buffer s1 = da_block_costs_buffer s" "algorithm_updater s1 = algorithm_updater s"
    by (simp_all split: option.split)
  have "\<exists>q e. apply_da_costs (as_unrecorded_blocks ops) (da_block_costs_buffer s1) (algorithm_updater s1, tx0) n = (q, Inl e)"
    using apply_unusable_costs [OF assms(1,2)] by (simp add: s1)
  with begun(6) show ?thesis
    by (cases rule: block_transaction_outcome) (auto simp: s1)
qed simp

lemma event_with_unusable_costs:
  assumes "d \<in> set (da_block_costs_buffer s)" "unusable_costs d" "e \<noteq> L2_result (Inr GenesisBlock)"
    "service_run ops s e = (s', r)"
  shows "d \<in> set (da_block_costs_buffer s') \<and> shared_algo s' = shared_algo s \<and>
         storage_tx_provider s' = storage_tx_provider s"
proof (cases e)
  case (L2_result res)
  show ?thesis
  proof (cases res)
    case (Inl x)
    with assms L2_result show ?thesis by (simp add: commit_block_data_to_algorithm_def)
  next
    case (Inr b)
    then obtain h used cap bytes fees price where b: "b = Block h used cap bytes fees price"
      using assms(3) L2_result by (cases b) auto
    have d: "d \<in> set (da_block_costs_buffer (update_latest_gas_price s b))"
      using assms(1) by (simp add: b)
    obtain s1 r1 where h: "handle_normal_block ops h used cap bytes fees (update_latest_gas_price s b) = (s1, r1)"
      by fastforce
    from block_with_unusable_costs [OF d assms(2) h] h show ?thesis
      using assms(1,4) by (auto simp: b L2_result Inr commit_block_data_to_algorithm_def)
  qed
next
  case (Da_costs res)
  then show ?thesis using assms(1,4) by (cases res) auto
qed

lemma runs_with_unusable_costs:
  "d \<in> set (da_block_costs_buffer s) \<Longrightarrow> unusable_costs d \<Longrightarrow> L2_result (Inr GenesisBlock) \<notin> set es \<Longrightarrow>
     d \<in> set (da_block_costs_buffer (service_runs ops s es)) \<and>
     shared_algo (service_runs ops s es) = shared_algo s \<and>
     storage_tx_provider (service_runs ops s es) = storage_tx_provider s"
proof (induction es arbitrary: s)
  case (Cons e es)
  obtain s' r where r: "service_run ops s e = (s', r)" by fastforce
  have "e \<noteq> L2_result (Inr GenesisBlock)" using Cons.prems(3) by auto
  from event_with_unusable_costs [OF Cons.prems(1,2) this r] Cons.IH [of s'] Cons.prems(2,3)
  show ?case by (simp add: r)
qed simp

section \<open>Catch-up, block gas and the DA source\<close>

lemma fee_wei_agree_iff: "live_fee_wei fee = sync_fee_wei fee \<longleftrightarrow> unat fee \<le> 18446744073"
proof -
  have l: "unat (live_fee_wei fee) = unat fee * 1000000000"
    using unat_less_exp [of fee] by (simp add: live_fee_wei_def rust_arith unat_ucast_u64_u128)
  have s: "unat (sync_fee_wei fee) = min (unat fee * 1000000000) (2 ^ 64 - 1)"
    by (simp add: sync_fee_wei_def rust_arith unat_ucast_u64_u128)
  show ?thesis
    unfolding word_unat_eq_iff l s by (simp add: min_def)
qed

lemma get_block_info_Block:
  "get_block_info as_mint encoded_len b factor limit = Inr (Block h used cap bytes fees price) \<longleftrightarrow>
     mint_values as_mint b = Inr (fees, price) \<and> block_used_gas fees price factor limit = Inr used \<and>
     h = header_height b \<and> cap = limit \<and> bytes = encoded_len b"
  by (auto simp: get_block_info_def split: sum.splits prod.splits)

lemma sync_block_as_live:
  assumes "get_block view h = Inr (Some b)" "settings (header_params_version b) = Inr g"
    "get_block_info as_mint encoded_len b (set_gas_price_factor g) (set_block_gas_limit g)
       = Inr (Block h used cap bytes fees price)"
    "unat fees \<le> 18446744073" "da_block_costs_buffer s = []"
    "begin_transaction ops (storage_tx_provider s) = Inr tx0" "tx_get_recorded_height ops tx0 = Inr (Some n)"
    "sync_block ops as_mint encoded_len settings view h (algorithm_updater s, storage_tx_provider s) = ((u', st'), r)"
    "handle_normal_block ops h used cap bytes fees s = (s', r')"
  shows "algorithm_updater s' = u' \<and> storage_tx_provider s' = st' \<and> r' = r"
proof -
  have i: "mint_values as_mint b = Inr (fees, price)" "set_block_gas_limit g = cap" "encoded_len b = bytes"
    using assms(3) by (simp_all add: get_block_info_Block)
  note info = assms(3) [unfolded i]
  have fee: "sync_fee_wei fees = live_fee_wei fees" using assms(4) fee_wei_agree_iff [of fees] by simp
  show ?thesis
  proof (cases "cap = 0")
    case True
    have "sync_block ops as_mint encoded_len settings view h (algorithm_updater s, storage_tx_provider s) =
        ((algorithm_updater s, storage_tx_provider s), Inl ZeroBlockGasCapacity)"
      by (simp add: sync_block_def assms(1,2,6) i True)
    moreover have "handle_normal_block ops h used cap bytes fees s = (s, Inl ZeroBlockGasCapacity)"
      by (simp add: True handle_normal_block_def validate_block_gas_capacity_def)
    ultimately show ?thesis using assms(8,9) by simp
  next
    case False
    obtain u1 tx1 r1 where l2: "update_l2_block_data (as_unrecorded_blocks ops) h used cap bytes
        (live_fee_wei fees) (algorithm_updater s, tx0) = ((u1, tx1), r1)"
      by (metis surj_pair)
    obtain tx2 r2 where md: "tx_set_metadata ops (updater_metadata_of_v1 u1) tx1 = (tx2, r2)" by fastforce
    obtain st2 r3 where cm: "commit_transaction ops tx2 (storage_tx_provider s) = (st2, r3)" by fastforce
    have sync: "sync_block ops as_mint encoded_len settings view h (algorithm_updater s, storage_tx_provider s) =
       (case r1 of Inl e \<Rightarrow> ((u1, storage_tx_provider s), Inl (AlgorithmErr e)) | Inr _ \<Rightarrow>
        (case r2 of Inl e \<Rightarrow> ((u1, storage_tx_provider s), Inl (StorageErr e)) | Inr _ \<Rightarrow>
        (case r3 of Inl e \<Rightarrow> ((u1, st2), Inl (StorageErr e)) | Inr _ \<Rightarrow> ((u1, st2), Inr ()))))"
      by (simp add: sync_block_def assms(1,2,6) i info fee False l2 md cm split: sum.split)
    have live: "handle_normal_block ops h used cap bytes fees s =
       (case r1 of Inl e \<Rightarrow> (s\<lparr>algorithm_updater := u1\<rparr>, Inl (AlgorithmErr e)) | Inr _ \<Rightarrow>
        (case r2 of Inl e \<Rightarrow> (s\<lparr>algorithm_updater := u1\<rparr>, Inl (StorageErr e)) | Inr _ \<Rightarrow>
        (case r3 of Inl e \<Rightarrow> (s\<lparr>algorithm_updater := u1, storage_tx_provider := st2\<rparr>, Inl (StorageErr e))
         | Inr _ \<Rightarrow> (s\<lparr>algorithm_updater := u1, storage_tx_provider := st2, shared_algo := v1_algorithm u1,
                       da_block_costs_buffer := []\<rparr>, Inr ()))))"
      by (simp add: handle_normal_block_def validate_block_gas_capacity_def block_transaction_def
          set_recorded_opt_def assms(5,6,7) False l2 md cm split: sum.split)
    show ?thesis
      using assms(8,9) unfolding sync live by (auto split: sum.splits)
  qed
qed

lemma block_used_gas_bounds:
  assumes "block_used_gas fee price factor limit = Inr used"
  shows "used \<le> limit \<and> (price \<noteq> 0 \<longrightarrow> unat used * unat price \<le> unat fee * unat factor)"
proof -
  obtain scaled where sc: "checked_mul_u64 fee factor = Some scaled"
    and used: "used = min (case_option limit id (checked_div scaled price)) limit"
    using assms by (auto simp: block_used_gas_def split: option.splits)
  have "unat scaled = unat fee * unat factor"
    using sc by (auto simp: checked_mul_u64_def unat_word_ariths split: if_splits)
  moreover have "unat used \<le> unat scaled div unat price" if "price \<noteq> 0"
    using that by (auto simp: used checked_div_def min_def word_le_nat_alt unat_div)
  then have "unat used * unat price \<le> unat scaled" if "price \<noteq> 0"
    using that by (meson div_times_less_eq_dividend le_trans mult_le_mono1)
  ultimately show ?thesis by (simp add: used)
qed

lemma send_costs_spec:
  assumes "send_costs rcv cs n sent = ((n', sent'), r)"
  shows "\<exists>k. sent' = sent @ take k cs \<and> (r = Inr () \<longrightarrow> sent' = sent @ cs) \<and>
             n' = fold (\<lambda>c m. max m (snd (l2_blocks c))) (take k cs) n"
  using assms
proof (induction cs arbitrary: n sent)
  case Nil
  then show ?case by auto
next
  case (Cons c cs)
  show ?case
  proof (cases "rcv c")
    case True
    with Cons.prems have "send_costs rcv cs (max n (snd (l2_blocks c))) (sent @ [c]) = ((n', sent'), r)" by simp
    from Cons.IH [OF this] obtain k where "sent' = (sent @ [c]) @ take k cs"
      "r = Inr () \<longrightarrow> sent' = (sent @ [c]) @ cs"
      "n' = fold (\<lambda>c m. max m (snd (l2_blocks c))) (take k cs) (max n (snd (l2_blocks c)))" by blast
    then show ?thesis by (intro exI [of _ "Suc k"]) simp
  next
    case False
    with Cons.prems show ?thesis by (intro exI [of _ 0]) auto
  qed
qed

lemma fold_max_ge: "n \<le> fold (\<lambda>c m. max m (f c)) cs (n :: 'a::linorder)"
  by (induction cs arbitrary: n) (simp, simp, meson max.cobounded1 order_trans)

lemma fold_max_less:
  "(\<forall>c\<in>set cs. f c < b) \<Longrightarrow>
     fold (\<lambda>c m. max m (f c)) cs n = n \<or> fold (\<lambda>c m. max m (f c)) cs n < (b :: 'a::linorder)"
proof (induction cs arbitrary: n)
  case (Cons a cs)
  have "\<forall>c\<in>set cs. f c < b" "f a < b" using Cons.prems by simp_all
  then show ?case using Cons.IH [of "f a"] Cons.IH [of n] by (cases "n \<le> f a") (auto simp: max_absorb1 max_absorb2)
qed simp

lemma process_block_costs_spec:
  assumes "process_block_costs source rcv latest recorded = ((recorded', sent), r)"
  shows "(\<forall>c\<in>set sent. snd (l2_blocks c) < latest) \<and> recorded \<le> recorded' \<and>
         (recorded' = recorded \<or> recorded' < latest)"
proof (cases "source recorded")
  case (Inl e)
  with assms show ?thesis by (auto simp: process_block_costs_def)
next
  case (Inr costs)
  with assms obtain k where "sent = take k (filter_costs latest costs)"
    and n: "recorded' = fold (\<lambda>c m. max m (snd (l2_blocks c))) sent recorded"
    using send_costs_spec [of rcv "filter_costs latest costs" recorded "[]" recorded' sent r]
    by (auto simp: process_block_costs_def)
  then have "\<forall>c\<in>set sent. snd (l2_blocks c) < latest"
    by (auto simp: filter_costs_def dest: in_set_takeD)
  then show ?thesis
    unfolding n using fold_max_ge [where f = "\<lambda>c. snd (l2_blocks c)" and n = recorded and cs = sent]
      fold_max_less [where f = "\<lambda>c. snd (l2_blocks c)" and n = recorded and cs = sent and b = latest]
    by simp
qed

section \<open>Properties\<close>

definition sample_config :: v1_config where
  "sample_config =
     \<lparr>cfg_new_exec_gas_price = 100, cfg_min_exec_gas_price = 10, cfg_exec_gas_price_change_percent = 10,
      cfg_l2_block_fullness_threshold_percent = 50, cfg_gas_price_factor = 100, cfg_min_da_gas_price = 10,
      cfg_max_da_gas_price = 1000, cfg_max_da_gas_price_change_percent = 10, cfg_da_p_component = 4,
      cfg_da_d_component = 3, cfg_normal_range_size = 10, cfg_capped_range_size = 10,
      cfg_decrease_range_size = 10, cfg_block_activity_threshold = 5, cfg_starting_recorded_height = None\<rparr>"

definition empty_tables :: gp_tables where
  "empty_tables = \<lparr>tbl_metadata = Map.empty, tbl_recorded_height = None, tbl_unrecorded = Map.empty\<rparr>"

definition no_fault :: storage_fault where
  "no_fault = (\<lambda>_ _. None)"

definition sample_service :: "gp_tables gas_price_service" where
  "sample_service = service_new (v1_algorithm (updater_from_config sample_config 0)) (0, 0)
     (updater_from_config sample_config 0) empty_tables 0 (Some 0)"

lemma initialize_from_config:
  assumes "initialize_algorithm ops c mh h st = Inr (u, algo)" "get_metadata ops mh st = Inr None"
  shows "u = updater_from_config c h \<and> algo = v1_algorithm u"
  using assms by (auto simp: initialize_algorithm_def Let_def)


definition sample_events :: "service_event list" where
  "sample_events =
     [L2_result (Inr (Block 1 50 100 500 40 10)),
      Da_costs (Inr \<lparr>bundle_id = 1, l2_blocks = (1, 1), bundle_size_bytes = 9, blob_cost_wei = 900\<rparr>),
      L2_result (Inr (Block 2 50 100 500 40 10))]"


text \<open>C10: Handling a block is all or nothing for what is durable. On success the metadata of the new
  updater is stored under the block's height, the recorded height is that of the last buffered
  costs (or, without costs, the stored or initial one), the price is published and the buffer is
  empty. On any failure, at whatever step, the stored tables, the published price and the buffer are
  what they were.\<close>

theorem handle_block_atomic:
  "case handle_normal_block (fuel_storage fault) h used cap bytes fees s of
     (s', Inl e) \<Rightarrow>
       storage_tx_provider s' = storage_tx_provider s \<and> shared_algo s' = shared_algo s \<and>
       da_block_costs_buffer s' = da_block_costs_buffer s
   | (s', Inr _) \<Rightarrow>
       tbl_metadata (storage_tx_provider s') =
         (tbl_metadata (storage_tx_provider s))(h \<mapsto> updater_metadata_of_v1 (algorithm_updater s')) \<and>
       tbl_recorded_height (storage_tx_provider s') =
         (if da_block_costs_buffer s \<noteq> [] then Some (snd (l2_blocks (last (da_block_costs_buffer s))))
          else case tbl_recorded_height (storage_tx_provider s) of
                 Some r \<Rightarrow> Some r | None \<Rightarrow> initial_recorded_height s) \<and>
       l2_block_height (algorithm_updater s') = h \<and>
       shared_algo s' = v1_algorithm (algorithm_updater s') \<and> da_block_costs_buffer s' = []"
proof -
  obtain s' r where r: "handle_normal_block (fuel_storage fault) h used cap bytes fees s = (s', r)"
    by fastforce
  show ?thesis
    using fuel.handle_normal_block_err [of fault h used cap bytes fees s s']
      fuel.handle_normal_block_committed [of fault h used cap bytes fees s s']
    by (cases r) (simp_all add: r)
qed

text \<open>C11: A restart resumes where the service stopped. After any run without errors that ends in a
  handled block, initialising the algorithm from the stored metadata of that block gives back the
  same updater, except that the L2 activity tracker starts full again, and the same published
  algorithm.\<close>

theorem restart_resumes:
  assumes "service_runs_ok (fuel_storage fault)
             (service_new algo latest (updater_from_config c start) st height initial) es = Some s"
    and "handle_normal_block (fuel_storage fault) h used cap bytes fees s = (s', Inr ())"
    and "fault (Get_metadata h) (storage_tx_provider s') = None"
  shows "initialize_algorithm (fuel_storage fault) c h l2_height (storage_tx_provider s') =
           Inr ((algorithm_updater s')\<lparr>l2_activity := config_tracker c\<rparr>, shared_algo s')"
proof (rule fuel.restart_after_block [OF _ assms(2)])
  show "restart_inv c (algorithm_updater s)"
    using service_runs_ok_restart_inv [OF _ assms(1)] restart_inv_updater_from_config
    by (simp add: service_new_def)
  show "get_metadata (fuel_storage fault) h (storage_tx_provider s') =
      Inr (tbl_metadata (storage_tx_provider s') h)"
    using assms(3) by (simp add: fuel_storage_def)
qed

lemma update_l2_block_data_accepts:
  assumes "h = saturating_add (l2_block_height u) 1" "ub_insert ops h bytes ub = (ub', Inr ())"
  shows "\<exists>u'. update_l2_block_data ops h used cap bytes fee (u, ub) = ((u', ub'), Inr ())"
  using assms by (simp add: update_l2_block_data_def Let_def)

lemma next_block_accepted:
  assumes "da_block_costs_buffer s = []" "h = saturating_add (l2_block_height (algorithm_updater s)) 1" "cap \<noteq> 0"
  shows "\<exists>s'. handle_normal_block (fuel_storage no_fault) h used cap bytes fees s = (s', Inr ())"
proof -
  let ?ops = "fuel_storage no_fault"
  have ops: "\<exists>tx'. ub_insert (as_unrecorded_blocks ?ops) h bytes tx = (tx', Inr ())"
    "\<exists>tx'. set_recorded_opt ?ops n tx = (tx', Inr ())" "\<exists>tx'. tx_set_metadata ?ops m tx = (tx', Inr ())"
    "commit_transaction ?ops tx st = (tx, Inr ())" "begin_transaction ?ops st = Inr st"
    "tx_get_recorded_height ?ops tx = Inr (tbl_recorded_height tx)" for tx st n m
    by (auto simp: fuel_storage_def fuel_storage_unrecorded_blocks_def no_fault_def set_recorded_opt_def Let_def
        split: option.split)
  have "\<exists>s2. block_transaction ?ops h used cap bytes fees tx0 n s1 = (s2, Inr ())"
    if s1: "da_block_costs_buffer s1 = []" "algorithm_updater s1 = algorithm_updater s" for tx0 n s1
  proof -
    obtain tx2 where r: "set_recorded_opt ?ops n tx0 = (tx2, Inr ())" using ops(2) by blast
    obtain tx3 where i: "ub_insert (as_unrecorded_blocks ?ops) h bytes tx2 = (tx3, Inr ())" using ops(1) by blast
    obtain u2 where l2: "update_l2_block_data (as_unrecorded_blocks ?ops) h used cap bytes (live_fee_wei fees)
        (algorithm_updater s, tx2) = ((u2, tx3), Inr ())"
      using update_l2_block_data_accepts [OF assms(2) i] by blast
    obtain tx4 where m: "tx_set_metadata ?ops (updater_metadata_of_v1 u2) tx3 = (tx4, Inr ())" using ops(3) by blast
    show ?thesis by (simp add: block_transaction_def s1 r l2 m ops(4))
  qed
  then show ?thesis
    using assms(1,3) by (simp add: handle_normal_block_def validate_block_gas_capacity_def ops(5,6) split: option.split)
qed

lemma sample_block_ok:
  "\<exists>s'. handle_normal_block (fuel_storage no_fault) 1 50 100 500 40 sample_service = (s', Inr ())"
  by (rule next_block_accepted) (simp_all add: sample_service_def service_new_def updater_from_config_def rust_eval)

theorem restart_resumes_witness:
  "\<exists>s'. handle_normal_block (fuel_storage no_fault) 1 50 100 500 40 sample_service = (s', Inr ()) \<and>
        initialize_algorithm (fuel_storage no_fault) sample_config 1 1 (storage_tx_provider s') =
          Inr ((algorithm_updater s')\<lparr>l2_activity := config_tracker sample_config\<rparr>, shared_algo s')"
proof -
  obtain s' where s': "handle_normal_block (fuel_storage no_fault) 1 50 100 500 40 sample_service = (s', Inr ())"
    using sample_block_ok by blast
  from restart_resumes [where es = "[]" and c = sample_config and start = 0, OF _ this] show ?thesis
    using s' by (simp add: sample_service_def no_fault_def)
qed

text \<open>C12: One bundle of size zero blocks the service for good. Once the buffer holds DA costs with a
  non-empty block range and \<open>bundle_size_bytes = 0\<close>, then, whatever the storage and whatever later
  events (genesis aside), every L2 block is answered with an error, the published price and the
  storage never change again, and the costs stay in the buffer, to be applied again to the in-memory
  updater at the next block.\<close>

theorem zero_size_bundle_stalls:
  assumes "d \<in> set (da_block_costs_buffer s)" "fst (l2_blocks d) \<le> snd (l2_blocks d)"
    "bundle_size_bytes d = 0" "L2_result (Inr GenesisBlock) \<notin> set es"
  shows "shared_algo (service_runs ops s es) = shared_algo s \<and>
         storage_tx_provider (service_runs ops s es) = storage_tx_provider s \<and>
         d \<in> set (da_block_costs_buffer (service_runs ops s es)) \<and>
         (\<exists>e. snd (handle_normal_block ops h used cap bytes fees (service_runs ops s es)) = Inl e)"
proof -
  have d: "unusable_costs d" using assms(2,3) by (simp add: unusable_costs_def)
  note runs = runs_with_unusable_costs [OF assms(1) d assms(4), of ops]
  then show ?thesis
    using block_with_unusable_costs [of d "service_runs ops s es" ops h used cap bytes fees] d
    by (auto simp: prod_eq_iff)
qed

definition stuck_service :: "gp_tables gas_price_service" where
  "stuck_service = sample_service\<lparr>da_block_costs_buffer :=
     [\<lparr>bundle_id = 1, l2_blocks = (1, 1), bundle_size_bytes = 0, blob_cost_wei = 900\<rparr>]\<rparr>"

theorem zero_size_bundle_stalls_witness:
  "shared_algo (service_runs (fuel_storage no_fault) stuck_service sample_events) = shared_algo stuck_service"
  using zero_size_bundle_stalls [where s = stuck_service and es = sample_events and ops = "fuel_storage no_fault"
      and d = "\<lparr>bundle_id = 1, l2_blocks = (1, 1), bundle_size_bytes = 0, blob_cost_wei = 900\<rparr>"]
  by (simp add: stuck_service_def sample_events_def del: service_runs_simps)


definition sample_block :: "(u64 \<times> u64) l2_block" where
  "sample_block = \<lparr>header_height = 1, header_params_version = 0, transactions = [(40, 10)]\<rparr>"

definition recorded_service :: "gp_tables gas_price_service" where
  "recorded_service = sample_service\<lparr>storage_tx_provider := empty_tables\<lparr>tbl_recorded_height := Some 0\<rparr>\<rparr>"


text \<open>The two paths convert fees to wei differently. Live handling scales in 128 bits, the
  catch-up saturates in 64 bits first; they agree exactly up to 18446744073 gwei.\<close>

theorem fee_wei_paths: "live_fee_wei fee = sync_fee_wei fee \<longleftrightarrow> unat fee \<le> 18446744073"
  by (rule fee_wei_agree_iff)

text \<open>C14: The DA source only reports costs of blocks the node already has: every bundle it sends ends
  strictly below the latest L2 height, its recorded height never goes back and never runs past that
  height, whether or not the source answers and the channel accepts.\<close>

theorem da_source_stays_behind:
  "case process_block_costs source rcv latest recorded of
     ((recorded', sent), r) \<Rightarrow>
       list_all (\<lambda>c. snd (l2_blocks c) < latest) sent \<and> recorded \<le> recorded' \<and>
       (recorded' = recorded \<or> recorded' < latest)"
proof -
  obtain n sent r where p: "process_block_costs source rcv latest recorded = ((n, sent), r)"
    by (metis surj_pair)
  from process_block_costs_spec [OF p] show ?thesis by (simp add: p list_all_iff)
qed

end
