(* ===== verification/Sync_Service.thy ===== *)
theory Sync_Service
  imports Prelude "HOL-Library.Sublist"
begin

text \<open>
  The block synchronisation service (crate \<open>services/sync\<close>): the state machine that turns
  observed and committed heights into a range to process (\<open>state.rs\<close>), the cache of fetched
  headers and blocks with its split into chunks (\<open>import/cache.rs\<close>), and the import of a range
  (\<open>import.rs\<close>): fetching headers and transactions, checking, executing and committing.

  Sealed headers and blocks are opaque values read through \<open>sealed_ops\<close>; peers, the consensus
  check and the executor are the ports the code takes them from. The tasks that fetch several
  chunks at once are run one after the other: their results are consumed in order
  (\<open>buffered\<close>), and the chunks are computed before the first fetch.
\<close>

section \<open>State\<close>

(* src/crates/services/sync/src/state.rs:19-28 Status *)
datatype status =
    Uninitialized
  | Processing (proc_start: u32) (proc_end: u32)
  | Committed u32

definition range_contains :: "u32 \<times> u32 \<Rightarrow> u32 \<Rightarrow> bool" where
  "range_contains r h \<longleftrightarrow> fst r \<le> h \<and> h \<le> snd r"

(* src/crates/services/sync/src/state.rs:33-64 State::new *)
definition state_new :: "u32 option \<Rightarrow> u32 option \<Rightarrow> status" where
  "state_new committed observed =
     (case (committed, observed) of
        (Some c, Some obs) \<Rightarrow>
          (case checked_add c 1 of
             None \<Rightarrow> Committed c
           | Some nxt \<Rightarrow> if nxt \<le> obs then Processing nxt obs else Committed c)
      | (Some c, None) \<Rightarrow> Committed c
      | (None, Some obs) \<Rightarrow> Processing 0 obs
      | (None, None) \<Rightarrow> Uninitialized)"

(* src/crates/services/sync/src/state.rs:68-79 State::process_range *)
fun process_range :: "status \<Rightarrow> (u32 \<times> u32) option" where
  "process_range (Processing s e) = Some (s, e)"
| "process_range _ = None"

(* src/crates/services/sync/src/state.rs:201-211 State::apply_status *)
definition apply_status :: "status \<Rightarrow> status option \<Rightarrow> status" where
  "apply_status st new_status = (case new_status of Some s \<Rightarrow> s | None \<Rightarrow> st)"

(* src/crates/services/sync/src/state.rs:83-118 State::commit *)
definition state_commit :: "status \<Rightarrow> u32 \<Rightarrow> status" where
  "state_commit st height =
     apply_status st
       (case st of
          Processing s e \<Rightarrow>
            (if height < s then None
             else if height < e then Some (Processing (saturating_add height 1) e)
             else Some (Committed height))
        | Uninitialized \<Rightarrow> Some (Committed height)
        | Committed existing \<Rightarrow> (if height \<le> existing then None else Some (Committed height)))"

(* src/crates/services/sync/src/state.rs:122-146 State::observe *)
definition state_observe :: "status \<Rightarrow> u32 \<Rightarrow> status \<times> bool" where
  "state_observe st height =
     (let new_status =
        (case st of
           Uninitialized \<Rightarrow> Some (Processing 0 height)
         | Processing s e \<Rightarrow> (if e < height then Some (Processing s height) else None)
         | Committed c \<Rightarrow>
             Option.bind (checked_add c 1)
               (\<lambda>nxt. if nxt \<le> height then Some (Processing nxt height) else None))
      in (apply_status st new_status, new_status \<noteq> None))"

definition before_start :: "u32 \<Rightarrow> status" where
  "before_start s = (case checked_sub s 1 of None \<Rightarrow> Uninitialized | Some prev \<Rightarrow> Committed prev)"

(* src/crates/services/sync/src/state.rs:150-199 State::failed_to_process *)
definition failed_to_process :: "status \<Rightarrow> u32 \<times> u32 \<Rightarrow> status" where
  "failed_to_process st rng =
     apply_status st
       (if \<not> fst rng \<le> snd rng then None
        else (case st of
                Processing s e \<Rightarrow>
                  (if range_contains rng s then Some (before_start s)
                   else if range_contains rng e \<or> range_contains (s, e) (fst rng)
                   then Some (case checked_sub (fst rng) 1 of
                                None \<Rightarrow> Uninitialized
                              | Some prev \<Rightarrow> Processing s prev)
                   else if range_contains (s, e) (snd rng) then Some (before_start s)
                   else None)
              | _ \<Rightarrow> None))"

(* src/crates/services/sync/src/sync.rs:22-25 IncomingHeight *)
datatype incoming_height = Observed u32 | Committed_height u32

(* src/crates/services/sync/src/sync.rs:52-69 SyncHeights::sync *)
fun sync_heights_step :: "status \<Rightarrow> incoming_height \<Rightarrow> status \<times> bool" where
  "sync_heights_step st (Committed_height h) = (state_commit st h, False)"
| "sync_heights_step st (Observed h) = state_observe st h"

section \<open>Cache\<close>

(* src/crates/services/sync/src/import.rs:149-163 Batch *)
record ('p, 'a) batch =
  b_peer :: "'p option"
  b_range :: "u32 \<times> u32"
  b_results :: "'a list"

definition range_len :: "u32 \<times> u32 \<Rightarrow> nat" where
  "range_len r = unat (snd r) - unat (fst r)"

(* src/crates/services/sync/src/import.rs:165-167 Batch::is_err *)
definition batch_is_err :: "('p, 'a) batch \<Rightarrow> bool" where
  "batch_is_err b \<longleftrightarrow> length (b_results b) < range_len (b_range b)"

(* src/crates/services/sync/src/import/cache.rs:22-27 CachedData *)
datatype ('h, 'b) cached_data = CHeader 'h | CBlock 'b

(* src/crates/services/sync/src/import/cache.rs:29-34 CachedDataBatch *)
datatype ('p, 'h, 'b) cached_data_batch =
    Headers "('p, 'h) batch"
  | Blocks "('p, 'b) batch"
  | NoData "u32 \<times> u32"

type_synonym ('h, 'b) block_cache = "u32 \<Rightarrow> ('h, 'b) cached_data option"

fun chunk_range :: "('p, 'h, 'b) cached_data_batch \<Rightarrow> u32 \<times> u32" where
  "chunk_range (Headers b) = b_range b"
| "chunk_range (Blocks b) = b_range b"
| "chunk_range (NoData r) = r"

(* src/crates/services/sync/src/import/cache.rs:36-44 CachedDataBatch::is_range_empty *)
definition is_range_empty :: "('p, 'h, 'b) cached_data_batch \<Rightarrow> bool" where
  "is_range_empty c \<longleftrightarrow> \<not> fst (chunk_range c) < snd (chunk_range c)"

(* src/crates/services/sync/src/import/cache.rs:51-56 Cache::insert_blocks *)
definition insert_blocks :: "('b \<Rightarrow> u32) \<Rightarrow> 'b list \<Rightarrow> ('h, 'b) block_cache \<Rightarrow> ('h, 'b) block_cache" where
  "insert_blocks height_of bs c = foldl (\<lambda>c b. c(height_of b \<mapsto> CBlock b)) c bs"

(* src/crates/services/sync/src/import/cache.rs:58-63 Cache::insert_headers *)
definition insert_headers :: "('h \<Rightarrow> u32) \<Rightarrow> 'h list \<Rightarrow> ('h, 'b) block_cache \<Rightarrow> ('h, 'b) block_cache" where
  "insert_headers height_of hs c = foldl (\<lambda>c h. c(height_of h \<mapsto> CHeader h)) c hs"

(* src/crates/services/sync/src/import/cache.rs:215-218 Cache::remove_element *)
definition remove_element :: "u32 \<Rightarrow> ('h, 'b) block_cache \<Rightarrow> ('h, 'b) block_cache" where
  "remove_element h c = c(h := None)"

definition heights_between :: "nat \<Rightarrow> nat \<Rightarrow> u32 list" where
  "heights_between a b = map of_nat [a ..< b]"

(* src/crates/services/sync/src/import/cache.rs:113-116 Cache::collect_cache_data *)
definition collect_cache_data :: "('h, 'b) block_cache \<Rightarrow> u32 \<times> u32 \<Rightarrow> (u32 \<times> ('h, 'b) cached_data) list" where
  "collect_cache_data c r =
     List.map_filter (\<lambda>h. map_option (Pair h) (c h)) (heights_between (unat (fst r)) (Suc (unat (snd r))))"

definition single_batch :: "u32 \<Rightarrow> 'a \<Rightarrow> ('p, 'a) batch" where
  "single_batch height x = \<lparr>b_peer = None, b_range = (height, saturating_add height 1), b_results = [x]\<rparr>"

definition extend_batch :: "('p, 'a) batch \<Rightarrow> 'a \<Rightarrow> ('p, 'a) batch" where
  "extend_batch b x = b\<lparr>b_range := (fst (b_range b), saturating_add (snd (b_range b)) 1),
                  b_results := b_results b @ [x]\<rparr>"

(* src/crates/services/sync/src/import/cache.rs:118-196 Cache::handle_current_chunk *)
fun handle_current_chunk ::
  "('p, 'h, 'b) cached_data_batch \<Rightarrow> ('h, 'b) cached_data \<Rightarrow> u32 \<Rightarrow> u32
     \<Rightarrow> ('p, 'h, 'b) cached_data_batch list \<times> ('p, 'h, 'b) cached_data_batch" where
  "handle_current_chunk (NoData _) (CHeader x) height max_chunk = ([], Headers (single_batch height x))"
| "handle_current_chunk (NoData _) (CBlock x) height max_chunk = ([], Blocks (single_batch height x))"
| "handle_current_chunk (Headers b) (CHeader x) height max_chunk =
     (if range_len (b_range b) = unat max_chunk then ([Headers b], Headers (single_batch height x))
      else ([], Headers (extend_batch b x)))"
| "handle_current_chunk (Blocks b) (CBlock x) height max_chunk =
     (if range_len (b_range b) = unat max_chunk then ([Blocks b], Blocks (single_batch height x))
      else ([], Blocks (extend_batch b x)))"
| "handle_current_chunk (Headers b) (CBlock x) height max_chunk = ([Headers b], Blocks (single_batch height x))"
| "handle_current_chunk (Blocks b) (CHeader x) height max_chunk = ([Blocks b], Headers (single_batch height x))"

text \<open>\<open>(a..b).step_by(k)\<close>\<close>

definition step_by :: "nat \<Rightarrow> nat \<Rightarrow> nat \<Rightarrow> nat list" where
  "step_by a b k = map (\<lambda>i. a + i * k) [0 ..< (b - a + k - 1) div k]"

(* src/crates/services/sync/src/import/cache.rs:198-213 Cache::push_missing_chunks *)
definition missing_chunks :: "u32 \<Rightarrow> u32 \<Rightarrow> u32 \<Rightarrow> u32 \<Rightarrow> ('p, 'h, 'b) cached_data_batch list" where
  "missing_chunks current_height height max_chunk end_height =
     map (\<lambda>s. let chunk_start = of_nat s
               in NoData (chunk_start, min (saturating_add chunk_start max_chunk) end_height))
       (step_by (unat current_height) (unat height) (unat max_chunk))"

(* src/crates/services/sync/src/import/cache.rs:77-103 Cache::get_chunks, loop over the cached data *)
fun chunk_loop ::
  "u32 \<Rightarrow> u32 \<Rightarrow> (u32 \<times> ('h, 'b) cached_data) list \<Rightarrow> u32 \<Rightarrow> ('p, 'h, 'b) cached_data_batch
     \<Rightarrow> ('p, 'h, 'b) cached_data_batch list
     \<Rightarrow> u32 \<times> ('p, 'h, 'b) cached_data_batch \<times> ('p, 'h, 'b) cached_data_batch list" where
  "chunk_loop max_chunk end_height [] current_height current chunks = (current_height, current, chunks)"
| "chunk_loop max_chunk end_height ((height, data) # rest) current_height current chunks =
     (let (current1, chunks1) =
            (if height \<noteq> current_height
             then (NoData (0, 0),
                   (if is_range_empty current then chunks else chunks @ [current])
                     @ missing_chunks current_height height max_chunk end_height)
             else (current, chunks));
          (pushed, current2) = handle_current_chunk current1 data height max_chunk
      in chunk_loop max_chunk end_height rest (saturating_add height 1) current2 (chunks1 @ pushed))"

(* src/crates/services/sync/src/import/cache.rs:65-111 Cache::get_chunks *)
definition get_chunks ::
  "('h, 'b) block_cache \<Rightarrow> u32 \<times> u32 \<Rightarrow> u32 \<Rightarrow> ('p, 'h, 'b) cached_data_batch list" where
  "get_chunks c rng max_chunk =
     (let end_height = saturating_add (snd rng) 1;
          (current_height, current, chunks) =
            chunk_loop max_chunk end_height (collect_cache_data c rng) (fst rng) (NoData (0, 0)) []
      in (if is_range_empty current then chunks else chunks @ [current])
           @ missing_chunks current_height end_height max_chunk end_height)"

section \<open>Import\<close>

(* src/crates/services/sync/src/ports.rs:19-35 PeerReportReason *)
datatype peer_report_reason =
    SuccessfulBlockImport | MissingBlockHeaders | BadBlockHeader | MissingTransactions | InvalidTransactions

record ('h, 'b, 't) sealed_ops =
  sealed_header_height :: "'h \<Rightarrow> u32"
  sealed_block_height :: "'b \<Rightarrow> u32"
  try_from_executed :: "'h \<Rightarrow> 't \<Rightarrow> 'b option"

(* src/crates/services/sync/src/ports.rs:37-65 PeerToPeerPort *)
record ('p, 'h, 't) p2p_port =
  p2p_get_sealed_block_headers :: "u32 \<times> u32 \<Rightarrow> (string, 'p \<times> 'h list option) result"
  p2p_get_transactions :: "u32 \<times> u32 \<Rightarrow> (string, 'p \<times> 't list option) result"
  p2p_get_transactions_from_peer :: "'p \<Rightarrow> u32 \<times> u32 \<Rightarrow> (string, 't list option) result"

type_synonym 'p reports = "('p \<times> peer_report_reason) list"

(* src/crates/services/sync/src/import.rs:653-665 report_peer *)
definition report_peer :: "'p option \<Rightarrow> peer_report_reason \<Rightarrow> 'p reports" where
  "report_peer peer reason = (case peer of None \<Rightarrow> [] | Some p \<Rightarrow> [(p, reason)])"

(* src/crates/services/sync/src/import.rs:552-569 get_sealed_block_headers *)
definition get_sealed_block_headers :: "('p, 'h, 't) p2p_port \<Rightarrow> u32 \<times> u32 \<Rightarrow> ('p \<times> 'h list) option" where
  "get_sealed_block_headers p2p rng =
     (case p2p_get_sealed_block_headers p2p rng of
        Inl _ \<Rightarrow> None
      | Inr (p, hs) \<Rightarrow> Some (p, case hs of None \<Rightarrow> [] | Some xs \<Rightarrow> xs))"

(* src/crates/services/sync/src/import.rs:571-615 get_transactions *)
definition get_transactions ::
  "('p, 'h, 't) p2p_port \<Rightarrow> u32 \<times> u32 \<Rightarrow> 'p option \<Rightarrow> ('p \<times> 't list) option \<times> 'p reports" where
  "get_transactions p2p rng peer =
     (case peer of
        Some p \<Rightarrow>
          (case p2p_get_transactions_from_peer p2p p rng of
             Inr (Some txs) \<Rightarrow> (Some (p, txs), [])
           | _ \<Rightarrow> (None, report_peer (Some p) MissingTransactions))
      | None \<Rightarrow>
          (case p2p_get_transactions p2p rng of
             Inl _ \<Rightarrow> (None, [])
           | Inr (p, None) \<Rightarrow> (None, report_peer (Some p) MissingTransactions)
           | Inr (p, Some txs) \<Rightarrow> (Some (p, txs), [])))"

(* src/crates/services/sync/src/import.rs:617-651 get_headers_batch *)
definition get_headers_batch ::
  "('h, 'b, 't) sealed_ops \<Rightarrow> ('p, 'h, 't) p2p_port \<Rightarrow> u32 \<times> u32 \<Rightarrow> ('p, 'h) batch \<times> 'p reports" where
  "get_headers_batch so p2p rng =
     (case get_sealed_block_headers p2p rng of
        None \<Rightarrow> (\<lparr>b_peer = None, b_range = rng, b_results = []\<rparr>, [])
      | Some (p, hs) \<Rightarrow>
          (let heights = heights_between (unat (fst rng)) (unat (snd rng));
               hs' = map fst (takeWhile (\<lambda>(x, expected). sealed_header_height so x = expected) (zip hs heights))
           in (\<lparr>b_peer = Some p, b_range = rng, b_results = hs'\<rparr>,
               if length hs' \<noteq> range_len rng then report_peer (Some p) MissingBlockHeaders else [])))"

fun build_blocks :: "('h, 'b, 't) sealed_ops \<Rightarrow> 'p \<Rightarrow> ('h \<times> 't) list \<Rightarrow> 'b list \<times> 'p reports" where
  "build_blocks so p [] = ([], [])"
| "build_blocks so p ((h, t) # rest) =
     (case try_from_executed so h t of
        None \<Rightarrow> ([], report_peer (Some p) InvalidTransactions)
      | Some b \<Rightarrow> (let (bs, rep) = build_blocks so p rest in (b # bs, rep)))"

(* src/crates/services/sync/src/import.rs:667-711 get_blocks *)
definition get_blocks ::
  "('h, 'b, 't) sealed_ops \<Rightarrow> ('p, 'h, 't) p2p_port \<Rightarrow> ('p, 'h) batch \<Rightarrow> ('p, 'b) batch \<times> 'p reports" where
  "get_blocks so p2p hb =
     (case get_transactions p2p (b_range hb) (b_peer hb) of
        (None, rep) \<Rightarrow> (\<lparr>b_peer = b_peer hb, b_range = b_range hb, b_results = []\<rparr>, rep)
      | (Some (p, txs), rep) \<Rightarrow>
          (let (bs, rep') = build_blocks so p (zip (b_results hb) txs)
           in (\<lparr>b_peer = Some p, b_range = b_range hb, b_results = bs\<rparr>, rep @ rep')))"

(* src/crates/services/sync/src/import.rs:505-522 check_sealed_header *)
definition check_sealed_header :: "('h \<Rightarrow> (string, bool) result) \<Rightarrow> 'h \<Rightarrow> bool" where
  "check_sealed_header consensus x = (case consensus x of Inl _ \<Rightarrow> False | Inr v \<Rightarrow> v)"

text \<open>\<open>take_while\<close> over the fetched headers; the first header that fails is reported.\<close>

fun check_headers ::
  "('h \<Rightarrow> (string, bool) result) \<Rightarrow> 'p option \<Rightarrow> 'h list \<Rightarrow> 'h list \<times> 'p reports" where
  "check_headers consensus peer [] = ([], [])"
| "check_headers consensus peer (x # xs) =
     (if check_sealed_header consensus x
      then (let (ys, rep) = check_headers consensus peer xs in (x # ys, rep))
      else ([], report_peer peer BadBlockHeader))"

definition blocks_of_headers ::
  "('h, 'b, 't) sealed_ops \<Rightarrow> ('p, 'h, 't) p2p_port \<Rightarrow> ('p, 'h) batch \<Rightarrow> ('h, 'b) block_cache
     \<Rightarrow> ('p, 'b) batch \<times> ('h, 'b) block_cache \<times> 'p reports" where
  "blocks_of_headers so p2p hb c =
     (if b_results hb = [] then (\<lparr>b_peer = b_peer hb, b_range = b_range hb, b_results = []\<rparr>, c, [])
      else (let (bb, rep) = get_blocks so p2p hb
            in (bb, if batch_is_err bb then c else insert_blocks (sealed_block_height so) (b_results bb) c, rep)))"

(* src/crates/services/sync/src/import.rs:392-503 get_block_stream, one chunk *)
fun fetch_chunk ::
  "('h, 'b, 't) sealed_ops \<Rightarrow> ('p, 'h, 't) p2p_port \<Rightarrow> ('h \<Rightarrow> (string, bool) result)
     \<Rightarrow> ('p, 'h, 'b) cached_data_batch \<Rightarrow> ('h, 'b) block_cache
     \<Rightarrow> ('p, 'b) batch \<times> ('h, 'b) block_cache \<times> 'p reports" where
  "fetch_chunk so p2p consensus (Blocks bb) c = (bb, c, [])"
| "fetch_chunk so p2p consensus (Headers hb) c = blocks_of_headers so p2p hb c"
| "fetch_chunk so p2p consensus (NoData rng) c =
     (let (fetched, rep1) = get_headers_batch so p2p rng;
          (checked, rep2) = check_headers consensus (b_peer fetched) (b_results fetched);
          hb = \<lparr>b_peer = b_peer fetched, b_range = rng, b_results = checked\<rparr>;
          c1 = (if batch_is_err hb then c else insert_headers (sealed_header_height so) checked c);
          (bb, c2, rep3) = blocks_of_headers so p2p hb c1
      in (bb, c2, rep1 @ rep2 @ rep3))"

text \<open>The stream of block batches, cut after the first batch that is short (\<open>scan_err\<close>). Up to
  \<open>ahead\<close> chunks behind a short one were requested concurrently; their batches are dropped, their
  effect on the cache and on the peers remains.\<close>

fun fetch_ahead ::
  "('h, 'b, 't) sealed_ops \<Rightarrow> ('p, 'h, 't) p2p_port \<Rightarrow> ('h \<Rightarrow> (string, bool) result)
     \<Rightarrow> ('p, 'h, 'b) cached_data_batch list \<Rightarrow> ('h, 'b) block_cache \<Rightarrow> ('h, 'b) block_cache \<times> 'p reports" where
  "fetch_ahead so p2p consensus [] c = (c, [])"
| "fetch_ahead so p2p consensus (ch # chs) c =
     (let (_, c1, rep1) = fetch_chunk so p2p consensus ch c;
          (c2, rep2) = fetch_ahead so p2p consensus chs c1
      in (c2, rep1 @ rep2))"

(* src/crates/services/sync/src/import.rs:212-302 Import::fetch_batches_task *)
fun fetch_batches ::
  "nat \<Rightarrow> ('h, 'b, 't) sealed_ops \<Rightarrow> ('p, 'h, 't) p2p_port \<Rightarrow> ('h \<Rightarrow> (string, bool) result)
     \<Rightarrow> ('p, 'h, 'b) cached_data_batch list \<Rightarrow> ('h, 'b) block_cache
     \<Rightarrow> ('p, 'b) batch list \<times> ('h, 'b) block_cache \<times> 'p reports" where
  "fetch_batches ahead so p2p consensus [] c = ([], c, [])"
| "fetch_batches ahead so p2p consensus (ch # chs) c =
     (let (bb, c1, rep1) = fetch_chunk so p2p consensus ch c
      in if batch_is_err bb
         then (let (c2, rep2) = fetch_ahead so p2p consensus (take ahead chs) c1 in ([bb], c2, rep1 @ rep2))
         else (let (bbs, c2, rep2) = fetch_batches ahead so p2p consensus chs c1
               in (bb # bbs, c2, rep1 @ rep2)))"

text \<open>The node as the import sees it: its status, the cache, the chain behind the importer port and
  the reports sent so far.\<close>

record ('p, 'h, 'b, 'x) import_state =
  is_status :: status
  is_cache :: "('h, 'b) block_cache"
  is_chain :: 'x
  is_reports :: "'p reports"

type_synonym ('b, 'x) importer_port = "'b \<Rightarrow> 'x \<Rightarrow> 'x \<times> bool"

(* src/crates/services/sync/src/import.rs:721-740 execute_and_commit *)
definition execute_and_commit ::
  "('b, 'x) importer_port \<Rightarrow> ('b \<Rightarrow> u32) \<Rightarrow> 'b \<Rightarrow> status \<times> 'x \<Rightarrow> (status \<times> 'x) \<times> bool" where
  "execute_and_commit executor height_of b s =
     (case executor b (snd s) of
        (x, True) \<Rightarrow> ((state_commit (fst s) (height_of b), x), True)
      | (x, False) \<Rightarrow> ((fst s, x), False))"

(* src/crates/services/sync/src/import.rs:337-361 Import::launch_stream, loop over a batch *)
fun execute_batch ::
  "('b \<Rightarrow> bool) \<Rightarrow> ('b, 'x) importer_port \<Rightarrow> ('b \<Rightarrow> u32) \<Rightarrow> 'b list \<Rightarrow> ('p, 'h, 'b, 'x) import_state
     \<Rightarrow> ('p, 'h, 'b, 'x) import_state \<times> nat" where
  "execute_batch stopping executor height_of [] s = (s, 0)"
| "execute_batch stopping executor height_of (b # bs) s =
     (if stopping b then (s, 0)
      else (let ((st, x), ok) = execute_and_commit executor height_of b (is_status s, is_chain s);
                s1 = s\<lparr>is_status := st, is_chain := x,
                        is_cache := remove_element (height_of b) (is_cache s)\<rparr>
            in if ok
               then (let (s2, n) = execute_batch stopping executor height_of bs s1 in (s2, Suc n))
               else (s1, 0)))"

(* src/crates/services/sync/src/import.rs:304-389 Import::launch_stream *)
fun launch_stream ::
  "('b \<Rightarrow> bool) \<Rightarrow> ('b, 'x) importer_port \<Rightarrow> ('b \<Rightarrow> u32) \<Rightarrow> ('p, 'b) batch list
     \<Rightarrow> ('p, 'h, 'b, 'x) import_state \<Rightarrow> ('p, 'h, 'b, 'x) import_state \<times> nat" where
  "launch_stream stopping executor height_of [] s = (s, 0)"
| "launch_stream stopping executor height_of (bb # bbs) s =
     (let (s1, n) = execute_batch stopping executor height_of (b_results bb) s
      in if n < range_len (b_range bb) then (s1, n)
         else (let s2 = s1\<lparr>is_reports := is_reports s1 @ report_peer (b_peer bb) SuccessfulBlockImport\<rparr>;
                   (s3, m) = launch_stream stopping executor height_of bbs s2
               in (s3, n + m)))"

(* src/crates/services/sync/src/import.rs:187-210 Import::import_inner *)
definition import_inner ::
  "nat \<Rightarrow> ('h, 'b, 't) sealed_ops \<Rightarrow> ('p, 'h, 't) p2p_port \<Rightarrow> ('h \<Rightarrow> (string, bool) result) \<Rightarrow> ('b \<Rightarrow> bool)
     \<Rightarrow> ('b, 'x) importer_port \<Rightarrow> u32 \<Rightarrow> ('p, 'h, 'b, 'x) import_state
     \<Rightarrow> ('p, 'h, 'b, 'x) import_state \<times> (u32 \<times> u32, unit) result" where
  "import_inner ahead so p2p consensus stopping executor batch_size s =
     (case process_range (is_status s) of
        None \<Rightarrow> (s, Inr ())
      | Some rng \<Rightarrow>
          (let chunks = get_chunks (is_cache s) rng batch_size;
               (batches, c, rep) = fetch_batches ahead so p2p consensus chunks (is_cache s);
               (s1, count) = launch_stream stopping executor (sealed_block_height so) batches
                               (s\<lparr>is_cache := c, is_reports := is_reports s @ rep\<rparr>)
           in if count < unat (snd rng) - unat (fst rng) + 1
              then (let incomplete = (saturating_add (fst rng) (of_nat count), snd rng)
                    in (s1\<lparr>is_status := failed_to_process (is_status s1) incomplete\<rparr>, Inl incomplete))
              else (s1, Inr ())))"

section \<open>What the status means\<close>

text \<open>The status stands for two numbers: the first height not yet committed, and the first height
  nobody has asked for. In these terms the four operations are one-line specifications.\<close>

fun status_abs :: "status \<Rightarrow> nat \<times> nat" where
  "status_abs Uninitialized = (0, 0)"
| "status_abs (Processing s e) = (unat s, Suc (unat e))"
| "status_abs (Committed h) = (Suc (unat h), Suc (unat h))"

fun status_wf :: "status \<Rightarrow> bool" where
  "status_wf (Processing s e) = (s \<le> e)"
| "status_wf _ = True"

definition spec_commit :: "nat \<times> nat \<Rightarrow> nat \<Rightarrow> nat \<times> nat" where
  "spec_commit bt h = (max (fst bt) (Suc h), max (snd bt) (Suc h))"

definition spec_observe :: "nat \<times> nat \<Rightarrow> nat \<Rightarrow> nat \<times> nat" where
  "spec_observe bt h = (fst bt, max (snd bt) (Suc h))"

definition spec_failed :: "nat \<times> nat \<Rightarrow> nat \<times> nat \<Rightarrow> nat \<times> nat" where
  "spec_failed bt r =
     (fst bt, if fst r \<le> snd r \<and> fst r < snd bt \<and> fst bt \<le> snd r then max (fst bt) (fst r) else snd bt)"

lemma unat_saturating_add_1_less:
  "unat (h :: u32) < unat (e :: u32) \<Longrightarrow> unat (saturating_add h 1) = Suc (unat h)"
  using unat_le_exp [of e] by (simp add: rust_arith)

lemma commit_refines:
  assumes "status_wf st"
  shows "status_wf (state_commit st h) \<and> status_abs (state_commit st h) = spec_commit (status_abs st) (unat h)"
proof (cases st)
  case (Processing s e)
  show ?thesis
  proof (cases "unat s \<le> unat h \<and> unat h < unat e")
    case True
    then have "unat (saturating_add h 1) = Suc (unat h)" using unat_saturating_add_1_less [of h e] by simp
    with True Processing show ?thesis
      by (auto simp: state_commit_def apply_status_def spec_commit_def word_le_nat_alt word_less_nat_alt max_def)
  next
    case False
    with Processing assms show ?thesis
      by (auto simp: state_commit_def apply_status_def spec_commit_def word_le_nat_alt word_less_nat_alt max_def)
  qed
qed (auto simp: state_commit_def apply_status_def spec_commit_def word_le_nat_alt max_def)

lemma checked_add_one_cases:
  fixes c :: u32
  obtains "c = - 1" "checked_add c 1 = None"
  | n where "checked_add c 1 = Some n" "unat n = Suc (unat c)"
  by (metis Suc_eq_plus1 checked_add_None_iff option.exhaust unat_1 unat_checked_add)

lemma observe_refines:
  assumes "status_wf st"
  shows "status_wf (fst (state_observe st h)) \<and>
         status_abs (fst (state_observe st h)) = spec_observe (status_abs st) (unat h) \<and>
         (snd (state_observe st h) \<longleftrightarrow> snd (status_abs st) < Suc (unat h))"
proof (cases st)
  case (Committed c)
  show ?thesis
  proof (cases rule: checked_add_one_cases [of c])
    case 1
    then show ?thesis
      using Committed unat_le_exp [of h]
      by (auto simp: state_observe_def apply_status_def spec_observe_def unat_minus_one_word max_def)
  next
    case (2 n)
    then show ?thesis
      using Committed by (auto simp: state_observe_def apply_status_def spec_observe_def word_le_nat_alt max_def)
  qed
qed (use assms in \<open>auto simp: state_observe_def apply_status_def spec_observe_def word_le_nat_alt
      word_less_nat_alt max_def\<close>)

lemma before_start_abs: "status_wf (before_start s) \<and> status_abs (before_start s) = (unat s, unat s)"
proof (cases "checked_sub s 1")
  case None
  then have "s = 0" by (simp add: checked_sub_None_iff)
  with None show ?thesis by (simp add: before_start_def)
next
  case (Some p)
  then have "unat p = unat s - 1 \<and> 1 \<le> unat s" by (auto dest: unat_checked_sub)
  with Some show ?thesis by (simp add: before_start_def)
qed

lemma failed_refines:
  assumes "status_wf st"
  shows "status_wf (failed_to_process st (x, y)) \<and>
         status_abs (failed_to_process st (x, y)) = spec_failed (status_abs st) (unat x, unat y)"
proof (cases st)
  case (Processing s e)
  with assms have se: "unat s \<le> unat e" by (simp add: word_le_nat_alt)
  show ?thesis
  proof (cases "unat x \<le> unat y \<and> unat x \<le> unat e \<and> unat s \<le> unat y")
    case overlap: True
    show ?thesis
    proof (cases "unat x \<le> unat s")
      case True
      with overlap Processing before_start_abs [of s] show ?thesis
        by (simp add: failed_to_process_def apply_status_def spec_failed_def range_contains_def word_le_nat_alt)
    next
      case False
      then obtain p where p: "checked_sub x 1 = Some p" "unat p = unat x - 1"
        by (metis checked_sub_None_iff le0 option.exhaust unat_0 unat_1 unat_checked_sub)
      with overlap Processing False show ?thesis
        by (auto simp: failed_to_process_def apply_status_def spec_failed_def range_contains_def word_le_nat_alt)
    qed
  next
    case False
    with Processing se show ?thesis
      by (auto simp: failed_to_process_def apply_status_def spec_failed_def range_contains_def word_le_nat_alt)
  qed
qed (simp_all add: failed_to_process_def apply_status_def spec_failed_def)

lemma process_range_abs:
  "status_wf st \<Longrightarrow> process_range st = None \<longleftrightarrow> fst (status_abs st) = snd (status_abs st)"
  by (cases st) (auto simp: word_le_nat_alt)

text \<open>The contract of a height tracker, and what it gives its clients.\<close>

locale height_tracker =
  fixes abs :: "'s \<Rightarrow> nat \<times> nat"
    and ok :: "'s \<Rightarrow> bool"
    and commit :: "'s \<Rightarrow> u32 \<Rightarrow> 's"
    and observe :: "'s \<Rightarrow> u32 \<Rightarrow> 's \<times> bool"
    and failed :: "'s \<Rightarrow> u32 \<times> u32 \<Rightarrow> 's"
  assumes commit_ok: "ok s \<Longrightarrow> ok (commit s h) \<and> abs (commit s h) = spec_commit (abs s) (unat h)"
    and observe_ok: "ok s \<Longrightarrow> ok (fst (observe s h)) \<and> abs (fst (observe s h)) = spec_observe (abs s) (unat h)"
    and failed_ok: "ok s \<Longrightarrow> ok (failed s (x, y)) \<and> abs (failed s (x, y)) = spec_failed (abs s) (unat x, unat y)"
begin

lemma commits_ok:
  assumes "ok s" "\<forall>i < length hs. unat (hs ! i) = fst (abs s) + i"
  shows "ok (foldl commit s hs) \<and>
         abs (foldl commit s hs) = (fst (abs s) + length hs, max (snd (abs s)) (fst (abs s) + length hs)) \<or>
         hs = []"
  using assms
proof (induction hs arbitrary: s)
  case Nil
  then show ?case by simp
next
  case (Cons h hs)
  have h: "unat h = fst (abs s)" using Cons.prems(2) by (metis add.right_neutral length_greater_0_conv list.distinct(1) nth_Cons_0)
  have c: "ok (commit s h)" "abs (commit s h) = (Suc (fst (abs s)), max (snd (abs s)) (Suc (fst (abs s))))"
    using commit_ok [OF Cons.prems(1), of h] by (auto simp: spec_commit_def h)
  have "\<forall>i < length hs. unat (hs ! i) = fst (abs (commit s h)) + i"
    using Cons.prems(2) by (fastforce simp: c)
  from Cons.IH [OF c(1) this] show ?case by (cases "hs = []") (auto simp: c)
qed

end

interpretation sync_state: height_tracker status_abs status_wf state_commit state_observe failed_to_process
  by unfold_locales (use commit_refines observe_refines failed_refines in blast)+

section \<open>Chunks of a range\<close>

definition hset :: "u32 \<times> u32 \<Rightarrow> nat set" where
  "hset r = {unat (fst r) ..< unat (snd r)}"

definition coverage :: "('p, 'h, 'b) cached_data_batch list \<Rightarrow> nat set" where
  "coverage cs = (\<Union>c\<in>set cs. hset (chunk_range c))"

lemma coverage_simps [simp]:
  "coverage [] = {}" "coverage (cs @ ds) = coverage cs \<union> coverage ds"
  "coverage [c] = hset (chunk_range c)" "hset (0, 0) = {}"
  by (auto simp: coverage_def hset_def)

text \<open>A chunk is sound for a cache when it is not longer than allowed and, if it carries data, carries
  exactly what the cache holds at its heights.\<close>

fun batch_from_cache :: "('d \<Rightarrow> ('h, 'b) cached_data) \<Rightarrow> ('h, 'b) block_cache \<Rightarrow> ('p, 'd) batch \<Rightarrow> bool" where
  "batch_from_cache f c bt \<longleftrightarrow>
     length (b_results bt) = range_len (b_range bt) \<and>
     (\<forall>i < length (b_results bt). c (of_nat (unat (fst (b_range bt)) + i)) = Some (f (b_results bt ! i)))"

fun chunk_sound :: "('h, 'b) block_cache \<Rightarrow> u32 \<Rightarrow> ('p, 'h, 'b) cached_data_batch \<Rightarrow> bool" where
  "chunk_sound c k (Headers bt) \<longleftrightarrow> range_len (b_range bt) \<le> unat k \<and> batch_from_cache CHeader c bt"
| "chunk_sound c k (Blocks bt) \<longleftrightarrow> range_len (b_range bt) \<le> unat k \<and> batch_from_cache CBlock c bt"
| "chunk_sound c k (NoData r) \<longleftrightarrow> range_len r \<le> unat k"

lemma step_by_in: "s \<in> set (step_by a b k) \<Longrightarrow> 0 < k \<Longrightarrow> a \<le> s \<and> s < b"
proof -
  assume "s \<in> set (step_by a b k)" and k: "0 < k"
  then obtain i where i: "i < (b - a + k - 1) div k" and s: "s = a + i * k"
    by (auto simp: step_by_def)
  from i k have "Suc i * k \<le> b - a + k - 1"
    by (metis Suc_leI less_eq_div_iff_mult_less_eq)
  then have "i * k + 1 \<le> b - a" using k by simp
  with s show "a \<le> s \<and> s < b" by simp
qed

lemma step_by_covers: "a \<le> x \<Longrightarrow> x < b \<Longrightarrow> 0 < k \<Longrightarrow> \<exists>s\<in>set (step_by a b k). s \<le> x \<and> x < s + k"
proof -
  assume x: "a \<le> x" "x < b" and k: "0 < k"
  let ?i = "(x - a) div k"
  have "?i * k \<le> x - a" by simp
  with x k have "Suc ?i * k \<le> b - a + k - 1" unfolding mult_Suc by linarith
  then have "?i < (b - a + k - 1) div k"
    using k by (metis Suc_le_eq less_eq_div_iff_mult_less_eq)
  then have "a + ?i * k \<in> set (step_by a b k)" by (auto simp: step_by_def)
  moreover have "a + ?i * k \<le> x" using x \<open>?i * k \<le> x - a\<close> by linarith
  moreover have "x - a < ?i * k + k" using k dividend_less_div_times [of k "x - a"] by (simp add: add.commute)
  then have "x < a + ?i * k + k" using x by simp
  ultimately show ?thesis by blast
qed

lemma missing_chunk_range:
  assumes "s < unat (e :: u32)"
  shows "unat (of_nat s :: u32) = s \<and>
         unat (min (saturating_add (of_nat s) k) e) = min (s + unat k) (unat e)"
proof -
  have "s < 2 ^ 32" using assms unat_less_exp [of e] by simp
  then have s: "unat (of_nat s :: u32) = s" by (simp add: unat_of_nat take_bit_nat_eq_self)
  have "unat e \<le> 2 ^ LENGTH(32) - 1" by (rule unat_le_exp)
  then have "unat (min (saturating_add (of_nat s) k) e) = min (s + unat k) (unat e)"
    by (simp only: unat_min unat_saturating_add s min.assoc min.absorb2)
  with s show ?thesis by blast
qed

lemma missing_chunks_mem:
  assumes "c \<in> set (missing_chunks a h k e)" "k \<noteq> 0" "h \<le> e"
  obtains s where "unat a \<le> s" "s < unat h" "c = NoData (of_nat s, min (saturating_add (of_nat s) k) e)"
    "hset (chunk_range c) = {s ..< min (s + unat k) (unat e)}"
    "s \<in> set (step_by (unat a) (unat h) (unat k))"
proof -
  from assms(1) obtain s where s: "s \<in> set (step_by (unat a) (unat h) (unat k))"
    and c: "c = NoData (of_nat s, min (saturating_add (of_nat s) k) e)"
    by (auto simp: missing_chunks_def Let_def)
  have "0 < unat k" using assms(2) by (simp add: unat_gt_0)
  with step_by_in [OF s] have "unat a \<le> s" "s < unat h" by simp_all
  moreover from this have "s < unat e" using assms(3) by (simp add: word_le_nat_alt)
  ultimately show ?thesis using that s c missing_chunk_range [of s e k] by (simp add: hset_def)
qed

lemma coverage_missing:
  assumes "k \<noteq> 0" "h \<le> e"
  shows "{unat a ..< unat h} \<subseteq> coverage (missing_chunks a h k e)"
    and "coverage (missing_chunks a h k e) \<subseteq> {unat a ..< unat e}"
proof -
  show "{unat a ..< unat h} \<subseteq> coverage (missing_chunks a h k e)"
  proof
    fix x assume x: "x \<in> {unat a ..< unat h}"
    have "0 < unat k" using assms(1) by (simp add: unat_gt_0)
    with x step_by_covers obtain s where s: "s \<in> set (step_by (unat a) (unat h) (unat k))" "s \<le> x" "x < s + unat k"
      by (metis atLeastLessThan_iff)
    have xe: "x < unat e" using x assms(2) by (simp add: word_le_nat_alt)
    with s missing_chunk_range [of s e k]
    have "x \<in> hset (chunk_range (NoData (of_nat s, min (saturating_add (of_nat s) k) e)))" by (simp add: hset_def)
    with s(1) show "x \<in> coverage (missing_chunks a h k e)"
      by (force simp: coverage_def missing_chunks_def Let_def)
  qed
  show "coverage (missing_chunks a h k e) \<subseteq> {unat a ..< unat e}"
  proof
    fix x assume "x \<in> coverage (missing_chunks a h k e)"
    then show "x \<in> {unat a ..< unat e}"
      unfolding coverage_def
    proof
      fix ch assume ch: "ch \<in> set (missing_chunks a h k e)" "x \<in> hset (chunk_range ch)"
      show ?thesis
        by (rule missing_chunks_mem [OF ch(1) assms]) (use ch(2) in auto)
    qed
  qed
qed

lemma missing_chunks_sound:
  fixes c :: "('h, 'b) block_cache"
  assumes "k \<noteq> 0" "h \<le> e"
  shows "list_all (chunk_sound c k) (missing_chunks a h k e)"
  unfolding list_all_iff
proof
  fix ch assume ch: "ch \<in> set (missing_chunks a h k e :: ('p, 'h, 'b) cached_data_batch list)"
  show "chunk_sound c k ch"
  proof (rule missing_chunks_mem [OF ch assms])
    fix s assume "s < unat h" "ch = NoData (of_nat s, min (saturating_add (of_nat s) k) e)"
    then show ?thesis
      using missing_chunk_range [of s e k] assms(2) by (auto simp: range_len_def word_le_nat_alt)
  qed
qed

text \<open>The chunk under construction: none, or one that ends where the loop stands.\<close>

definition open_chunk :: "('h, 'b) block_cache \<Rightarrow> u32 \<Rightarrow> u32 \<Rightarrow> ('p, 'h, 'b) cached_data_batch \<Rightarrow> bool" where
  "open_chunk c k h ch \<longleftrightarrow>
     ch = NoData (0, 0) \<or>
     (\<nexists>r. ch = NoData r) \<and> chunk_sound c k ch \<and> fst (chunk_range ch) < snd (chunk_range ch) \<and> snd (chunk_range ch) = h"

lemma single_batch_range:
  assumes "unat (h :: u32) < 2 ^ 32 - 1"
  shows "range_len (b_range (single_batch h x)) = 1" "hset (b_range (single_batch h x)) = {unat h}"
    "fst (b_range (single_batch h x)) < saturating_add h 1"
    "snd (b_range (single_batch h x)) = saturating_add h 1"
  using assms by (auto simp: single_batch_def range_len_def hset_def rust_arith word_less_nat_alt)

lemma single_batch_from_cache:
  "unat (h :: u32) < 2 ^ 32 - 1 \<Longrightarrow> c h = Some (f x) \<Longrightarrow> batch_from_cache f c (single_batch h x)"
  by (simp add: single_batch_range) (simp add: single_batch_def)

lemma extend_batch_range:
  assumes "unat (h :: u32) < 2 ^ 32 - 1" "fst (b_range bt) < snd (b_range bt)" "snd (b_range bt) = h"
  shows "range_len (b_range (extend_batch bt x)) = Suc (range_len (b_range bt))"
    "hset (b_range (extend_batch bt x)) = insert (unat h) (hset (b_range bt))"
    "fst (b_range (extend_batch bt x)) < saturating_add h 1"
    "snd (b_range (extend_batch bt x)) = saturating_add h 1"
proof -
  have "unat (saturating_add h 1) = Suc (unat h)" using assms(1) by (simp add: rust_arith)
  moreover have "unat (fst (b_range bt)) < unat h" using assms(2,3) by (simp add: word_less_nat_alt)
  ultimately show "range_len (b_range (extend_batch bt x)) = Suc (range_len (b_range bt))"
    "hset (b_range (extend_batch bt x)) = insert (unat h) (hset (b_range bt))"
    "fst (b_range (extend_batch bt x)) < saturating_add h 1"
    "snd (b_range (extend_batch bt x)) = saturating_add h 1"
    using assms(3) by (auto simp: extend_batch_def range_len_def hset_def word_less_nat_alt)
qed

lemma extend_batch_from_cache:
  assumes "unat (h :: u32) < 2 ^ 32 - 1" "fst (b_range bt) < snd (b_range bt)" "snd (b_range bt) = h"
    "c h = Some (f x)" "batch_from_cache f c bt"
  shows "batch_from_cache f c (extend_batch bt x)"
proof -
  have "unat (fst (b_range bt)) < unat h" using assms(2,3) by (simp add: word_less_nat_alt)
  then have "unat (fst (b_range bt)) + length (b_results bt) = unat h"
    using assms(3,5) by (simp add: range_len_def)
  then have "c (of_nat (unat (fst (b_range bt)) + length (b_results bt))) = Some (f x)"
    using assms(4) by simp
  then show ?thesis
    using assms(5) by (simp add: extend_batch_range [OF assms(1-3)])
      (auto simp: extend_batch_def nth_append less_Suc_eq)
qed

definition chunk_step ::
  "('h, 'b) block_cache \<Rightarrow> u32 \<Rightarrow> u32 \<Rightarrow> ('p, 'h, 'b) cached_data_batch
     \<Rightarrow> ('p, 'h, 'b) cached_data_batch list \<times> ('p, 'h, 'b) cached_data_batch \<Rightarrow> bool" where
  "chunk_step c k h ch r \<longleftrightarrow>
     coverage (fst r) \<union> hset (chunk_range (snd r)) = insert (unat h) (hset (chunk_range ch)) \<and>
     list_all (chunk_sound c k) (fst r) \<and> open_chunk c k (saturating_add h 1) (snd r)"

lemma chunk_step_single:
  assumes "unat h < 2 ^ 32 - 1" "k \<noteq> 0" "coverage pushed = hset (chunk_range ch)" "list_all (chunk_sound c k) pushed"
  shows "c h = Some (CHeader x) \<Longrightarrow> chunk_step c k h ch (pushed, Headers (single_batch h x))"
    and "c h = Some (CBlock y) \<Longrightarrow> chunk_step c k h ch (pushed, Blocks (single_batch h y))"
proof -
  have k: "Suc 0 \<le> unat k" using assms(2) by (simp add: unat_gt_0 Suc_le_eq)
  show "c h = Some (CHeader x) \<Longrightarrow> chunk_step c k h ch (pushed, Headers (single_batch h x))"
    and "c h = Some (CBlock y) \<Longrightarrow> chunk_step c k h ch (pushed, Blocks (single_batch h y))"
    using assms(1,3,4) k
    by (simp_all add: chunk_step_def open_chunk_def single_batch_range single_batch_from_cache
        del: batch_from_cache.simps)
qed

lemma chunk_step_extend:
  assumes "unat h < 2 ^ 32 - 1"
  shows "open_chunk c k h (Headers bt) \<Longrightarrow> range_len (b_range bt) \<noteq> unat k \<Longrightarrow> c h = Some (CHeader x) \<Longrightarrow>
           chunk_step c k h (Headers bt) ([], Headers (extend_batch bt x))"
    and "open_chunk c k h (Blocks bb) \<Longrightarrow> range_len (b_range bb) \<noteq> unat k \<Longrightarrow> c h = Some (CBlock y) \<Longrightarrow>
           chunk_step c k h (Blocks bb) ([], Blocks (extend_batch bb y))"
  using assms
  by (auto simp: chunk_step_def open_chunk_def extend_batch_range [OF _ _ refl] extend_batch_from_cache [OF _ _ refl]
      simp del: batch_from_cache.simps)

lemma handle_current_chunk_step:
  assumes "open_chunk c k h ch" "c h = Some d" "unat h < 2 ^ 32 - 1" "k \<noteq> 0"
  shows "chunk_step c k h ch (handle_current_chunk ch d h k)"
proof -
  have pushed: "list_all (chunk_sound c k) [ch]" if "\<nexists>r. ch = NoData r"
    using assms(1) that by (auto simp: open_chunk_def)
  have none: "coverage [] = hset (chunk_range ch)" if "ch = NoData r" for r
    using assms(1) that by (auto simp: open_chunk_def)
  note single = chunk_step_single [OF assms(3,4)] and ext = chunk_step_extend [OF assms(3)]
  show ?thesis
  proof (cases ch)
    case (Headers bt)
    with assms(1,2) pushed show ?thesis
      by (cases d) (simp_all add: single ext del: chunk_sound.simps)
  next
    case (Blocks bt)
    with assms(1,2) pushed show ?thesis
      by (cases d) (simp_all add: single ext del: chunk_sound.simps)
  next
    case (NoData r)
    with assms(2) none show ?thesis by (cases d) (simp_all add: single)
  qed
qed

definition loop_inv ::
  "('h, 'b) block_cache \<Rightarrow> u32 \<Rightarrow> nat \<Rightarrow> u32
     \<Rightarrow> u32 \<times> ('p, 'h, 'b) cached_data_batch \<times> ('p, 'h, 'b) cached_data_batch list \<Rightarrow> bool" where
  "loop_inv c k a e q \<longleftrightarrow>
     (case q of (cur, current, chunks) \<Rightarrow>
        cur \<le> e \<and> {a ..< unat cur} \<subseteq> coverage chunks \<union> hset (chunk_range current) \<and>
        coverage chunks \<union> hset (chunk_range current) \<subseteq> {a ..< unat e} \<and> a \<le> unat cur \<and>
        list_all (chunk_sound c k) chunks \<and> open_chunk c k cur current)"

lemma flush_current:
  assumes "open_chunk c k h ch"
  shows "coverage (if is_range_empty ch then chunks else chunks @ [ch]) = coverage chunks \<union> hset (chunk_range ch)"
    and "list_all (chunk_sound c k) chunks \<Longrightarrow>
           list_all (chunk_sound c k) (if is_range_empty ch then chunks else chunks @ [ch])"
  using assms by (auto simp: open_chunk_def is_range_empty_def)

lemma loop_step:
  assumes inv: "loop_inv c k a e (cur, current, chunks)"
    and h: "cur \<le> h" "h < e" "c h = Some d" and k: "k \<noteq> 0"
    and r: "(current1, chunks1) =
         (if h \<noteq> cur
          then (NoData (0, 0), (if is_range_empty current then chunks else chunks @ [current])
                                 @ missing_chunks cur h k e)
          else (current, chunks))"
    and r2: "handle_current_chunk current1 d h k = (pushed, current2)"
  shows "loop_inv c k a e (saturating_add h 1, current2, chunks1 @ pushed)"
proof -
  let ?fl = "if is_range_empty current then chunks else chunks @ [current]"
  have hlt: "unat h < 2 ^ 32 - 1" using h(2) unat_le_exp [of e] by (simp add: word_less_nat_alt)
  have S: "unat (saturating_add h 1) = Suc (unat h)" using hlt by (simp add: rust_arith)
  have he: "h \<le> e" using h(2) by simp
  have op: "open_chunk c k cur current" and snd_ch: "list_all (chunk_sound c k) chunks"
    and cov: "{a ..< unat cur} \<subseteq> coverage chunks \<union> hset (chunk_range current)"
      "coverage chunks \<union> hset (chunk_range current) \<subseteq> {a ..< unat e}" "a \<le> unat cur"
    using inv by (simp_all add: loop_inv_def)
  have mid: "open_chunk c k h current1 \<and> list_all (chunk_sound c k) chunks1 \<and>
      {a ..< unat h} \<subseteq> coverage chunks1 \<union> hset (chunk_range current1) \<and>
      coverage chunks1 \<union> hset (chunk_range current1) \<subseteq> {a ..< unat e}"
  proof (cases "h = cur")
    case True
    with r op snd_ch cov show ?thesis by simp
  next
    case False
    with r have cur1: "current1 = NoData (0, 0)" and ch1: "chunks1 = ?fl @ missing_chunks cur h k e" by auto
    have "{a ..< unat h} \<subseteq> {a ..< unat cur} \<union> {unat cur ..< unat h}" by auto
    with cov coverage_missing [OF k he, of cur] show ?thesis
      using flush_current(2) [OF op snd_ch] missing_chunks_sound [OF k he, of c cur]
      by (simp only: cur1 ch1 coverage_simps flush_current(1) [OF op] list_all_append chunk_range.simps)
         (auto simp: open_chunk_def)
  qed
  from handle_current_chunk_step [of c k h current1 d] mid h(3) hlt k r2
  have st: "coverage pushed \<union> hset (chunk_range current2) = insert (unat h) (hset (chunk_range current1))"
    "list_all (chunk_sound c k) pushed" "open_chunk c k (saturating_add h 1) current2"
    by (simp_all add: chunk_step_def)
  have "coverage (chunks1 @ pushed) \<union> hset (chunk_range current2)
      = insert (unat h) (coverage chunks1 \<union> hset (chunk_range current1))"
    using st(1) by auto
  moreover have "unat h < unat e" "a \<le> unat h" using h cov(3) by (simp_all add: word_less_nat_alt word_le_nat_alt)
  ultimately show ?thesis
    using mid st S by (auto simp: loop_inv_def word_le_nat_alt less_Suc_eq)
qed

lemma chunk_loop_inv:
  assumes "loop_inv c k a e (cur, current, chunks)" "k \<noteq> 0"
    and "sorted_wrt (\<lambda>p q. fst p < fst q) rest"
    and "\<forall>(h, d) \<in> set rest. cur \<le> h \<and> h < e \<and> c h = Some d"
  shows "loop_inv c k a e (chunk_loop k e rest cur current chunks)"
  using assms
proof (induction rest arbitrary: cur current chunks)
  case Nil
  then show ?case by simp
next
  case (Cons p rest)
  obtain h d where p: "p = (h, d)" by (cases p)
  obtain current1 chunks1 where r: "(current1, chunks1) =
         (if h \<noteq> cur
          then (NoData (0, 0), (if is_range_empty current then chunks else chunks @ [current])
                                 @ missing_chunks cur h k e)
          else (current, chunks))"
    by (metis surj_pair)
  obtain pushed current2 where r2: "handle_current_chunk current1 d h k = (pushed, current2)" by fastforce
  have h: "cur \<le> h" "h < e" "c h = Some d" using Cons.prems(4) by (auto simp: p)
  have inv: "loop_inv c k a e (saturating_add h 1, current2, chunks1 @ pushed)"
    by (rule loop_step [OF Cons.prems(1) h Cons.prems(2) r r2])
  have "saturating_add h 1 \<le> h'" if "h < h'" "h' < e" for h'
    using that by (simp add: word_le_nat_alt word_less_nat_alt rust_arith min_def)
  then have rest: "\<forall>(h', d') \<in> set rest. saturating_add h 1 \<le> h' \<and> h' < e \<and> c h' = Some d'"
    using Cons.prems(3,4) by (fastforce simp: p)
  have "chunk_loop k e (p # rest) cur current chunks =
      chunk_loop k e rest (saturating_add h 1) current2 (chunks1 @ pushed)"
    by (simp add: p Let_def r [symmetric] r2)
  then show ?case
    using Cons.IH [OF inv Cons.prems(2) _ rest] Cons.prems(3) by simp
qed

lemma collect_cache_data_sorted: "sorted_wrt (\<lambda>p q. fst p < fst q) (collect_cache_data c (a, b))"
proof -
  have "sorted_wrt (<) (heights_between (unat a) (Suc (unat b)))"
  proof -
    have lt: "x < 2 ^ 32" if "x \<in> set [unat a ..< Suc (unat b)]" for x
      using that unat_less_exp [of b] by (simp add: less_Suc_eq) linarith
    have "sorted_wrt (\<lambda>x y. (of_nat x :: u32) < of_nat y) [unat a ..< Suc (unat b)]"
    proof (rule sorted_wrt_mono_rel [OF _ sorted_wrt_upt])
      fix x y assume "x \<in> set [unat a ..< Suc (unat b)]" "y \<in> set [unat a ..< Suc (unat b)]" "x < y"
      then show "(of_nat x :: u32) < of_nat y"
        using lt [of x] lt [of y] by (simp add: word_less_nat_alt unat_of_nat take_bit_nat_eq_self)
    qed
    then show ?thesis by (simp add: heights_between_def sorted_wrt_map)
  qed
  then have "sorted_wrt (<) (filter (\<lambda>h. map_option (Pair h) (c h) \<noteq> None) (heights_between (unat a) (Suc (unat b))))"
    by (rule sorted_wrt_filter)
  then have "sorted_wrt (\<lambda>x y. fst (the (map_option (Pair x) (c x))) < fst (the (map_option (Pair y) (c y))))
      (filter (\<lambda>h. map_option (Pair h) (c h) \<noteq> None) (heights_between (unat a) (Suc (unat b))))"
    by (rule sorted_wrt_mono_rel [rotated]) auto
  then show ?thesis
    by (simp add: collect_cache_data_def List.map_filter_def sorted_wrt_map)
qed

lemma collect_cache_data_mem:
  assumes "(h, d) \<in> set (collect_cache_data c (a, b))"
  shows "a \<le> h \<and> h \<le> b \<and> c h = Some d"
proof -
  from assms obtain x where x: "x \<in> {unat a ..< Suc (unat b)}" "h = of_nat x" "c h = Some d"
    by (auto simp: collect_cache_data_def List.map_filter_def heights_between_def simp del: upt_Suc)
  moreover have "x < 2 ^ 32" using x(1) unat_less_exp [of b] by simp
  ultimately show ?thesis
    by (auto simp: word_le_nat_alt unat_of_nat take_bit_nat_eq_self less_Suc_eq_le)
qed

lemma get_chunks_covers:
  fixes c :: "('h, 'b) block_cache"
  assumes "a \<le> b" "b \<noteq> - 1" "k \<noteq> 0"
  shows "let chunks = get_chunks c (a, b) k :: ('p, 'h, 'b) cached_data_batch list
         in coverage chunks = {unat a ..< Suc (unat b)} \<and> list_all (chunk_sound c k) chunks"
proof -
  let ?e = "saturating_add b 1"
  have e: "unat ?e = Suc (unat b)"
    using assms(2) unat_le_exp [of b] by (auto simp: rust_arith word_unat_eq_iff unat_minus_one_word min_def)
  have init: "loop_inv c k (unat a) ?e (a, NoData (0, 0) :: ('p, 'h, 'b) cached_data_batch, [])"
    using assms(1) by (simp add: loop_inv_def open_chunk_def word_le_nat_alt e)
  have mem: "\<forall>(h, d) \<in> set (collect_cache_data c (a, b)). a \<le> h \<and> h < ?e \<and> c h = Some d"
    using collect_cache_data_mem [of _ _ c a b] by (fastforce simp: word_le_nat_alt word_less_nat_alt e)
  obtain cur current chunks where r: "chunk_loop k ?e (collect_cache_data c (a, b)) a
      (NoData (0, 0) :: ('p, 'h, 'b) cached_data_batch) []
      = (cur, current, chunks)" by (metis surj_pair)
  with chunk_loop_inv [OF init assms(3) collect_cache_data_sorted mem]
  have inv: "loop_inv c k (unat a) ?e (cur, current, chunks)" by simp
  then have op: "open_chunk c k cur current" and sn: "list_all (chunk_sound c k) chunks" and ce: "cur \<le> ?e"
    by (simp_all add: loop_inv_def)
  define chs :: "('p, 'h, 'b) cached_data_batch list" where "chs = get_chunks c (a, b) k"
  define missing :: "('p, 'h, 'b) cached_data_batch list" where "missing = missing_chunks cur ?e k ?e"
  have g: "chs = (if is_range_empty current then chunks else chunks @ [current]) @ missing"
    by (simp add: chs_def missing_def get_chunks_def r Let_def)
  have "coverage missing = {unat cur ..< unat ?e}"
    unfolding missing_def using coverage_missing [OF assms(3) order_refl, of cur ?e] by blast
  moreover have "{unat a ..< unat ?e} = {unat a ..< unat cur} \<union> {unat cur ..< unat ?e}"
    using inv by (auto simp: loop_inv_def word_le_nat_alt)
  moreover have "{unat a ..< unat cur} \<subseteq> coverage chunks \<union> hset (chunk_range current)"
    "coverage chunks \<union> hset (chunk_range current) \<subseteq> {unat a ..< unat ?e}"
    using inv by (simp_all add: loop_inv_def)
  ultimately have "coverage chs = {unat a ..< unat ?e}"
    unfolding g coverage_simps flush_current(1) [OF op] by blast
  moreover have "list_all (chunk_sound c k) chs"
    unfolding g list_all_append missing_def
    using flush_current(2) [OF op sn] missing_chunks_sound [OF assms(3) order_refl] by blast
  ultimately show ?thesis by (simp add: e Let_def chs_def)
qed

section \<open>Import attempts\<close>

text \<open>The behaviour of the importer port the service relies on: it accepts a block only at the first
  height its chain does not have yet, which then moves up by one, and a refused block changes
  nothing.\<close>

definition appends_in_order :: "('b, 'x) importer_port \<Rightarrow> ('b \<Rightarrow> u32) \<Rightarrow> ('x \<Rightarrow> nat) \<Rightarrow> bool" where
  "appends_in_order executor height_of next_height \<longleftrightarrow>
     (\<forall>b x. case executor b x of
              (x', True) \<Rightarrow> unat (height_of b) = next_height x \<and> next_height x' = Suc (next_height x)
            | (x', False) \<Rightarrow> next_height x' = next_height x)"

definition follows_chain :: "('x \<Rightarrow> nat) \<Rightarrow> nat \<Rightarrow> ('p, 'h, 'b, 'x) import_state \<Rightarrow> bool" where
  "follows_chain next_height t s \<longleftrightarrow>
     status_wf (is_status s) \<and>
     status_abs (is_status s) = (next_height (is_chain s), max t (next_height (is_chain s)))"

lemma execute_batch_follows:
  assumes "appends_in_order executor height_of nx" "follows_chain nx t s"
    "execute_batch stopping executor height_of bs s = (s', n)"
  shows "follows_chain nx t s' \<and> nx (is_chain s') = nx (is_chain s) + n"
  using assms(2,3)
proof (induction bs arbitrary: s s' n)
  case Nil
  then show ?case by simp
next
  case (Cons b bs)
  show ?case
  proof (cases "stopping b")
    case True
    with Cons.prems show ?thesis by simp
  next
    case False
    obtain x ok where ex: "executor b (is_chain s) = (x, ok)" by fastforce
    define s1 where "s1 = s\<lparr>is_status := (if ok then state_commit (is_status s) (height_of b) else is_status s),
        is_chain := x, is_cache := remove_element (height_of b) (is_cache s)\<rparr>"
    have port: "if ok then unat (height_of b) = nx (is_chain s) \<and> nx x = Suc (nx (is_chain s)) else nx x = nx (is_chain s)"
      using assms(1) ex unfolding appends_in_order_def by (auto split: prod.splits bool.splits dest: spec)
    have f1: "follows_chain nx t s1"
      using Cons.prems(1) port commit_refines [of "is_status s" "height_of b"]
      by (cases ok) (auto simp: follows_chain_def s1_def spec_commit_def max_def)
    show ?thesis
    proof (cases ok)
      case True
      obtain s2 m where r: "execute_batch stopping executor height_of bs s1 = (s2, m)" by fastforce
      have "s' = s2 \<and> n = Suc m"
        using Cons.prems(2) False ex True r by (simp add: execute_and_commit_def s1_def [symmetric] s1_def)
      with Cons.IH [OF f1 r] port True show ?thesis by (simp add: s1_def)
    next
      case bad: False
      then have "s' = s1 \<and> n = 0"
        using Cons.prems(2) False ex by (auto simp: execute_and_commit_def s1_def)
      with f1 port bad show ?thesis by (simp add: s1_def)
    qed
  qed
qed

lemma launch_stream_follows:
  assumes "appends_in_order executor height_of nx" "follows_chain nx t s"
    "launch_stream stopping executor height_of bbs s = (s', n)"
  shows "follows_chain nx t s' \<and> nx (is_chain s') = nx (is_chain s) + n"
  using assms(2,3)
proof (induction bbs arbitrary: s s' n)
  case Nil
  then show ?case by simp
next
  case (Cons bb bbs)
  obtain s1 k where r: "execute_batch stopping executor height_of (b_results bb) s = (s1, k)" by fastforce
  note f1 = execute_batch_follows [OF assms(1) Cons.prems(1) r]
  show ?case
  proof (cases "k < range_len (b_range bb)")
    case True
    with Cons.prems r f1 show ?thesis by simp
  next
    case False
    let ?s2 = "s1\<lparr>is_reports := is_reports s1 @ report_peer (b_peer bb) SuccessfulBlockImport\<rparr>"
    obtain s3 m where r2: "launch_stream stopping executor height_of bbs ?s2 = (s3, m)" by fastforce
    have "follows_chain nx t ?s2" using f1 by (simp add: follows_chain_def)
    from Cons.IH [OF this r2] Cons.prems(2) r r2 False f1 show ?thesis by auto
  qed
qed

lemma import_inner_follows:
  assumes "appends_in_order executor (sealed_block_height so) nx"
    and "is_status s = Processing a b" "a \<le> b" "nx (is_chain s) = unat a"
    and "import_inner ahead so p2p consensus stopping executor k s = (s', r)"
  shows "process_range (is_status s') = None \<and>
         fst (status_abs (is_status s')) = nx (is_chain s') \<and> unat a \<le> nx (is_chain s') \<and>
         (r = Inr () \<longleftrightarrow> unat b < nx (is_chain s'))"
proof -
  obtain batches c rep where fb: "fetch_batches ahead so p2p consensus (get_chunks (is_cache s) (a, b) k) (is_cache s)
      = (batches, c, rep)" by (metis surj_pair)
  define s0 where "s0 = s\<lparr>is_cache := c, is_reports := is_reports s @ rep\<rparr>"
  obtain s1 n where ls: "launch_stream stopping executor (sealed_block_height so) batches s0 = (s1, n)" by fastforce
  have "follows_chain nx (Suc (unat b)) s0"
    using assms(2-4) by (simp add: follows_chain_def s0_def word_le_nat_alt max_def)
  from launch_stream_follows [OF assms(1) this ls]
  have f: "follows_chain nx (Suc (unat b)) s1" and cnt: "nx (is_chain s1) = unat a + n"
    using assms(4) by (auto simp: s0_def)
  have wf: "status_wf (is_status s1)" and ab: "status_abs (is_status s1) = (unat a + n, max (Suc (unat b)) (unat a + n))"
    using f cnt by (simp_all add: follows_chain_def)
  have res: "(s', r) = (if n < unat b - unat a + 1
      then (s1\<lparr>is_status := failed_to_process (is_status s1) (saturating_add a (of_nat n), b)\<rparr>,
            Inl (saturating_add a (of_nat n), b)) else (s1, Inr ()))"
    using assms(5) by (auto simp: import_inner_def assms(2) fb s0_def [symmetric] ls Let_def split: if_splits)
  show ?thesis
  proof (cases "n < unat b - unat a + 1")
    case True
    have le: "unat a + n \<le> unat b" using True assms(3) by (simp add: word_le_nat_alt)
    then have "n < 2 ^ 32" "unat a + n \<le> 2 ^ 32 - 1" using unat_less_exp [of b] by simp_all
    then have sat: "unat (saturating_add a (of_nat n)) = unat a + n"
      by (simp add: unat_saturating_add unat_of_nat take_bit_nat_eq_self)
    let ?st = "failed_to_process (is_status s1) (saturating_add a (of_nat n), b)"
    have "status_wf ?st \<and> status_abs ?st = spec_failed (unat a + n, max (Suc (unat b)) (unat a + n)) (unat a + n, unat b)"
      using failed_refines [OF wf, of "saturating_add a (of_nat n)" b] by (simp add: ab sat)
    then have "status_wf ?st" "status_abs ?st = (unat a + n, unat a + n)"
      using le by (auto simp: spec_failed_def max_def)
    then have "process_range ?st = None \<and> fst (status_abs ?st) = unat a + n"
      by (simp add: process_range_abs)
    with res True cnt le show ?thesis by simp
  next
    case False
    then have "unat b < unat a + n" using assms(3) by (simp add: word_le_nat_alt)
    with res False cnt ab wf show ?thesis by (simp add: process_range_abs max_def)
  qed
qed

section \<open>Properties\<close>

text \<open>C15: The sync state machine implements its specification. A well-formed status stands for the
  first uncommitted and the first unrequested height; committing raises both past the committed
  height, observing raises only the second, and a failure of a range cuts the second back to where
  the failed range starts, never touching what is committed. \<open>observe\<close> reports a change exactly when
  there is new work. Well-formedness is kept.\<close>

theorem sync_state_refines_spec:
  assumes "status_wf st"
  shows "(status_wf (state_commit st h) \<and> status_abs (state_commit st h) = spec_commit (status_abs st) (unat h)) \<and>
         (status_wf (fst (state_observe st h)) \<and>
          status_abs (fst (state_observe st h)) = spec_observe (status_abs st) (unat h) \<and>
          (snd (state_observe st h) \<longleftrightarrow> snd (status_abs st) < Suc (unat h))) \<and>
         (status_wf (failed_to_process st (x, y)) \<and>
          status_abs (failed_to_process st (x, y)) = spec_failed (status_abs st) (unat x, unat y))"
  using commit_refines [OF assms] observe_refines [OF assms] failed_refines [OF assms] by blast

theorem sync_state_refines_spec_witness:
  "status_abs (failed_to_process (Processing 3 9) (5, 20)) = (3, 5) \<and>
   status_abs (state_commit (Processing 3 9) 7) = (8, 10)"
  using sync_state_refines_spec [of "Processing 3 9" 7 5 20]
  by (simp add: spec_failed_def spec_commit_def)

text \<open>C16: Splitting a range into chunks loses nothing. For a non-empty range that does not end at
  the last representable height, the chunks together cover exactly the requested heights; each is at
  most as long as allowed, and a chunk of cached headers or blocks holds exactly the cache entries of
  its heights, in order.\<close>

theorem get_chunks_complete:
  assumes "a \<le> b" "b \<noteq> - 1" "k \<noteq> 0"
  shows "let chunks = get_chunks c (a, b) k
         in coverage chunks = {unat a ..< Suc (unat b)} \<and> list_all (chunk_sound c k) chunks"
  by (rule get_chunks_covers [OF assms])

theorem get_chunks_complete_witness:
  "coverage (get_chunks [5 \<mapsto> CBlock ()] (4, 6) 3 :: (unit, unit, unit) cached_data_batch list) = {4 ..< 7}"
proof -
  have "let chunks = get_chunks [5 \<mapsto> CBlock ()] (4, 6) 3 :: (unit, unit, unit) cached_data_batch list
      in coverage chunks = {unat (4 :: u32) ..< Suc (unat (6 :: u32))} \<and>
         list_all (chunk_sound [5 \<mapsto> CBlock ()] 3) chunks"
    by (rule get_chunks_complete) simp_all
  then show ?thesis by (simp add: Let_def)
qed

text \<open>The chunks may overlap. A chunk of missing heights is cut at the end of the whole range, not
  at the next cached height: with block 5 cached, the range 4 to 6 in chunks of 3 requests 4, 5 and 6
  from the network and then delivers block 5 and height 6 again.\<close>

theorem get_chunks_overlap:
  "get_chunks [5 \<mapsto> CBlock x] (4, 6) 3 =
     [NoData (4, 7), Blocks \<lparr>b_peer = None, b_range = (5, 6), b_results = [x]\<rparr>, NoData (6, 7)]"
  by (simp add: get_chunks_def collect_cache_data_def heights_between_def List.map_filter_def upt_conv_Cons
      missing_chunks_def step_by_def single_batch_def is_range_empty_def rust_eval Let_def)


definition sample_import :: "(nat, u32, u32, nat) import_state" where
  "sample_import = \<lparr>is_status = Processing 4 6, is_cache = [5 \<mapsto> CBlock 5], is_chain = 4, is_reports = []\<rparr>"

definition sample_executor :: "(u32, nat) importer_port" where
  "sample_executor b x = (if unat b = x then (Suc x, True) else (x, False))"

definition sample_peers :: "(nat, u32, unit) p2p_port" where
  "sample_peers =
     \<lparr>p2p_get_sealed_block_headers = (\<lambda>r. Inr (1, Some (heights_between (unat (fst r)) (unat (snd r))))),
      p2p_get_transactions = (\<lambda>r. Inr (1, Some (replicate (range_len r) ()))),
      p2p_get_transactions_from_peer = (\<lambda>p r. Inr (Some (replicate (range_len r) ())))\<rparr>"

definition sample_sealed :: "(u32, u32, unit) sealed_ops" where
  "sample_sealed = \<lparr>sealed_header_height = id, sealed_block_height = id, try_from_executed = (\<lambda>h _. Some h)\<rparr>"


end
