(* ===== verification/Tx_Pool_Types.thy ===== *)
theory Tx_Pool_Types
  imports Prelude
begin

text \<open>
  Data of the transaction pool (crate \<open>services/txpool_v2\<close>): the pool transaction and its
  accessors, the errors, the entry the storage keeps per transaction, the blacklist check and the
  record of outputs of extracted transactions.

  Identifiers are 32-byte values; only their equality and order are used. Inputs and outputs keep
  the fields the pool reads. Instants and durations are natural numbers. An index of an output is
  a \<open>u16\<close>: a checked transaction has at most \<open>2 ^ 16\<close> outputs (\<open>wf_tx\<close>), so the conversions the code
  unwraps do not fail. Assertions that are only compiled into debug builds are not modelled.
\<close>

type_synonym tx_id = "256 word"
type_synonym address = "256 word"
type_synonym asset_id = "256 word"
type_synonym contract_id = "256 word"
type_synonym blob_id = "256 word"
type_synonym nonce = "256 word"
type_synonym utxo_id = "tx_id \<times> u16"
type_synonym instant = nat

section \<open>Transactions\<close>

record coin_input =
  ci_utxo_id :: utxo_id
  ci_owner :: address
  ci_amount :: u64
  ci_asset_id :: asset_id

record message_input =
  mi_nonce :: nonce
  mi_sender :: address
  mi_recipient :: address
  mi_amount :: u64
  mi_data :: "u8 list option"

datatype tx_input =
    CoinSigned coin_input
  | CoinPredicate coin_input
  | ContractInput contract_id
  | MessageCoinSigned message_input
  | MessageCoinPredicate message_input
  | MessageDataSigned message_input
  | MessageDataPredicate message_input

datatype tx_output =
    OutCoin (out_to: address) (out_amount: u64) (out_asset: asset_id)
  | OutContract
  | OutChange
  | OutVariable
  | OutContractCreated contract_id

text \<open>The alternatives of the patterns the code matches inputs with: the two kinds of coins and
  the four kinds of messages are always handled alike.\<close>

datatype input_kind = VCoin coin_input | VMessage message_input | VContract contract_id

fun input_view :: "tx_input \<Rightarrow> input_kind" where
  "input_view (CoinSigned c) = VCoin c"
| "input_view (CoinPredicate c) = VCoin c"
| "input_view (ContractInput c) = VContract c"
| "input_view (MessageCoinSigned m) = VMessage m"
| "input_view (MessageCoinPredicate m) = VMessage m"
| "input_view (MessageDataSigned m) = VMessage m"
| "input_view (MessageDataPredicate m) = VMessage m"

record checked_data =
  cd_id :: tx_id
  cd_max_gas :: u64
  cd_tip :: u64
  cd_inputs :: "tx_input list"
  cd_outputs :: "tx_output list"
  cd_expiration :: u32
  cd_metered_bytes_size :: usize

(* src/crates/types/src/services/txpool.rs:47-56 Metadata *)
record pool_metadata =
  md_version :: u32
  md_size :: "usize option"
  md_max_gas_price :: u64

(* src/crates/types/src/services/txpool.rs:60-75 Metadata::new *)
definition metadata_new :: "u32 \<Rightarrow> usize \<Rightarrow> u64 \<Rightarrow> pool_metadata" where
  "metadata_new version sz max_gas_price =
     \<lparr>md_version = version, md_size = Some sz, md_max_gas_price = max_gas_price\<rparr>"

(* src/crates/types/src/services/txpool.rs:101-112 PoolTransaction *)
datatype pool_tx =
    Script checked_data pool_metadata
  | Create checked_data pool_metadata
  | Upgrade checked_data pool_metadata
  | Upload checked_data pool_metadata
  | Blob blob_id checked_data pool_metadata

fun checked_of :: "pool_tx \<Rightarrow> checked_data" where
  "checked_of (Script c _) = c"
| "checked_of (Create c _) = c"
| "checked_of (Upgrade c _) = c"
| "checked_of (Upload c _) = c"
| "checked_of (Blob _ c _) = c"

fun blob_of :: "pool_tx \<Rightarrow> blob_id option" where
  "blob_of (Blob b _ _) = Some b"
| "blob_of _ = None"

(* src/crates/types/src/services/txpool.rs:179-187 PoolTransaction::metadata_inner *)
fun metadata_inner :: "pool_tx \<Rightarrow> pool_metadata" where
  "metadata_inner (Script _ m) = m"
| "metadata_inner (Create _ m) = m"
| "metadata_inner (Upgrade _ m) = m"
| "metadata_inner (Upload _ m) = m"
| "metadata_inner (Blob _ _ m) = m"

(* src/crates/types/src/services/txpool.rs:121-133 PoolTransaction::metered_bytes_size *)
definition metered_bytes_size :: "pool_tx \<Rightarrow> usize" where
  "metered_bytes_size tx =
     (case md_size (metadata_inner tx) of
        Some sz \<Rightarrow> sz
      | None \<Rightarrow> cd_metered_bytes_size (checked_of tx))"

(* src/crates/types/src/services/txpool.rs:136-144 PoolTransaction::max_gas_price *)
definition tx_max_gas_price :: "pool_tx \<Rightarrow> u64" where
  "tx_max_gas_price tx = md_max_gas_price (metadata_inner tx)"

(* src/crates/types/src/services/txpool.rs:147-155 PoolTransaction::expiration *)
definition tx_expiration :: "pool_tx \<Rightarrow> u32" where
  "tx_expiration tx = cd_expiration (checked_of tx)"

(* src/crates/types/src/services/txpool.rs:191-199 PoolTransaction::id *)
definition tx_id :: "pool_tx \<Rightarrow> tx_id" where
  "tx_id tx = cd_id (checked_of tx)"

(* src/crates/types/src/services/txpool.rs:213-221 PoolTransaction::max_gas *)
definition tx_max_gas :: "pool_tx \<Rightarrow> u64" where
  "tx_max_gas tx = cd_max_gas (checked_of tx)"

(* src/crates/types/src/services/txpool.rs:248-256 PoolTransaction::tip *)
definition tx_tip :: "pool_tx \<Rightarrow> u64" where
  "tx_tip tx = cd_tip (checked_of tx)"

(* src/crates/types/src/services/txpool.rs:268-276 PoolTransaction::inputs *)
definition tx_inputs :: "pool_tx \<Rightarrow> tx_input list" where
  "tx_inputs tx = cd_inputs (checked_of tx)"

(* src/crates/types/src/services/txpool.rs:278-286 PoolTransaction::outputs *)
definition tx_outputs :: "pool_tx \<Rightarrow> tx_output list" where
  "tx_outputs tx = cd_outputs (checked_of tx)"

lemmas tx_access = metered_bytes_size_def tx_max_gas_price_def tx_expiration_def tx_id_def
  tx_max_gas_def tx_tip_def tx_inputs_def tx_outputs_def metadata_new_def

fun spent_coins :: "tx_input list \<Rightarrow> utxo_id list" where
  "spent_coins [] = []"
| "spent_coins (i # is) =
     (case input_view i of VCoin c \<Rightarrow> ci_utxo_id c # spent_coins is | _ \<Rightarrow> spent_coins is)"

fun spent_messages :: "tx_input list \<Rightarrow> nonce list" where
  "spent_messages [] = []"
| "spent_messages (i # is) =
     (case input_view i of VMessage m \<Rightarrow> mi_nonce m # spent_messages is | _ \<Rightarrow> spent_messages is)"

fun created_contracts :: "tx_output list \<Rightarrow> contract_id list" where
  "created_contracts [] = []"
| "created_contracts (out # outs) =
     (case out of OutContractCreated c \<Rightarrow> c # created_contracts outs | _ \<Rightarrow> created_contracts outs)"

text \<open>The outputs with their positions, as \<open>outputs().iter().enumerate()\<close> with the conversion of
  the position to \<open>u16\<close> yields them.\<close>

fun enumerate_from :: "nat \<Rightarrow> 'a list \<Rightarrow> (u16 \<times> 'a) list" where
  "enumerate_from n [] = []"
| "enumerate_from n (x # xs) = (of_nat n, x) # enumerate_from (Suc n) xs"

definition wf_tx :: "pool_tx \<Rightarrow> bool" where
  "wf_tx tx \<longleftrightarrow> length (tx_outputs tx) \<le> 2 ^ 16"

lemma length_enumerate_from [simp]: "length (enumerate_from n xs) = length xs"
  by (induction xs arbitrary: n) auto

lemma nth_enumerate_from: "k < length xs \<Longrightarrow> enumerate_from n xs ! k = (of_nat (n + k), xs ! k)"
  by (induction xs arbitrary: n k) (auto simp: nth_Cons split: nat.splits)

lemma set_enumerate_from:
  "(i, out) \<in> set (enumerate_from n xs) \<longleftrightarrow> (\<exists>k<length xs. i = of_nat (n + k) \<and> xs ! k = out)"
  by (auto simp: in_set_conv_nth nth_enumerate_from)

lemma map_snd_enumerate_from [simp]: "map snd (enumerate_from n xs) = xs"
  by (induction xs arbitrary: n) auto

lemma distinct_enumerate_from:
  "n + length xs \<le> 2 ^ 16 \<Longrightarrow> distinct (map fst (enumerate_from n xs))"
proof (induction xs arbitrary: n)
  case (Cons x xs)
  have False if "(of_nat n :: u16) = of_nat (Suc n + k)" "k < length xs" for k
    using of_nat_word_inj [OF that(1)] Cons.prems that(2) by simp
  then have "(of_nat n :: u16) \<notin> fst ` set (enumerate_from (Suc n) xs)"
    by (auto simp: set_enumerate_from)
  then show ?case
    using Cons by simp
qed simp

section \<open>Errors\<close>

(* src/crates/services/txpool_v2/src/pending_pool.rs:64-68 MissingInput *)
datatype missing_input = MissingUtxo utxo_id | MissingContract contract_id

(* src/crates/services/txpool_v2/src/error.rs:76-86 BlacklistedError *)
datatype blacklisted_error =
    BlacklistedUTXO utxo_id
  | BlacklistedOwner address
  | BlacklistedContract contract_id
  | BlacklistedMessage nonce

(* src/crates/services/txpool_v2/src/error.rs:88-97 DependencyError *)
datatype dependency_error =
    NotInsertedCollisionIsDependency
  | NotInsertedChainDependencyTooBig
  | DependentTransactionIsADiamondDeath

(* src/crates/services/txpool_v2/src/error.rs:128-164 InputValidationError *)
datatype input_validation_error =
    NotInsertedIoWrongOwner
  | NotInsertedIoWrongAmount
  | NotInsertedIoWrongAssetId
  | NotInsertedIoMessageMismatch
  | NotInsertedIoContractOutput
  | NotInsertedInputMessageUnknown nonce
  | NotInsertedInputDependentOnChangeOrVariable
  | NotInsertedInputContractDoesNotExist contract_id
  | NotInsertedBlobIdAlreadyTaken blob_id
  | NotInsertedIoCoinMismatch
  | WrongOutputNumber string
  | UtxoNotFound utxo_id
  | MaxGasZero
  | DuplicateTxId tx_id

(* src/crates/services/txpool_v2/src/error.rs:166-190 CollisionReason *)
datatype collision_reason =
    CollisionUtxo utxo_id
  | CollisionContractCreation contract_id
  | CollisionBlob blob_id
  | CollisionMessage nonce
  | CollisionUnknown
  | MultipleCollisions

(* src/crates/services/txpool_v2/src/error.rs:64-74 RemovedReason *)
datatype removed_reason = LessWorth tx_id | Ttl

(* src/crates/services/txpool_v2/src/error.rs:19-62 Error *)
datatype pool_error =
    GasPriceNotFound string
  | DatabaseError string
  | StorageError string
  | Blacklisted blacklisted_error
  | Collided collision_reason
  | InputValidation input_validation_error
  | Dependency dependency_error
  | ConsensusValidity string
  | WasmValidity string
  | MintIsDisallowed
  | NotInsertedLimitHit
  | Removed removed_reason
  | SkippedTransaction string
  | TooManyQueuedTransactions
  | ServiceCommunicationFailed
  | ServiceQueueFull
  | InsufficientMaxFee u64 u64

(* src/crates/services/txpool_v2/src/error.rs:99-103 InsertionErrorType *)
datatype insertion_error = InsertionError pool_error | InsertionMissingInputs "missing_input list"

(* src/crates/services/txpool_v2/src/error.rs:122-126 InputValidationErrorType *)
datatype input_validation_failure =
    Inconsistency pool_error
  | ValidationMissingInputs "missing_input list"

(* src/crates/services/txpool_v2/src/error.rs:111-120 From<InputValidationErrorType> for InsertionErrorType *)
fun insertion_error_of :: "input_validation_failure \<Rightarrow> insertion_error" where
  "insertion_error_of (Inconsistency e) = InsertionError e"
| "insertion_error_of (ValidationMissingInputs ms) = InsertionMissingInputs ms"

(* src/crates/services/txpool_v2/src/pending_pool.rs:70-94 From<MissingInput> for Error *)
fun missing_input_error :: "missing_input \<Rightarrow> pool_error" where
  "missing_input_error (MissingUtxo utxo) = InputValidation (UtxoNotFound utxo)"
| "missing_input_error (MissingContract contract) =
     InputValidation (NotInsertedInputContractDoesNotExist contract)"

section \<open>Stored transactions, limits and constraints\<close>

(* src/crates/services/txpool_v2/src/storage/mod.rs:24-39 StorageData *)
record storage_data =
  sd_transaction :: pool_tx
  dependents_cumulative_tip :: u64
  dependents_cumulative_gas :: u64
  dependents_cumulative_bytes_size :: usize
  number_dependents_in_chain :: usize
  creation_instant :: instant

(* src/crates/services/txpool_v2/src/storage/checked_collision.rs:4-29 CheckedTransaction *)
record 'i checked_transaction =
  ct_tx :: pool_tx
  direct_dependencies :: "'i list"
  all_dependencies :: "'i list"

(* src/crates/services/txpool_v2/src/selection_algorithms/mod.rs:9-18 Constraints *)
record constraints =
  minimal_gas_price :: u64
  c_max_gas :: u64
  maximum_txs :: u16
  maximum_block_size :: u32

(* src/crates/services/txpool_v2/src/config.rs:149-157 PoolLimits *)
record pool_limits =
  max_txs :: usize
  pl_max_gas :: u64
  max_bytes_size :: usize

section \<open>Blacklist\<close>

(* src/crates/services/txpool_v2/src/config.rs:31-41 BlackList *)
record black_list =
  bl_owners :: "address set"
  bl_coins :: "utxo_id set"
  bl_messages :: "nonce set"
  bl_contracts :: "contract_id set"

(* src/crates/services/txpool_v2/src/config.rs:45-57 BlackList::new *)
definition black_list_new ::
    "address list \<Rightarrow> utxo_id list \<Rightarrow> nonce list \<Rightarrow> contract_id list \<Rightarrow> black_list" where
  "black_list_new owners utxo_ids messages contracts =
     \<lparr>bl_owners = set owners, bl_coins = set utxo_ids, bl_messages = set messages,
      bl_contracts = set contracts\<rparr>"

definition blacklist_input :: "black_list \<Rightarrow> tx_input \<Rightarrow> blacklisted_error option" where
  "blacklist_input bl i =
     (case input_view i of
        VCoin c \<Rightarrow>
          (if ci_utxo_id c \<in> bl_coins bl then Some (BlacklistedUTXO (ci_utxo_id c))
           else if ci_owner c \<in> bl_owners bl then Some (BlacklistedOwner (ci_owner c))
           else None)
      | VContract c \<Rightarrow> (if c \<in> bl_contracts bl then Some (BlacklistedContract c) else None)
      | VMessage m \<Rightarrow>
          (if mi_nonce m \<in> bl_messages bl then Some (BlacklistedMessage (mi_nonce m))
           else if mi_sender m \<in> bl_owners bl then Some (BlacklistedOwner (mi_sender m))
           else if mi_recipient m \<in> bl_owners bl then Some (BlacklistedOwner (mi_recipient m))
           else None))"

fun check_inputs_blacklisting ::
    "black_list \<Rightarrow> tx_input list \<Rightarrow> (blacklisted_error, unit) result" where
  "check_inputs_blacklisting bl [] = Inr ()"
| "check_inputs_blacklisting bl (i # is) =
     (case blacklist_input bl i of
        Some e \<Rightarrow> Inl e
      | None \<Rightarrow> check_inputs_blacklisting bl is)"

(* src/crates/services/txpool_v2/src/config.rs:60-120 BlackList::check_blacklisting *)
definition check_blacklisting :: "black_list \<Rightarrow> pool_tx \<Rightarrow> (blacklisted_error, unit) result" where
  "check_blacklisting bl tx = check_inputs_blacklisting bl (tx_inputs tx)"

(* src/crates/services/txpool_v2/src/config.rs:123-147 Config *)
record pool_config =
  utxo_validation :: bool
  max_txs_chain_count :: usize
  limits :: pool_limits
  black_list :: black_list
  pending_pool_tx_ttl :: nat
  max_pending_pool_size_percentage :: u16

section \<open>Outputs of extracted transactions\<close>

(* src/crates/services/txpool_v2/src/extracted_outputs.rs:22-26 ExtractedOutputs *)
record extracted_outputs =
  eo_contract_created :: "contract_id \<rightharpoonup> tx_id"
  eo_contract_created_by_tx :: "tx_id \<rightharpoonup> contract_id list"
  eo_coins_created :: "tx_id \<rightharpoonup> (u16 \<rightharpoonup> address \<times> u64 \<times> asset_id)"

(* src/crates/services/txpool_v2/src/extracted_outputs.rs:29-35 ExtractedOutputs::new *)
definition extracted_outputs_new :: extracted_outputs where
  "extracted_outputs_new =
     \<lparr>eo_contract_created = Map.empty, eo_contract_created_by_tx = Map.empty,
      eo_coins_created = Map.empty\<rparr>"

fun extract_output :: "tx_id \<Rightarrow> extracted_outputs \<Rightarrow> u16 \<times> tx_output \<Rightarrow> extracted_outputs" where
  "extract_output t eo (idx, OutContractCreated c) =
     eo\<lparr>eo_contract_created := (eo_contract_created eo)(c \<mapsto> t),
        eo_contract_created_by_tx := (eo_contract_created_by_tx eo)
          (t \<mapsto> (case eo_contract_created_by_tx eo t of None \<Rightarrow> [] | Some cs \<Rightarrow> cs) @ [c])\<rparr>"
| "extract_output t eo (idx, OutCoin to amount asset) =
     eo\<lparr>eo_coins_created := (eo_coins_created eo)
          (t \<mapsto> (case eo_coins_created eo t of None \<Rightarrow> Map.empty | Some m \<Rightarrow> m)
                  (idx \<mapsto> (to, amount, asset)))\<rparr>"
| "extract_output t eo (idx, OutContract) = eo"
| "extract_output t eo (idx, OutChange) = eo"
| "extract_output t eo (idx, OutVariable) = eo"

definition spend_extracted_input :: "extracted_outputs \<Rightarrow> tx_input \<Rightarrow> extracted_outputs" where
  "spend_extracted_input eo i =
     (case input_view i of
        VCoin c \<Rightarrow>
          (case eo_coins_created eo (fst (ci_utxo_id c)) of
             None \<Rightarrow> eo
           | Some m \<Rightarrow>
               eo\<lparr>eo_coins_created := (eo_coins_created eo)
                    (fst (ci_utxo_id c) \<mapsto> m(snd (ci_utxo_id c) := None))\<rparr>)
      | _ \<Rightarrow> eo)"

(* src/crates/services/txpool_v2/src/extracted_outputs.rs:45-92 ExtractedOutputs::new_extracted_transaction *)
definition new_extracted_transaction :: "extracted_outputs \<Rightarrow> pool_tx \<Rightarrow> extracted_outputs" where
  "new_extracted_transaction eo tx =
     foldl spend_extracted_input
       (foldl (extract_output (tx_id tx)) eo (enumerate_from 0 (tx_outputs tx)))
       (tx_inputs tx)"

(* src/crates/services/txpool_v2/src/extracted_outputs.rs:98-106 ExtractedOutputs::new_executed_transaction *)
definition new_executed_transaction :: "extracted_outputs \<Rightarrow> tx_id \<Rightarrow> extracted_outputs" where
  "new_executed_transaction eo t =
     eo\<lparr>eo_contract_created :=
          (case eo_contract_created_by_tx eo t of
             None \<Rightarrow> eo_contract_created eo
           | Some cs \<Rightarrow> foldl (\<lambda>m c. m(c := None)) (eo_contract_created eo) cs),
        eo_contract_created_by_tx := (eo_contract_created_by_tx eo)(t := None),
        eo_coins_created := (eo_coins_created eo)(t := None)\<rparr>"

(* src/crates/services/txpool_v2/src/extracted_outputs.rs:94-96 ExtractedOutputs::new_skipped_transaction *)
definition new_skipped_transaction :: "extracted_outputs \<Rightarrow> tx_id \<Rightarrow> extracted_outputs" where
  "new_skipped_transaction eo t = new_executed_transaction eo t"

(* src/crates/services/txpool_v2/src/extracted_outputs.rs:108-110 ExtractedOutputs::contract_exists *)
definition contract_exists :: "extracted_outputs \<Rightarrow> contract_id \<Rightarrow> bool" where
  "contract_exists eo c \<longleftrightarrow> eo_contract_created eo c \<noteq> None"

(* src/crates/services/txpool_v2/src/extracted_outputs.rs:112-128 ExtractedOutputs::coin_exists *)
definition coin_exists ::
    "extracted_outputs \<Rightarrow> utxo_id \<Rightarrow> address \<Rightarrow> u64 \<Rightarrow> asset_id \<Rightarrow> bool" where
  "coin_exists eo utxo addr amount asset =
     (case eo_coins_created eo (fst utxo) of
        None \<Rightarrow> False
      | Some coins \<Rightarrow>
          (case coins (snd utxo) of
             None \<Rightarrow> False
           | Some (a, am, asid) \<Rightarrow> a = addr \<and> am = amount \<and> asid = asset))"

subsection \<open>Which outputs are visible\<close>

definition extracted_coin :: "extracted_outputs \<Rightarrow> utxo_id \<Rightarrow> (address \<times> u64 \<times> asset_id) option" where
  "extracted_coin eo u = (case eo_coins_created eo (fst u) of None \<Rightarrow> None | Some m \<Rightarrow> m (snd u))"

fun coin_of_output :: "tx_output \<Rightarrow> (address \<times> u64 \<times> asset_id) option" where
  "coin_of_output (OutCoin to amount asset) = Some (to, amount, asset)"
| "coin_of_output _ = None"

lemma coin_exists_iff:
  "coin_exists eo u addr amount asset \<longleftrightarrow> extracted_coin eo u = Some (addr, amount, asset)"
  by (auto simp: coin_exists_def extracted_coin_def split: option.splits)

lemma extracted_coin_new [simp]: "extracted_coin extracted_outputs_new u = None"
  by (simp add: extracted_coin_def extracted_outputs_new_def)

lemma extracted_coin_extract_output:
  "extracted_coin (extract_output t eo (idx, out)) u =
     (if fst u = t \<and> snd u = idx \<and> coin_of_output out \<noteq> None then coin_of_output out else extracted_coin eo u)"
  by (cases out; cases u) (auto simp: extracted_coin_def split: option.splits)

lemma extracted_coin_spend:
  "extracted_coin (foldl spend_extracted_input eo is) u =
     (if u \<in> set (spent_coins is) then None else extracted_coin eo u)"
  by (induction "is" arbitrary: eo)
    (auto simp: extracted_coin_def spend_extracted_input_def prod_eq_iff
      split: input_kind.splits option.splits)

lemma extracted_coin_outputs:
  assumes "distinct (map fst xs)"
  shows "extracted_coin (foldl (extract_output t) eo xs) u =
     (if fst u = t then (case map_of xs (snd u) of
                           Some out \<Rightarrow> (case coin_of_output out of None \<Rightarrow> extracted_coin eo u | c \<Rightarrow> c)
                         | None \<Rightarrow> extracted_coin eo u)
      else extracted_coin eo u)"
  using assms
proof (induction xs arbitrary: eo)
  case (Cons x xs)
  have *: "map_of xs (fst x) = None"
    using Cons.prems by (simp add: map_of_eq_None_iff)
  show ?case
    using Cons.prems *
    by (cases x) (auto simp: Cons.IH extracted_coin_extract_output split: option.splits)
qed simp

lemma map_of_enumerate_from:
  assumes "length xs \<le> 2 ^ 16"
  shows "map_of (enumerate_from 0 xs) i = (if unat i < length xs then Some (xs ! unat i) else None)"
proof (cases "unat i < length xs")
  case True
  then have "(i, xs ! unat i) \<in> set (enumerate_from 0 xs)"
    by (auto simp: set_enumerate_from intro!: exI [of _ "unat i"])
  then show ?thesis
    using True distinct_enumerate_from [of 0 xs] assms by simp
next
  case False
  have "\<forall>k<length xs. i \<noteq> of_nat k"
    using False assms by (auto simp: unat_of_nat take_bit_nat_eq_self)
  then show ?thesis
    using False by (auto simp: map_of_eq_None_iff set_enumerate_from)
qed

definition output_at :: "pool_tx \<Rightarrow> u16 \<Rightarrow> tx_output option" where
  "output_at tx i = (if unat i < length (tx_outputs tx) then Some (tx_outputs tx ! unat i) else None)"

definition creates_coin :: "pool_tx \<Rightarrow> utxo_id \<Rightarrow> (address \<times> u64 \<times> asset_id) option" where
  "creates_coin tx u = (if fst u = tx_id tx then Option.bind (output_at tx (snd u)) coin_of_output else None)"

lemma extracted_coin_extracted:
  assumes "wf_tx tx"
  shows "extracted_coin (new_extracted_transaction eo tx) u =
     (if u \<in> set (spent_coins (tx_inputs tx)) then None
      else case creates_coin tx u of Some c \<Rightarrow> Some c | None \<Rightarrow> extracted_coin eo u)"
  using assms distinct_enumerate_from [of 0 "tx_outputs tx"]
  by (auto simp: new_extracted_transaction_def extracted_coin_spend extracted_coin_outputs wf_tx_def
      map_of_enumerate_from creates_coin_def output_at_def split: option.splits)

lemma extracted_coin_executed:
  "extracted_coin (new_executed_transaction eo t) u = (if fst u = t then None else extracted_coin eo u)"
  by (simp add: extracted_coin_def new_executed_transaction_def)

datatype extraction_event = Extracted pool_tx | Settled tx_id

fun extraction_step :: "extracted_outputs \<Rightarrow> extraction_event \<Rightarrow> extracted_outputs" where
  "extraction_step eo (Extracted tx) = new_extracted_transaction eo tx"
| "extraction_step eo (Settled t) = new_executed_transaction eo t"

definition extraction_run :: "extraction_event list \<Rightarrow> extracted_outputs" where
  "extraction_run es = foldl extraction_step extracted_outputs_new es"

text \<open>A coin of the history is available when an extracted transaction created it and neither that
  transaction was settled nor the coin spent since.\<close>

fun hides_coin :: "utxo_id \<Rightarrow> extraction_event \<Rightarrow> bool" where
  "hides_coin u (Extracted tx) \<longleftrightarrow> u \<in> set (spent_coins (tx_inputs tx))"
| "hides_coin u (Settled t) \<longleftrightarrow> t = fst u"

fun available_coin :: "extraction_event list \<Rightarrow> utxo_id \<Rightarrow> (address \<times> u64 \<times> asset_id) option" where
  "available_coin [] u = None"
| "available_coin (e # es) u =
     (if hides_coin u e then None
      else case e of
             Extracted tx \<Rightarrow> (case creates_coin tx u of Some c \<Rightarrow> Some c | None \<Rightarrow> available_coin es u)
           | Settled t \<Rightarrow> available_coin es u)"

lemma extracted_coin_run:
  assumes "\<And>tx. Extracted tx \<in> set es \<Longrightarrow> wf_tx tx"
  shows "extracted_coin (extraction_run es) u = available_coin (rev es) u"
  using assms
proof (induction es rule: rev_induct)
  case (snoc e es)
  then show ?case
    by (cases e) (auto simp: extraction_run_def extracted_coin_extracted extracted_coin_executed
        split: option.splits)
qed (simp add: extraction_run_def)

lemma check_blacklisting_ok_iff:
  "check_blacklisting bl tx = Inr () \<longleftrightarrow> (\<forall>i\<in>set (tx_inputs tx). blacklist_input bl i = None)"
proof -
  have "check_inputs_blacklisting bl is = Inr () \<longleftrightarrow> (\<forall>i\<in>set is. blacklist_input bl i = None)" for "is"
    by (induction "is") (auto split: option.splits)
  then show ?thesis
    by (simp add: check_blacklisting_def)
qed

lemma available_coin_iff:
  "available_coin es u = Some c \<longleftrightarrow>
     (\<exists>newer tx older. es = newer @ Extracted tx # older \<and> creates_coin tx u = Some c
        \<and> \<not> hides_coin u (Extracted tx)
        \<and> (\<forall>e\<in>set newer. \<not> hides_coin u e \<and> (\<forall>tx'. e = Extracted tx' \<longrightarrow> creates_coin tx' u = None)))"
    (is "_ \<longleftrightarrow> ?spec es")
proof (induction es)
  case (Cons e es)
  have *: "?spec (e # es) \<longleftrightarrow>
      (\<exists>tx. e = Extracted tx \<and> creates_coin tx u = Some c \<and> \<not> hides_coin u e) \<or>
      (\<not> hides_coin u e \<and> (\<forall>tx'. e = Extracted tx' \<longrightarrow> creates_coin tx' u = None) \<and> ?spec es)"
    (is "_ \<longleftrightarrow> ?rhs")
  proof
    assume "?spec (e # es)"
    then obtain newer tx older where n: "e # es = newer @ Extracted tx # older"
      "creates_coin tx u = Some c" "\<not> hides_coin u (Extracted tx)"
      "\<forall>e\<in>set newer. \<not> hides_coin u e \<and> (\<forall>tx'. e = Extracted tx' \<longrightarrow> creates_coin tx' u = None)"
      by blast
    show ?rhs
    proof (cases newer)
      case Nil
      then show ?thesis using n by auto
    next
      case (Cons e' newer')
      then have "?spec es" using n by (intro exI [of _ newer'] exI [of _ tx] exI [of _ older]) simp
      then show ?thesis using n Cons by auto
    qed
  next
    assume ?rhs
    then show "?spec (e # es)"
    proof (elim disjE conjE exE)
      fix tx assume "e = Extracted tx" "creates_coin tx u = Some c" "\<not> hides_coin u e"
      then show ?thesis by (intro exI [of _ "[]"] exI [of _ tx] exI [of _ es]) simp
    next
      fix newer tx older
      assume "\<not> hides_coin u e" "\<forall>tx'. e = Extracted tx' \<longrightarrow> creates_coin tx' u = None"
        "es = newer @ Extracted tx # older" "creates_coin tx u = Some c" "\<not> hides_coin u (Extracted tx)"
        "\<forall>e\<in>set newer. \<not> hides_coin u e \<and> (\<forall>tx'. e = Extracted tx' \<longrightarrow> creates_coin tx' u = None)"
      then show ?thesis by (intro exI [of _ "e # newer"] exI [of _ tx] exI [of _ older]) simp
    qed
  qed
  show ?case
    unfolding * using Cons.IH by (cases e) (auto split: option.splits)
qed simp

definition sample_checked :: "tx_id \<Rightarrow> tx_input list \<Rightarrow> tx_output list \<Rightarrow> checked_data" where
  "sample_checked t ins outs =
     \<lparr>cd_id = t, cd_max_gas = 10, cd_tip = 5, cd_inputs = ins, cd_outputs = outs, cd_expiration = 100,
      cd_metered_bytes_size = 20\<rparr>"

definition sample_tx :: "tx_id \<Rightarrow> tx_input list \<Rightarrow> tx_output list \<Rightarrow> pool_tx" where
  "sample_tx t ins outs = Script (sample_checked t ins outs) (metadata_new 0 20 7)"

lemma sample_tx_simps [simp]:
  "tx_id (sample_tx t ins outs) = t" "tx_inputs (sample_tx t ins outs) = ins"
  "tx_outputs (sample_tx t ins outs) = outs" "tx_max_gas (sample_tx t ins outs) = 10"
  "tx_tip (sample_tx t ins outs) = 5" "metered_bytes_size (sample_tx t ins outs) = 20"
  "tx_max_gas_price (sample_tx t ins outs) = 7" "blob_of (sample_tx t ins outs) = None"
  by (simp_all add: sample_tx_def sample_checked_def tx_access)

text \<open>C39: The record of outputs of transactions handed to the block producer answers exactly from its
  history: after any sequence of extractions and settlements (executed or skipped), a coin with given
  owner, amount and asset is reported to exist if and only if some extracted transaction created it with
  these values, and since then neither that transaction was settled, nor the coin spent by an extracted
  transaction (the creating one included), nor another extracted transaction created the same output.\<close>

theorem extracted_coin_visibility:
  assumes "\<forall>tx. Extracted tx \<in> set es \<longrightarrow> wf_tx tx"
  shows "coin_exists (extraction_run es) u addr amount asset \<longleftrightarrow>
     (\<exists>older tx newer. es = older @ Extracted tx # newer
        \<and> creates_coin tx u = Some (addr, amount, asset)
        \<and> u \<notin> set (spent_coins (tx_inputs tx))
        \<and> (\<forall>e\<in>set newer. \<not> hides_coin u e \<and> (\<forall>tx'. e = Extracted tx' \<longrightarrow> creates_coin tx' u = None)))"
proof -
  have "coin_exists (extraction_run es) u addr amount asset \<longleftrightarrow>
      available_coin (rev es) u = Some (addr, amount, asset)"
    using extracted_coin_run [of es u] assms by (simp add: coin_exists_iff)
  moreover have "rev es = newer @ Extracted tx # older \<longleftrightarrow> es = rev older @ Extracted tx # rev newer"
    for newer tx older
    by (metis append.assoc append_Cons append_Nil rev.simps(2) rev_append rev_rev_ident)
  ultimately show ?thesis
    unfolding available_coin_iff by (auto intro: rev_rev_ident) (metis rev_rev_ident set_rev)+
qed

theorem extracted_coin_visibility_witness:
  "coin_exists (extraction_run [Extracted (sample_tx 1 [] [OutChange, OutCoin 3 4 5]), Settled 2]) (1, 1) 3 4 5"
  by (subst extracted_coin_visibility)
    (simp_all add: wf_tx_def, intro exI [of _ "[]"] exI [of _ "sample_tx 1 [] [OutChange, OutCoin 3 4 5]"]
      exI [of _ "[Settled 2]"], simp add: creates_coin_def output_at_def)

end
