(* ===== verification/Tx_Pool_Collisions.thy ===== *)
theory Tx_Pool_Collisions
  imports Tx_Pool_Types Complex_Main
begin

text \<open>
  The collision manager of the transaction pool (\<open>collision_manager/basic.rs\<close>): which stored
  transaction spends a coin or a message, creates a contract or uses a blob. Transactions are referred
  to by the index the storage gives them.

  The hash map of collisions is an association list with distinct keys. Its order stands for the
  iteration order of the hash map, which the code does not fix; the lemmas about it speak of its set
  of entries only.
\<close>

section \<open>The manager\<close>

(* src/crates/services/txpool_v2/src/collision_manager/basic.rs:53-62 BasicCollisionManager *)
record 'i collision_manager =
  messages_spenders :: "nonce \<rightharpoonup> 'i"
  coins_spenders :: "utxo_id \<rightharpoonup> 'i"
  contracts_creators :: "contract_id \<rightharpoonup> 'i"
  blobs_users :: "blob_id \<rightharpoonup> 'i"

(* src/crates/services/txpool_v2/src/collision_manager/mod.rs:15-15 Collisions *)
type_synonym 'i collisions = "('i \<times> collision_reason list) list"

(* src/crates/services/txpool_v2/src/collision_manager/basic.rs:65-72 BasicCollisionManager::new *)
definition collision_manager_new :: "'i collision_manager" where
  "collision_manager_new =
     \<lparr>messages_spenders = Map.empty, coins_spenders = Map.empty, contracts_creators = Map.empty,
      blobs_users = Map.empty\<rparr>"

text \<open>The range of the ordered map is half open: the output with index \<open>u16::MAX\<close> is outside.\<close>

(* src/crates/services/txpool_v2/src/collision_manager/basic.rs:170-175 BasicCollisionManager::get_coins_spenders *)
definition get_coins_spenders :: "'i collision_manager \<Rightarrow> tx_id \<Rightarrow> 'i list" where
  "get_coins_spenders cm t =
     List.map_filter (\<lambda>n. coins_spenders cm (t, of_nat n)) [0..<2 ^ 16 - 1]"

fun push_reason :: "'i collisions \<Rightarrow> 'i \<Rightarrow> collision_reason \<Rightarrow> 'i collisions" where
  "push_reason [] i r = [(i, [r])]"
| "push_reason ((j, rs) # cs) i r =
     (if j = i then (j, rs @ [r]) # cs else (j, rs) # push_reason cs i r)"

definition push_found :: "'i collisions \<Rightarrow> 'i option \<Rightarrow> collision_reason \<Rightarrow> 'i collisions" where
  "push_found cs found r = (case found of None \<Rightarrow> cs | Some i \<Rightarrow> push_reason cs i r)"

definition find_input_collision ::
    "'i collision_manager \<Rightarrow> 'i collisions \<Rightarrow> tx_input \<Rightarrow> 'i collisions" where
  "find_input_collision cm cs inp =
     (case input_view inp of
        VCoin c \<Rightarrow> push_found cs (coins_spenders cm (ci_utxo_id c)) (CollisionUtxo (ci_utxo_id c))
      | VMessage m \<Rightarrow> push_found cs (messages_spenders cm (mi_nonce m)) (CollisionMessage (mi_nonce m))
      | VContract c \<Rightarrow> cs)"

fun find_output_collisions ::
    "'i collision_manager \<Rightarrow> tx_id \<Rightarrow> 'i collisions \<Rightarrow> (u16 \<times> tx_output) list
      \<Rightarrow> (pool_error, 'i collisions) result" where
  "find_output_collisions cm t cs [] = Inr cs"
| "find_output_collisions cm t cs ((i, out) # outs) =
     (case out of
        OutContractCreated c \<Rightarrow>
          find_output_collisions cm t
            (push_found cs (contracts_creators cm c) (CollisionContractCreation c)) outs
      | OutContract \<Rightarrow> find_output_collisions cm t cs outs
      | _ \<Rightarrow>
          (if coins_spenders cm (t, i) \<noteq> None then Inl (InputValidation (DuplicateTxId t))
           else find_output_collisions cm t cs outs))"

(* src/crates/services/txpool_v2/src/collision_manager/basic.rs:177-240 BasicCollisionManager::find_collisions *)
definition find_collisions ::
    "'i collision_manager \<Rightarrow> pool_tx \<Rightarrow> (pool_error, 'i collisions) result" where
  "find_collisions cm tx =
     (let cs = (case blob_of tx of
                  Some b \<Rightarrow> (case blobs_users cm b of Some s \<Rightarrow> [(s, [CollisionBlob b])] | None \<Rightarrow> [])
                | None \<Rightarrow> []);
          cs = foldl (find_input_collision cm) cs (tx_inputs tx)
      in find_output_collisions cm (tx_id tx) cs (enumerate_from 0 (tx_outputs tx)))"

definition store_input :: "'i \<Rightarrow> 'i collision_manager \<Rightarrow> tx_input \<Rightarrow> 'i collision_manager" where
  "store_input i cm inp =
     (case input_view inp of
        VCoin c \<Rightarrow> cm\<lparr>coins_spenders := (coins_spenders cm)(ci_utxo_id c \<mapsto> i)\<rparr>
      | VMessage m \<Rightarrow> cm\<lparr>messages_spenders := (messages_spenders cm)(mi_nonce m \<mapsto> i)\<rparr>
      | VContract c \<Rightarrow> cm)"

definition store_output :: "'i \<Rightarrow> 'i collision_manager \<Rightarrow> tx_output \<Rightarrow> 'i collision_manager" where
  "store_output i cm out =
     (case out of
        OutContractCreated c \<Rightarrow> cm\<lparr>contracts_creators := (contracts_creators cm)(c \<mapsto> i)\<rparr>
      | _ \<Rightarrow> cm)"

(* src/crates/services/txpool_v2/src/collision_manager/basic.rs:242-280 BasicCollisionManager::on_stored_transaction *)
definition on_stored_transaction ::
    "'i collision_manager \<Rightarrow> 'i \<Rightarrow> pool_tx \<Rightarrow> 'i collision_manager" where
  "on_stored_transaction cm i tx =
     (let cm = (case blob_of tx of
                  Some b \<Rightarrow> cm\<lparr>blobs_users := (blobs_users cm)(b \<mapsto> i)\<rparr>
                | None \<Rightarrow> cm);
          cm = foldl (store_input i) cm (tx_inputs tx)
      in foldl (store_output i) cm (tx_outputs tx))"

definition remove_input :: "'i collision_manager \<Rightarrow> tx_input \<Rightarrow> 'i collision_manager" where
  "remove_input cm inp =
     (case input_view inp of
        VCoin c \<Rightarrow> cm\<lparr>coins_spenders := (coins_spenders cm)(ci_utxo_id c := None)\<rparr>
      | VMessage m \<Rightarrow> cm\<lparr>messages_spenders := (messages_spenders cm)(mi_nonce m := None)\<rparr>
      | VContract c \<Rightarrow> cm)"

definition remove_output :: "'i collision_manager \<Rightarrow> tx_output \<Rightarrow> 'i collision_manager" where
  "remove_output cm out =
     (case out of
        OutContractCreated c \<Rightarrow> cm\<lparr>contracts_creators := (contracts_creators cm)(c := None)\<rparr>
      | _ \<Rightarrow> cm)"

(* src/crates/services/txpool_v2/src/collision_manager/basic.rs:282-316 BasicCollisionManager::on_removed_transaction *)
definition on_removed_transaction :: "'i collision_manager \<Rightarrow> pool_tx \<Rightarrow> 'i collision_manager" where
  "on_removed_transaction cm tx =
     (let cm = (case blob_of tx of
                  Some b \<Rightarrow> cm\<lparr>blobs_users := (blobs_users cm)(b := None)\<rparr>
                | None \<Rightarrow> cm);
          cm = foldl remove_input cm (tx_inputs tx)
      in foldl remove_output cm (tx_outputs tx))"

section \<open>The maps after storing and removing\<close>

lemma store_inputs_maps:
  "coins_spenders (foldl (store_input i) cm ins) =
     (\<lambda>u. if u \<in> set (spent_coins ins) then Some i else coins_spenders cm u)"
  "messages_spenders (foldl (store_input i) cm ins) =
     (\<lambda>n. if n \<in> set (spent_messages ins) then Some i else messages_spenders cm n)"
  "contracts_creators (foldl (store_input i) cm ins) = contracts_creators cm"
  "blobs_users (foldl (store_input i) cm ins) = blobs_users cm"
  by (induction ins arbitrary: cm) (auto simp: store_input_def fun_eq_iff split: input_kind.splits)

lemma store_outputs_maps:
  "contracts_creators (foldl (store_output i) cm outs) =
     (\<lambda>c. if c \<in> set (created_contracts outs) then Some i else contracts_creators cm c)"
  "coins_spenders (foldl (store_output i) cm outs) = coins_spenders cm"
  "messages_spenders (foldl (store_output i) cm outs) = messages_spenders cm"
  "blobs_users (foldl (store_output i) cm outs) = blobs_users cm"
  by (induction outs arbitrary: cm) (auto simp: store_output_def fun_eq_iff split: tx_output.splits)

lemma remove_inputs_maps:
  "coins_spenders (foldl remove_input cm ins) =
     (\<lambda>u. if u \<in> set (spent_coins ins) then None else coins_spenders cm u)"
  "messages_spenders (foldl remove_input cm ins) =
     (\<lambda>n. if n \<in> set (spent_messages ins) then None else messages_spenders cm n)"
  "contracts_creators (foldl remove_input cm ins) = contracts_creators cm"
  "blobs_users (foldl remove_input cm ins) = blobs_users cm"
  by (induction ins arbitrary: cm) (auto simp: remove_input_def fun_eq_iff split: input_kind.splits)

lemma remove_outputs_maps:
  "contracts_creators (foldl remove_output cm outs) =
     (\<lambda>c. if c \<in> set (created_contracts outs) then None else contracts_creators cm c)"
  "coins_spenders (foldl remove_output cm outs) = coins_spenders cm"
  "messages_spenders (foldl remove_output cm outs) = messages_spenders cm"
  "blobs_users (foldl remove_output cm outs) = blobs_users cm"
  by (induction outs arbitrary: cm) (auto simp: remove_output_def fun_eq_iff split: tx_output.splits)

text \<open>The resources a transaction claims exclusively.\<close>

datatype resource = RCoin utxo_id | RMessage nonce | RContract contract_id | RBlob blob_id

definition resources :: "pool_tx \<Rightarrow> resource set" where
  "resources tx = RCoin ` set (spent_coins (tx_inputs tx)) \<union> RMessage ` set (spent_messages (tx_inputs tx))
     \<union> RContract ` set (created_contracts (tx_outputs tx)) \<union> RBlob ` set_option (blob_of tx)"

fun holder :: "'i collision_manager \<Rightarrow> resource \<Rightarrow> 'i option" where
  "holder cm (RCoin u) = coins_spenders cm u"
| "holder cm (RMessage n) = messages_spenders cm n"
| "holder cm (RContract c) = contracts_creators cm c"
| "holder cm (RBlob b) = blobs_users cm b"

lemma holder_new [simp]: "holder collision_manager_new r = None"
  by (cases r) (simp_all add: collision_manager_new_def)

lemma holder_on_stored:
  "holder (on_stored_transaction cm i tx) r = (if r \<in> resources tx then Some i else holder cm r)"
  by (cases r) (auto simp: on_stored_transaction_def resources_def Let_def store_inputs_maps
      store_outputs_maps split: option.splits)

lemma holder_on_removed:
  "holder (on_removed_transaction cm tx) r = (if r \<in> resources tx then None else holder cm r)"
  by (cases r) (auto simp: on_removed_transaction_def resources_def Let_def remove_inputs_maps
      remove_outputs_maps split: option.splits)

section \<open>Collisions found\<close>

definition records_reason :: "'i collisions \<Rightarrow> 'i \<Rightarrow> collision_reason \<Rightarrow> bool" where
  "records_reason cs i r \<longleftrightarrow> (\<exists>rs. (i, rs) \<in> set cs \<and> r \<in> set rs)"

definition wf_collisions :: "'i collisions \<Rightarrow> bool" where
  "wf_collisions cs \<longleftrightarrow> distinct (map fst cs) \<and> (\<forall>(i, rs)\<in>set cs. rs \<noteq> [])"

fun reason_of :: "resource \<Rightarrow> collision_reason" where
  "reason_of (RCoin u) = CollisionUtxo u"
| "reason_of (RMessage n) = CollisionMessage n"
| "reason_of (RContract c) = CollisionContractCreation c"
| "reason_of (RBlob b) = CollisionBlob b"

lemma keys_push_reason: "fst ` set (push_reason cs i r) = insert i (fst ` set cs)"
  by (induction cs i r rule: push_reason.induct) auto

lemma wf_push_reason: "wf_collisions cs \<Longrightarrow> wf_collisions (push_reason cs i r)"
proof (induction cs i r rule: push_reason.induct)
  case (2 j rs cs i r)
  then show ?case
    using keys_push_reason [of cs i r] by (auto simp: wf_collisions_def)
qed (simp add: wf_collisions_def)

lemma records_push_reason:
  "records_reason (push_reason cs i r) j r' \<longleftrightarrow> (j = i \<and> r' = r) \<or> records_reason cs j r'"
  by (induction cs i r rule: push_reason.induct) (auto simp: records_reason_def)

lemma wf_push_found: "wf_collisions cs \<Longrightarrow> wf_collisions (push_found cs f r)"
  by (simp add: push_found_def wf_push_reason split: option.splits)

lemma records_push_found:
  "records_reason (push_found cs f r) j r' \<longleftrightarrow> (f = Some j \<and> r' = r) \<or> records_reason cs j r'"
  by (auto simp: push_found_def records_push_reason split: option.splits)

lemma wf_input_collisions:
  "wf_collisions cs \<Longrightarrow> wf_collisions (foldl (find_input_collision cm) cs ins)"
  by (induction ins arbitrary: cs)
    (auto simp: find_input_collision_def wf_push_found split: input_kind.splits)

lemma records_input_collisions:
  "records_reason (foldl (find_input_collision cm) cs ins) j r \<longleftrightarrow> records_reason cs j r
     \<or> (\<exists>u\<in>set (spent_coins ins). coins_spenders cm u = Some j \<and> r = CollisionUtxo u)
     \<or> (\<exists>n\<in>set (spent_messages ins). messages_spenders cm n = Some j \<and> r = CollisionMessage n)"
  by (induction ins arbitrary: cs)
    (auto simp: find_input_collision_def records_push_found split: input_kind.splits)

definition spendable_output :: "tx_output \<Rightarrow> bool" where
  "spendable_output out \<longleftrightarrow> (case out of OutCoin _ _ _ \<Rightarrow> True | OutChange \<Rightarrow> True | OutVariable \<Rightarrow> True | _ \<Rightarrow> False)"

lemma records_output_collisions:
  "find_output_collisions cm t cs outs = Inr cs' \<Longrightarrow>
     records_reason cs' j r \<longleftrightarrow> records_reason cs j r
       \<or> (\<exists>c\<in>set (created_contracts (map snd outs)). contracts_creators cm c = Some j
             \<and> r = CollisionContractCreation c)"
proof (induction outs arbitrary: cs)
  case (Cons x outs)
  obtain i out where x: "x = (i, out)" by (cases x)
  show ?case
  proof (cases out)
    case (OutContractCreated c)
    then have "find_output_collisions cm t (push_found cs (contracts_creators cm c) (CollisionContractCreation c)) outs
        = Inr cs'"
      using Cons.prems x by simp
    from Cons.IH [OF this] show ?thesis
      using x OutContractCreated by (simp add: records_push_found) blast
  qed (use Cons x in \<open>auto split: if_splits\<close>)
qed simp

lemma wf_output_collisions:
  "find_output_collisions cm t cs outs = Inr cs' \<Longrightarrow> wf_collisions cs \<Longrightarrow> wf_collisions cs'"
proof (induction outs arbitrary: cs)
  case (Cons x outs)
  obtain i out where x: "x = (i, out)" by (cases x)
  show ?case
    using Cons x by (cases out) (auto simp: wf_push_found split: if_splits)
qed simp

lemma output_collisions_error_iff:
  "(\<exists>e. find_output_collisions cm t cs outs = Inl e) \<longleftrightarrow>
     (\<exists>(i, out)\<in>set outs. spendable_output out \<and> coins_spenders cm (t, i) \<noteq> None)"
proof (induction outs arbitrary: cs)
  case (Cons x outs)
  obtain i out where x: "x = (i, out)" by (cases x)
  show ?case
    using Cons x by (cases out) (simp_all add: spendable_output_def)
qed simp

lemma output_collisions_error:
  "find_output_collisions cm t cs outs = Inl e \<Longrightarrow> e = InputValidation (DuplicateTxId t)"
proof (induction outs arbitrary: cs)
  case (Cons x outs)
  obtain i out where x: "x = (i, out)" by (cases x)
  show ?case
    using Cons x by (cases out) (auto split: if_splits)
qed simp

lemma find_collisions_records:
  assumes "find_collisions cm tx = Inr cs"
  shows "records_reason cs j r \<longleftrightarrow> (\<exists>res\<in>resources tx. holder cm res = Some j \<and> r = reason_of res)"
    and "wf_collisions cs"
proof -
  define cs0 where "cs0 = (case blob_of tx of
      Some b \<Rightarrow> (case blobs_users cm b of Some s \<Rightarrow> [(s, [CollisionBlob b])] | None \<Rightarrow> []) | None \<Rightarrow> [])"
  have found: "find_output_collisions cm (tx_id tx) (foldl (find_input_collision cm) cs0 (tx_inputs tx))
      (enumerate_from 0 (tx_outputs tx)) = Inr cs"
    using assms by (simp add: find_collisions_def cs0_def Let_def)
  have "records_reason cs0 j r \<longleftrightarrow>
      (\<exists>b\<in>set_option (blob_of tx). blobs_users cm b = Some j \<and> r = CollisionBlob b)"
    by (auto simp: cs0_def records_reason_def split: option.splits)
  then show "records_reason cs j r \<longleftrightarrow> (\<exists>res\<in>resources tx. holder cm res = Some j \<and> r = reason_of res)"
    unfolding records_output_collisions [OF found] map_snd_enumerate_from records_input_collisions resources_def bex_Un
    by (simp add: bex_simps ball_simps) blast
  have "wf_collisions cs0"
    by (simp add: cs0_def wf_collisions_def split: option.splits)
  then show "wf_collisions cs"
    by (intro wf_output_collisions [OF found] wf_input_collisions)
qed

lemma wf_collisions_keys:
  assumes "wf_collisions cs"
  shows "i \<in> fst ` set cs \<longleftrightarrow> (\<exists>r. records_reason cs i r)"
proof
  assume "i \<in> fst ` set cs"
  then obtain rs where rs: "(i, rs) \<in> set cs" by force
  then have "rs \<noteq> []" using assms by (auto simp: wf_collisions_def)
  then show "\<exists>r. records_reason cs i r"
    using rs unfolding records_reason_def by (intro exI [of _ "hd rs"] exI [of _ rs]) simp
qed (force simp: records_reason_def)

lemma find_collisions_keys:
  assumes "find_collisions cm tx = Inr cs"
  shows "fst ` set cs = {i. \<exists>res\<in>resources tx. holder cm res = Some i}"
proof (rule set_eqI)
  fix i
  have "i \<in> fst ` set cs \<longleftrightarrow> (\<exists>r. \<exists>res\<in>resources tx. holder cm res = Some i \<and> r = reason_of res)"
    using wf_collisions_keys [OF find_collisions_records(2) [OF assms]]
    by (simp only: find_collisions_records(1) [OF assms])
  then show "i \<in> fst ` set cs \<longleftrightarrow> i \<in> {i. \<exists>res\<in>resources tx. holder cm res = Some i}"
    by auto
qed

section \<open>Agreement with the stored transactions\<close>

text \<open>The manager agrees with the stored transactions when a resource is held by an index exactly if
  the transaction stored there claims it.\<close>

definition cm_integrity :: "'i collision_manager \<Rightarrow> ('i \<rightharpoonup> pool_tx) \<Rightarrow> bool" where
  "cm_integrity cm stored \<longleftrightarrow>
     (\<forall>r i. holder cm r = Some i \<longleftrightarrow> (\<exists>tx. stored i = Some tx \<and> r \<in> resources tx))"

definition exclusive :: "('i \<rightharpoonup> pool_tx) \<Rightarrow> bool" where
  "exclusive stored \<longleftrightarrow>
     (\<forall>i j a b. stored i = Some a \<and> stored j = Some b \<and> i \<noteq> j \<longrightarrow> resources a \<inter> resources b = {})"

definition conflicting :: "('i \<rightharpoonup> pool_tx) \<Rightarrow> pool_tx \<Rightarrow> 'i set" where
  "conflicting stored tx = {i. \<exists>a. stored i = Some a \<and> resources a \<inter> resources tx \<noteq> {}}"

lemma cm_integrity_new: "cm_integrity collision_manager_new Map.empty"
  by (simp add: cm_integrity_def)

lemma cm_integrityD:
  "cm_integrity cm stored \<Longrightarrow> holder cm r = Some i \<longleftrightarrow> (\<exists>tx. stored i = Some tx \<and> r \<in> resources tx)"
  by (simp add: cm_integrity_def)

lemma cm_integrity_exclusive: 
  assumes "cm_integrity cm stored"
  shows "exclusive stored"
proof -
  have "i = j" if "stored i = Some a" "stored j = Some b" "r \<in> resources a" "r \<in> resources b" for i j a b r
    using that cm_integrityD [OF assms, of r i] cm_integrityD [OF assms, of r j] by auto
  then show ?thesis
    unfolding exclusive_def by blast
qed

lemma find_collisions_conflicting:
  assumes "cm_integrity cm stored" "find_collisions cm tx = Inr cs"
  shows "fst ` set cs = conflicting stored tx"
  unfolding find_collisions_keys [OF assms(2)] conflicting_def
  using cm_integrityD [OF assms(1)] by auto

lemma cm_integrity_stored:
  assumes "cm_integrity cm stored" "stored i = None" "conflicting stored tx = {}"
  shows "cm_integrity (on_stored_transaction cm i tx) (stored(i \<mapsto> tx))"
  unfolding cm_integrity_def
proof (intro allI)
  fix r j
  have held: "holder cm r = Some j \<longleftrightarrow> (\<exists>a. stored j = Some a \<and> r \<in> resources a)"
    by (rule cm_integrityD [OF assms(1)])
  have "r \<notin> resources a" if "r \<in> resources tx" "stored j = Some a" for a
    using assms(3) that by (auto simp: conflicting_def)
  then show "holder (on_stored_transaction cm i tx) r = Some j \<longleftrightarrow>
      (\<exists>a. (stored(i \<mapsto> tx)) j = Some a \<and> r \<in> resources a)"
    using held assms(2) by (cases "j = i") (auto simp: holder_on_stored)
qed

lemma cm_integrity_removed:
  assumes "cm_integrity cm stored" "stored i = Some tx"
  shows "cm_integrity (on_removed_transaction cm tx) (stored(i := None))"
  unfolding cm_integrity_def
proof (intro allI)
  fix r j
  have held: "holder cm r = Some j \<longleftrightarrow> (\<exists>a. stored j = Some a \<and> r \<in> resources a)"
    by (rule cm_integrityD [OF assms(1)])
  have "r \<notin> resources a" if "r \<in> resources tx" "stored j = Some a" "j \<noteq> i" for a
    using cm_integrity_exclusive [OF assms(1)] assms(2) that unfolding exclusive_def by blast
  then show "holder (on_removed_transaction cm tx) r = Some j \<longleftrightarrow>
      (\<exists>a. (stored(i := None)) j = Some a \<and> r \<in> resources a)"
    using held assms(2) by (cases "j = i") (auto simp: holder_on_removed)
qed

text \<open>What a client of a collision manager relies on: the manager agrees with the transactions that
  are stored, and keeps agreeing when it is told of a removal or of a transaction that conflicts with
  none of them.\<close>

locale collision_tracking =
  fixes find :: "'c \<Rightarrow> pool_tx \<Rightarrow> (pool_error, 'i collisions) result"
    and stored_hook :: "'c \<Rightarrow> 'i \<Rightarrow> pool_tx \<Rightarrow> 'c"
    and removed_hook :: "'c \<Rightarrow> pool_tx \<Rightarrow> 'c"
    and agrees :: "'c \<Rightarrow> ('i \<rightharpoonup> pool_tx) \<Rightarrow> bool"
  assumes find_conflicting: "agrees c st \<Longrightarrow> find c tx = Inr cs \<Longrightarrow> fst ` set cs = conflicting st tx"
    and agrees_exclusive: "agrees c st \<Longrightarrow> exclusive st"
    and agrees_stored:
      "agrees c st \<Longrightarrow> st i = None \<Longrightarrow> conflicting st tx = {} \<Longrightarrow> agrees (stored_hook c i tx) (st(i \<mapsto> tx))"
    and agrees_removed: "agrees c st \<Longrightarrow> st i = Some tx \<Longrightarrow> agrees (removed_hook c tx) (st(i := None))"
begin

lemma agrees_removed_all:
  assumes "agrees c st" "list_all2 (\<lambda>i tx. st i = Some tx) is txs" "distinct is"
  shows "agrees (foldl removed_hook c txs) (st |` (- set is))"
  using assms
proof (induction "is" arbitrary: c st txs)
  case (Cons i "is")
  then obtain tx txs' where txs: "txs = tx # txs'" "st i = Some tx"
      "list_all2 (\<lambda>i tx. st i = Some tx) is txs'"
    by (auto simp: list_all2_Cons1)
  have "list_all2 (\<lambda>j tx. (st(i := None)) j = Some tx) is txs'"
    using txs(3) Cons.prems(3) by (auto simp: list_all2_conv_all_nth)
  with agrees_removed [OF Cons.prems(1) txs(2)]
  have "agrees (foldl removed_hook (removed_hook c tx) txs') ((st(i := None)) |` (- set is))"
    by (rule Cons.IH) (use Cons.prems(3) in simp)
  moreover have "(st(i := None)) |` (- set is) = st |` (- set (i # is))"
    by (auto simp: fun_eq_iff restrict_map_def)
  ultimately show ?case
    by (simp only: txs(1) foldl_Cons)
qed (simp add: restrict_map_def)

lemma conflicting_restrict: "conflicting (st |` A) tx = conflicting st tx \<inter> A"
  by (auto simp: conflicting_def restrict_map_def)

lemma replace_collided:
  assumes "agrees c st" "find c tx = Inr cs" "fst ` set cs \<subseteq> set is"
    and "list_all2 (\<lambda>i tx. st i = Some tx) is txs" "distinct is" "st j = None \<or> j \<in> set is"
  shows "agrees (stored_hook (foldl removed_hook c txs) j tx) ((st |` (- set is))(j \<mapsto> tx))"
proof (rule agrees_stored)
  show "agrees (foldl removed_hook c txs) (st |` (- set is))"
    using assms by (intro agrees_removed_all)
  show "conflicting (st |` (- set is)) tx = {}"
    unfolding conflicting_restrict using find_conflicting [OF assms(1,2)] assms(3) by blast
qed (use assms(6) in \<open>auto simp: restrict_map_def\<close>)

end

interpretation basic: collision_tracking find_collisions on_stored_transaction on_removed_transaction cm_integrity
  by unfold_locales
    (auto intro: cm_integrity_stored cm_integrity_removed cm_integrity_exclusive
      simp: find_collisions_conflicting)

section \<open>Requirements on a colliding transaction\<close>

text \<open>A ratio of two machine words; building it panics on a zero denominator (\<open>None\<close>).\<close>

definition ratio_new :: "u64 \<Rightarrow> u64 \<Rightarrow> rat option" where
  "ratio_new a b = (if b = 0 then None else Some (of_nat (unat a) / of_nat (unat b)))"

(* src/crates/services/txpool_v2/src/pool/collisions.rs:68-83 is_better_than_collision *)
definition is_better_than_collision ::
    "('i \<Rightarrow> storage_data option) \<Rightarrow> pool_tx \<Rightarrow> 'i \<Rightarrow> (collision_reason, bool) result option" where
  "is_better_than_collision get tx collision =
     (case ratio_new (tx_tip tx) (tx_max_gas tx) of
        None \<Rightarrow> None
      | Some new_tx_ratio \<Rightarrow>
          (case get collision of
             None \<Rightarrow> Some (Inl CollisionUnknown)
           | Some d \<Rightarrow>
               (case ratio_new (dependents_cumulative_tip d) (dependents_cumulative_gas d) of
                  None \<Rightarrow> None
                | Some colliding_tx_ratio \<Rightarrow> Some (Inr (colliding_tx_ratio < new_tx_ratio)))))"

fun check_collisions_better ::
    "('i \<Rightarrow> storage_data option) \<Rightarrow> pool_tx \<Rightarrow> 'i collisions \<Rightarrow> (collision_reason, unit) result option" where
  "check_collisions_better get tx [] = Some (Inr ())"
| "check_collisions_better get tx ((i, rs) # cs) =
     (case is_better_than_collision get tx i of
        None \<Rightarrow> None
      | Some (Inl e) \<Rightarrow> Some (Inl e)
      | Some (Inr better) \<Rightarrow>
          (if better then check_collisions_better get tx cs
           else Some (Inl (case rs of r # _ \<Rightarrow> r | [] \<Rightarrow> CollisionUnknown))))"

(* src/crates/services/txpool_v2/src/pool/collisions.rs:35-65 CollisionsExt::check_collision_requirements *)
definition check_collision_requirements ::
    "('i \<Rightarrow> storage_data option) \<Rightarrow> 'i collisions \<Rightarrow> pool_tx \<Rightarrow> bool
      \<Rightarrow> (collision_reason, unit) result option" where
  "check_collision_requirements get cs tx has_dependencies =
     (if has_dependencies \<and> 1 < length cs then Some (Inl MultipleCollisions)
      else check_collisions_better get tx cs)"

definition worth :: "u64 \<Rightarrow> u64 \<Rightarrow> rat" where
  "worth tip gas = of_nat (unat tip) / of_nat (unat gas)"

lemma is_better_than_collision_worth:
  "tx_max_gas tx \<noteq> 0 \<Longrightarrow> get i = Some d \<Longrightarrow> dependents_cumulative_gas d \<noteq> 0 \<Longrightarrow>
     is_better_than_collision get tx i = Some (Inr
       (worth (dependents_cumulative_tip d) (dependents_cumulative_gas d) < worth (tx_tip tx) (tx_max_gas tx)))"
  by (simp add: is_better_than_collision_def ratio_new_def worth_def)

lemma check_collisions_better_iff:
  assumes "tx_max_gas tx \<noteq> 0"
    and "\<forall>i\<in>fst ` set cs. \<exists>d. get i = Some d \<and> dependents_cumulative_gas d \<noteq> 0"
  shows "check_collisions_better get tx cs \<noteq> None \<and>
    (check_collisions_better get tx cs = Some (Inr ()) \<longleftrightarrow>
     (\<forall>i\<in>fst ` set cs. \<forall>d. get i = Some d \<longrightarrow>
        worth (dependents_cumulative_tip d) (dependents_cumulative_gas d) < worth (tx_tip tx) (tx_max_gas tx)))"
  using assms(2)
proof (induction cs)
  case (Cons c cs)
  obtain i rs where c: "c = (i, rs)" by (cases c)
  then obtain d where d: "get i = Some d" "dependents_cumulative_gas d \<noteq> 0"
    using Cons.prems by auto
  show ?case
    using Cons c d is_better_than_collision_worth [of tx get i d] assms(1) by simp
qed simp

text \<open>C37: On a collision manager that agrees with the stored transactions, the collisions found for a
  transaction are exactly its conflicts, with exactly the reasons: a stored transaction is reported for
  a reason if and only if both claim the resource the reason names (a coin or a message they spend, a
  contract they create, a blob they use), and every colliding transaction is reported once.\<close>

theorem find_collisions_exact:
  assumes "cm_integrity cm stored" "find_collisions cm tx = Inr cs"
  shows "distinct (map fst cs) \<and>
    (\<forall>i r. records_reason cs i r \<longleftrightarrow>
       (\<exists>a res. stored i = Some a \<and> res \<in> resources a \<inter> resources tx \<and> r = reason_of res))"
  using find_collisions_records [OF assms(2)] cm_integrityD [OF assms(1)]
  by (auto simp: wf_collisions_def)

definition sample_cm :: "nat collision_manager" where
  "sample_cm = on_stored_transaction collision_manager_new 0 (sample_tx 1 [] [OutContractCreated 9])"

lemma sample_cm_integrity: "cm_integrity sample_cm [0 \<mapsto> sample_tx 1 [] [OutContractCreated 9]]"
  unfolding sample_cm_def
  by (rule cm_integrity_stored [OF cm_integrity_new]) (simp_all add: conflicting_def)

theorem find_collisions_exact_witness:
  "records_reason [(0 :: nat, [CollisionContractCreation 9])] 0 (CollisionContractCreation 9) \<longleftrightarrow>
     (\<exists>a res. [0 :: nat \<mapsto> sample_tx 1 [] [OutContractCreated 9]] 0 = Some a
        \<and> res \<in> resources a \<inter> resources (sample_tx 2 [] [OutContractCreated 9])
        \<and> CollisionContractCreation 9 = reason_of res)"
proof -
  have "find_collisions sample_cm (sample_tx 2 [] [OutContractCreated 9])
      = Inr [(0, [CollisionContractCreation 9])]"
    by (simp add: find_collisions_def sample_cm_def on_stored_transaction_def store_output_def
        collision_manager_new_def push_found_def)
  from find_collisions_exact [OF sample_cm_integrity this] show ?thesis
    by blast
qed

text \<open>C38: A transaction that collides is accepted exactly when its own tip per gas is strictly higher
  than the tip per gas of the whole dependent subtree of every transaction it collides with, and, if it
  depends on transactions of the pool, when it collides with at most one. The answer does not depend on
  the order in which the collisions are visited, and the check returns whenever the gas figures are not
  zero.\<close>

theorem collision_acceptance:
  assumes "tx_max_gas tx \<noteq> 0"
    and "\<forall>i\<in>fst ` set cs. \<exists>d. get i = Some d \<and> dependents_cumulative_gas d \<noteq> 0"
  shows "check_collision_requirements get cs tx deps \<noteq> None \<and>
    (check_collision_requirements get cs tx deps = Some (Inr ()) \<longleftrightarrow>
     (deps \<longrightarrow> length cs \<le> 1) \<and>
     (\<forall>i\<in>fst ` set cs. \<forall>d. get i = Some d \<longrightarrow>
        worth (dependents_cumulative_tip d) (dependents_cumulative_gas d) < worth (tx_tip tx) (tx_max_gas tx)))"
  using check_collisions_better_iff [OF assms] by (auto simp: check_collision_requirements_def)

definition sample_data :: "pool_tx \<Rightarrow> storage_data" where
  "sample_data tx =
     \<lparr>sd_transaction = tx, dependents_cumulative_tip = 4, dependents_cumulative_gas = 10,
      dependents_cumulative_bytes_size = 20, number_dependents_in_chain = 1, creation_instant = 0\<rparr>"

theorem collision_acceptance_witness:
  "check_collision_requirements [3 :: nat \<mapsto> sample_data (sample_tx 1 [] [])] [(3, [CollisionUnknown])]
     (sample_tx 2 [] []) True = Some (Inr ())"
  using collision_acceptance [of "sample_tx 2 [] []" "[(3 :: nat, [CollisionUnknown])]"
      "[3 \<mapsto> sample_data (sample_tx 1 [] [])]" True]
  by (simp add: sample_data_def worth_def)

end
