(* ===== verification/Tx_Pool_Graph.thy ===== *)
theory Tx_Pool_Graph
  imports Tx_Pool_Collisions
begin

text \<open>
  The storage of the transaction pool (\<open>storage/graph.rs\<close>): a directed graph of transactions with an
  edge from a transaction to each transaction that depends on one of its outputs.

  The graph itself is petgraph's \<open>StableDiGraph\<close>. Its operations are the fields of the record
  \<open>digraph\<close>, an argument of every definition that uses the graph; the behaviour the storage relies on
  is stated by the locale \<open>stable_digraph\<close> of the theory \<open>Tx_Pool_Storage\<close>. Sets of indices that the code keeps in hash sets are lists
  without repetition. A panic of the code and a loop that does not end are the result \<open>None\<close>.

  A recursion over dependencies keeps its pending calls on an explicit stack, which visits the nodes in
  the same order.
\<close>

section \<open>The graph library\<close>

record ('g, 'n) digraph =
  dg_new :: 'g
  node_weight :: "'g \<Rightarrow> 'n \<Rightarrow> storage_data option"
  put_weight :: "'g \<Rightarrow> 'n \<Rightarrow> storage_data \<Rightarrow> 'g"
  add_node :: "'g \<Rightarrow> storage_data \<Rightarrow> 'g \<times> 'n"
  add_edge :: "'g \<Rightarrow> 'n \<Rightarrow> 'n \<Rightarrow> 'g option"
  remove_node :: "'g \<Rightarrow> 'n \<Rightarrow> 'g \<times> storage_data option"
  outgoing :: "'g \<Rightarrow> 'n \<Rightarrow> 'n list"
  incoming :: "'g \<Rightarrow> 'n \<Rightarrow> 'n list"

section \<open>Storage\<close>

(* src/crates/services/txpool_v2/src/storage/graph.rs:61-75 GraphStorage *)
record ('g, 'n) graph_storage =
  gs_max_txs_chain_count :: usize
  gs_graph :: 'g
  gs_coins_creators :: "utxo_id \<rightharpoonup> 'n"
  gs_contracts_creators :: "contract_id \<rightharpoonup> 'n"

(* src/crates/services/txpool_v2/src/storage/graph.rs:79-86 GraphStorage::new *)
definition graph_storage_new :: "('g, 'n) digraph \<Rightarrow> usize \<Rightarrow> ('g, 'n) graph_storage" where
  "graph_storage_new G max_chain =
     \<lparr>gs_max_txs_chain_count = max_chain, gs_graph = dg_new G, gs_coins_creators = Map.empty,
      gs_contracts_creators = Map.empty\<rparr>"

definition reduce_data :: "storage_data \<Rightarrow> storage_data \<Rightarrow> storage_data" where
  "reduce_data removed rnode =
     rnode\<lparr>dependents_cumulative_gas :=
            saturating_sub (dependents_cumulative_gas rnode) (dependents_cumulative_gas removed),
          dependents_cumulative_tip :=
            saturating_sub (dependents_cumulative_tip rnode) (dependents_cumulative_tip removed),
          number_dependents_in_chain :=
            saturating_sub (number_dependents_in_chain rnode) (number_dependents_in_chain removed),
          dependents_cumulative_bytes_size :=
            saturating_sub (dependents_cumulative_bytes_size rnode)
              (dependents_cumulative_bytes_size removed)\<rparr>"

(* src/crates/services/txpool_v2/src/storage/graph.rs:97-130 GraphStorage::reduce_dependencies_cumulative_gas_tip_and_chain_count *)
partial_function (option) reduce_dependencies ::
    "('g, 'n) digraph \<Rightarrow> storage_data \<Rightarrow> 'n list \<Rightarrow> 'g \<Rightarrow> 'g option" where
  "reduce_dependencies G removed stack g =
     (case stack of
        [] \<Rightarrow> Some g
      | root_id # rest \<Rightarrow>
          (case node_weight G g root_id of
             None \<Rightarrow> reduce_dependencies G removed rest g
           | Some rnode \<Rightarrow>
               (let g' = put_weight G g root_id (reduce_data removed rnode)
                in reduce_dependencies G removed (incoming G g' root_id @ rest) g')))"

fun clear_output_cache ::
    "tx_id \<Rightarrow> ('g, 'n) graph_storage \<Rightarrow> u16 \<times> tx_output \<Rightarrow> ('g, 'n) graph_storage" where
  "clear_output_cache t s (i, OutCoin _ _ _) =
     s\<lparr>gs_coins_creators := (gs_coins_creators s)((t, i) := None)\<rparr>"
| "clear_output_cache t s (i, OutContractCreated c) =
     s\<lparr>gs_contracts_creators := (gs_contracts_creators s)(c := None)\<rparr>"
| "clear_output_cache t s (i, _) = s"

(* src/crates/services/txpool_v2/src/storage/graph.rs:290-310 GraphStorage::clear_cache *)
definition clear_cache :: "('g, 'n) graph_storage \<Rightarrow> storage_data \<Rightarrow> ('g, 'n) graph_storage" where
  "clear_cache s d =
     (let tx = sd_transaction d
      in foldl (clear_output_cache (tx_id tx)) s (enumerate_from 0 (tx_outputs tx)))"

(* src/crates/services/txpool_v2/src/storage/graph.rs:142-189 GraphStorage::bfs *)
partial_function (option) bfs_loop ::
    "('g, 'n) digraph \<Rightarrow> 'n list \<Rightarrow> ('g, 'n) graph_storage \<Rightarrow> storage_data list
      \<Rightarrow> (('g, 'n) graph_storage \<times> storage_data list) option" where
  "bfs_loop G queue s res =
     (case queue of
        [] \<Rightarrow> Some (s, res)
      | r # rest \<Rightarrow>
          (let dependents = outgoing G (gs_graph s) r;
               dependencies = incoming G (gs_graph s) r
           in case remove_node G (gs_graph s) r of
                (g', None) \<Rightarrow> None
              | (g', Some entry) \<Rightarrow>
                  (let s' = clear_cache (s\<lparr>gs_graph := g'\<rparr>) entry
                   in case reduce_dependencies G entry dependencies (gs_graph s') of
                        None \<Rightarrow> None
                      | Some g'' \<Rightarrow>
                          bfs_loop G (rest @ dependents) (s'\<lparr>gs_graph := g''\<rparr>) (res @ [entry]))))"

(* src/crates/services/txpool_v2/src/storage/graph.rs:135-150 GraphStorage::remove_node_and_dependent_sub_graph *)
definition remove_node_and_dependent_sub_graph ::
    "('g, 'n) digraph \<Rightarrow> ('g, 'n) graph_storage \<Rightarrow> 'n
      \<Rightarrow> (('g, 'n) graph_storage \<times> storage_data list) option" where
  "remove_node_and_dependent_sub_graph G s root_id =
     (if node_weight G (gs_graph s) root_id = None then Some (s, [])
      else bfs_loop G [root_id] s [])"

(* src/crates/services/txpool_v2/src/storage/graph.rs:749-754 Storage::remove_transaction_and_dependents_subtree *)
definition remove_transaction_and_dependents_subtree ::
    "('g, 'n) digraph \<Rightarrow> ('g, 'n) graph_storage \<Rightarrow> 'n
      \<Rightarrow> (('g, 'n) graph_storage \<times> storage_data list) option" where
  "remove_transaction_and_dependents_subtree G s index = remove_node_and_dependent_sub_graph G s index"

(* src/crates/services/txpool_v2/src/storage/graph.rs:756-760 Storage::remove_transaction *)
definition remove_transaction ::
    "('g, 'n) digraph \<Rightarrow> ('g, 'n) graph_storage \<Rightarrow> 'n \<Rightarrow> ('g, 'n) graph_storage \<times> storage_data option" where
  "remove_transaction G s index =
     (case remove_node G (gs_graph s) index of
        (g', None) \<Rightarrow> (s\<lparr>gs_graph := g'\<rparr>, None)
      | (g', Some entry) \<Rightarrow> (clear_cache (s\<lparr>gs_graph := g'\<rparr>) entry, Some entry))"

(* src/crates/services/txpool_v2/src/storage/graph.rs:312-314 GraphStorage::get_inner *)
definition gs_get :: "('g, 'n) digraph \<Rightarrow> ('g, 'n) graph_storage \<Rightarrow> 'n \<Rightarrow> storage_data option" where
  "gs_get G s index = node_weight G (gs_graph s) index"

(* src/crates/services/txpool_v2/src/storage/graph.rs:316-322 GraphStorage::get_direct_dependents *)
definition get_direct_dependents :: "('g, 'n) digraph \<Rightarrow> ('g, 'n) graph_storage \<Rightarrow> 'n \<Rightarrow> 'n list" where
  "get_direct_dependents G s index = outgoing G (gs_graph s) index"

(* src/crates/services/txpool_v2/src/storage/graph.rs:324-330 GraphStorage::get_direct_dependencies *)
definition get_direct_dependencies :: "('g, 'n) digraph \<Rightarrow> ('g, 'n) graph_storage \<Rightarrow> 'n \<Rightarrow> 'n list" where
  "get_direct_dependencies G s index = incoming G (gs_graph s) index"

(* src/crates/services/txpool_v2/src/storage/graph.rs:612-614 Storage::has_dependencies *)
definition has_dependencies :: "('g, 'n) digraph \<Rightarrow> ('g, 'n) graph_storage \<Rightarrow> 'n \<Rightarrow> bool" where
  "has_dependencies G s index \<longleftrightarrow> get_direct_dependencies G s index \<noteq> []"

section \<open>Storing a transaction\<close>

definition insert_dependency ::
    "usize \<Rightarrow> 'n list \<Rightarrow> 'n option \<Rightarrow> (pool_error, 'n list) result" where
  "insert_dependency max_chain deps found =
     (case found of
        None \<Rightarrow> Inr deps
      | Some n \<Rightarrow>
          (let deps' = (if n \<in> set deps then deps else deps @ [n])
           in if unat max_chain \<le> length deps' then Inl (Dependency NotInsertedChainDependencyTooBig)
              else Inr deps'))"

fun collect_dependencies ::
    "('g, 'n) graph_storage \<Rightarrow> 'n list \<Rightarrow> tx_input list \<Rightarrow> (pool_error, 'n list) result" where
  "collect_dependencies s deps [] = Inr deps"
| "collect_dependencies s deps (inp # inps) =
     (case (case input_view inp of
              VCoin c \<Rightarrow> insert_dependency (gs_max_txs_chain_count s) deps (gs_coins_creators s (ci_utxo_id c))
            | VMessage m \<Rightarrow> Inr deps
            | VContract c \<Rightarrow> insert_dependency (gs_max_txs_chain_count s) deps (gs_contracts_creators s c)) of
        Inl e \<Rightarrow> Inl e
      | Inr deps' \<Rightarrow> collect_dependencies s deps' inps)"

(* src/crates/services/txpool_v2/src/storage/graph.rs:332-369 GraphStorage::collect_transaction_direct_dependencies *)
definition collect_transaction_direct_dependencies ::
    "('g, 'n) graph_storage \<Rightarrow> pool_tx \<Rightarrow> (pool_error, 'n list) result" where
  "collect_transaction_direct_dependencies s tx = collect_dependencies s [] (tx_inputs tx)"

text \<open>The loop over the dependencies still to visit, the last one first.\<close>

function visit_dependencies ::
    "('g, 'n) digraph \<Rightarrow> ('g, 'n) graph_storage \<Rightarrow> 'n list \<Rightarrow> 'n list \<Rightarrow> (pool_error, 'n list) result" where
  "visit_dependencies G s to_check all =
     (if to_check = [] then Inr all
      else
        (let n = last to_check; rest = butlast to_check
         in if n \<in> set all then Inl (Dependency DependentTransactionIsADiamondDeath)
            else if unat (gs_max_txs_chain_count s) \<le> length (all @ [n])
              then Inl (Dependency NotInsertedChainDependencyTooBig)
            else (case node_weight G (gs_graph s) n of
                    None \<Rightarrow> visit_dependencies G s rest (all @ [n])
                  | Some d \<Rightarrow>
                      (if gs_max_txs_chain_count s \<le> number_dependents_in_chain d
                       then Inl (Dependency NotInsertedChainDependencyTooBig)
                       else visit_dependencies G s (rest @ incoming G (gs_graph s) n) (all @ [n])))))"
  by pat_completeness auto
termination
  by (relation "measure (\<lambda>(G, s, to_check, all). unat (gs_max_txs_chain_count s) - length all)") auto

declare visit_dependencies.simps [simp del]

(* src/crates/services/txpool_v2/src/storage/graph.rs:530-599 Storage::can_store_transaction *)
definition can_store_transaction ::
    "('g, 'n) digraph \<Rightarrow> ('g, 'n) graph_storage \<Rightarrow> pool_tx \<Rightarrow> (pool_error, 'n checked_transaction) result" where
  "can_store_transaction G s tx =
     (case collect_transaction_direct_dependencies s tx of
        Inl e \<Rightarrow> Inl e
      | Inr direct \<Rightarrow>
          (case visit_dependencies G s direct [] of
             Inl e \<Rightarrow> Inl e
           | Inr all \<Rightarrow> Inr \<lparr>ct_tx = tx, direct_dependencies = direct, all_dependencies = all\<rparr>))"

definition add_dependent_data :: "pool_tx \<Rightarrow> storage_data \<Rightarrow> storage_data" where
  "add_dependent_data tx node =
     node\<lparr>number_dependents_in_chain := saturating_add (number_dependents_in_chain node) 1,
          dependents_cumulative_tip := saturating_add (dependents_cumulative_tip node) (tx_tip tx),
          dependents_cumulative_gas := saturating_add (dependents_cumulative_gas node) (tx_max_gas tx),
          dependents_cumulative_bytes_size :=
            saturating_add (dependents_cumulative_bytes_size node) (metered_bytes_size tx)\<rparr>"

definition add_dependent :: "('g, 'n) digraph \<Rightarrow> pool_tx \<Rightarrow> 'g \<Rightarrow> 'n \<Rightarrow> 'g" where
  "add_dependent G tx g n =
     (case node_weight G g n of
        None \<Rightarrow> g
      | Some node \<Rightarrow> put_weight G g n (add_dependent_data tx node))"

fun add_edges :: "('g, 'n) digraph \<Rightarrow> 'n list \<Rightarrow> 'n \<Rightarrow> 'g \<Rightarrow> 'g option" where
  "add_edges G [] n g = Some g"
| "add_edges G (dep # deps) n g =
     (case add_edge G g dep n of None \<Rightarrow> None | Some g' \<Rightarrow> add_edges G deps n g')"

fun cache_output ::
    "tx_id \<Rightarrow> 'n \<Rightarrow> ('g, 'n) graph_storage \<Rightarrow> u16 \<times> tx_output \<Rightarrow> ('g, 'n) graph_storage" where
  "cache_output t n s (i, OutCoin _ _ _) =
     s\<lparr>gs_coins_creators := (gs_coins_creators s)((t, i) \<mapsto> n)\<rparr>"
| "cache_output t n s (i, OutContractCreated c) =
     s\<lparr>gs_contracts_creators := (gs_contracts_creators s)(c \<mapsto> n)\<rparr>"
| "cache_output t n s (i, _) = s"

(* src/crates/services/txpool_v2/src/storage/graph.rs:261-287 GraphStorage::cache_tx_infos *)
definition cache_tx_infos ::
    "('g, 'n) digraph \<Rightarrow> ('g, 'n) graph_storage \<Rightarrow> tx_id \<Rightarrow> 'n \<Rightarrow> ('g, 'n) graph_storage option" where
  "cache_tx_infos G s t n =
     (case node_weight G (gs_graph s) n of
        None \<Rightarrow> None
      | Some d \<Rightarrow>
          Some (foldl (cache_output t n) s (enumerate_from 0 (tx_outputs (sd_transaction d)))))"

definition new_storage_data :: "pool_tx \<Rightarrow> instant \<Rightarrow> storage_data" where
  "new_storage_data tx now =
     \<lparr>sd_transaction = tx, dependents_cumulative_tip = tx_tip tx,
      dependents_cumulative_gas = tx_max_gas tx,
      dependents_cumulative_bytes_size = metered_bytes_size tx, number_dependents_in_chain = 1,
      creation_instant = now\<rparr>"

(* src/crates/services/txpool_v2/src/storage/graph.rs:468-528 Storage::store_transaction *)
definition store_transaction ::
    "('g, 'n) digraph \<Rightarrow> ('g, 'n) graph_storage \<Rightarrow> 'n checked_transaction \<Rightarrow> instant
      \<Rightarrow> (('g, 'n) graph_storage \<times> 'n) option" where
  "store_transaction G s ct now =
     (let tx = ct_tx ct;
          g = foldl (add_dependent G tx) (gs_graph s) (all_dependencies ct);
          (g, node_id) = add_node G g (new_storage_data tx now)
      in case add_edges G (direct_dependencies ct) node_id g of
           None \<Rightarrow> None
         | Some g' \<Rightarrow>
             (case cache_tx_infos G (s\<lparr>gs_graph := g'\<rparr>) (tx_id tx) node_id of
                None \<Rightarrow> None
              | Some s' \<Rightarrow> Some (s', node_id)))"

section \<open>Validation of inputs\<close>

(* src/crates/types/src/entities/coins/coin.rs:54-79 CompressedCoin *)
record compressed_coin =
  cc_owner :: address
  cc_amount :: u64
  cc_asset_id :: asset_id

(* src/crates/types/src/entities/relayer/message.rs:34-62 Message *)
record da_message =
  msg_sender :: address
  msg_recipient :: address
  msg_nonce :: nonce
  msg_amount :: u64
  msg_data :: "u8 list"

(* src/crates/types/src/entities/coins/coin.rs:161-183 CompressedCoin::matches_input *)
definition coin_matches_input :: "compressed_coin \<Rightarrow> tx_input \<Rightarrow> bool option" where
  "coin_matches_input coin inp =
     (case input_view inp of
        VCoin c \<Rightarrow>
          Some (ci_owner c = cc_owner coin \<and> ci_amount c = cc_amount coin \<and> ci_asset_id c = cc_asset_id coin)
      | _ \<Rightarrow> None)"

(* src/crates/types/src/entities/relayer/message.rs:195-241 Message::matches_input *)
definition message_matches_input :: "da_message \<Rightarrow> tx_input \<Rightarrow> bool option" where
  "message_matches_input msg inp =
     (case input_view inp of
        VMessage m \<Rightarrow>
          (let expected_data = (if msg_data msg = [] then None else Some (msg_data msg))
           in Some (msg_sender msg = mi_sender m \<and> msg_recipient msg = mi_recipient m
                \<and> msg_nonce msg = mi_nonce m \<and> msg_amount msg = mi_amount m \<and> expected_data = mi_data m))
      | _ \<Rightarrow> None)"

(* src/crates/services/txpool_v2/src/ports.rs:57-71 TxPoolPersistentStorage *)
record persistent_storage =
  ps_utxo :: "utxo_id \<Rightarrow> (string, compressed_coin option) result"
  ps_contract_exist :: "contract_id \<Rightarrow> (string, bool) result"
  ps_blob_exist :: "blob_id \<Rightarrow> (string, bool) result"
  ps_message :: "nonce \<Rightarrow> (string, da_message option) result"

(* src/crates/services/txpool_v2/src/storage/graph.rs:192-257 GraphStorage::check_if_coin_input_can_spend_output *)
definition check_if_coin_input_can_spend_output :: "tx_output \<Rightarrow> tx_input \<Rightarrow> (pool_error, unit) result" where
  "check_if_coin_input_can_spend_output out inp =
     (case input_view inp of
        VCoin c \<Rightarrow>
          (case out of
             OutCoin to amount asset \<Rightarrow>
               (if to \<noteq> ci_owner c then Inl (InputValidation NotInsertedIoWrongOwner)
                else if amount \<noteq> ci_amount c then Inl (InputValidation NotInsertedIoWrongAmount)
                else if asset \<noteq> ci_asset_id c then Inl (InputValidation NotInsertedIoWrongAssetId)
                else Inr ())
           | OutContract \<Rightarrow> Inl (InputValidation NotInsertedIoContractOutput)
           | OutChange \<Rightarrow> Inl (InputValidation NotInsertedInputDependentOnChangeOrVariable)
           | OutVariable \<Rightarrow> Inl (InputValidation NotInsertedInputDependentOnChangeOrVariable)
           | OutContractCreated _ \<Rightarrow> Inl (InputValidation NotInsertedIoContractOutput))
      | _ \<Rightarrow> Inr ())"

text \<open>The verdict on one input: an inconsistency, an input that is missing, or nothing to report.
  Reading past the end of the outputs of the creating transaction panics (\<open>None\<close>).\<close>

definition validate_coin ::
    "('g, 'n) digraph \<Rightarrow> ('g, 'n) graph_storage \<Rightarrow> persistent_storage \<Rightarrow> extracted_outputs \<Rightarrow> bool
      \<Rightarrow> tx_input \<Rightarrow> coin_input \<Rightarrow> (pool_error, missing_input option) result option" where
  "validate_coin G s ps eo uv inp c =
     (case gs_coins_creators s (ci_utxo_id c) of
        Some node_id \<Rightarrow>
          (case node_weight G (gs_graph s) node_id of
             None \<Rightarrow> Some (Inl (StorageError ''Node not found''))
           | Some node \<Rightarrow>
               (case output_at (sd_transaction node) (snd (ci_utxo_id c)) of
                  None \<Rightarrow> None
                | Some out \<Rightarrow>
                    (case check_if_coin_input_can_spend_output out inp of
                       Inl e \<Rightarrow> Some (Inl e)
                     | Inr _ \<Rightarrow> Some (Inr None))))
      | None \<Rightarrow>
          (if uv then
             (case ps_utxo ps (ci_utxo_id c) of
                Inr (Some coin) \<Rightarrow>
                  (case coin_matches_input coin inp of
                     None \<Rightarrow> None
                   | Some matches \<Rightarrow>
                       (if matches then Some (Inr None)
                        else Some (Inl (InputValidation NotInsertedIoCoinMismatch))))
              | Inr None \<Rightarrow>
                  (if coin_exists eo (ci_utxo_id c) (ci_owner c) (ci_amount c) (ci_asset_id c)
                   then Some (Inr None)
                   else Some (Inr (Some (MissingUtxo (ci_utxo_id c)))))
              | Inl e \<Rightarrow> Some (Inl (DatabaseError e)))
           else Some (Inr None)))"

definition validate_message ::
    "persistent_storage \<Rightarrow> bool \<Rightarrow> tx_input \<Rightarrow> message_input
      \<Rightarrow> (pool_error, missing_input option) result option" where
  "validate_message ps uv inp m =
     (if uv then
        (case ps_message ps (mi_nonce m) of
           Inr (Some db_message) \<Rightarrow>
             (case message_matches_input db_message inp of
                None \<Rightarrow> None
              | Some matches \<Rightarrow>
                  (if matches then Some (Inr None)
                   else Some (Inl (InputValidation NotInsertedIoMessageMismatch))))
         | Inr None \<Rightarrow> Some (Inl (InputValidation (NotInsertedInputMessageUnknown (mi_nonce m))))
         | Inl e \<Rightarrow> Some (Inl (DatabaseError e)))
      else Some (Inr None))"

definition validate_contract ::
    "('g, 'n) graph_storage \<Rightarrow> persistent_storage \<Rightarrow> extracted_outputs \<Rightarrow> contract_id
      \<Rightarrow> (pool_error, missing_input option) result option" where
  "validate_contract s ps eo c =
     (if gs_contracts_creators s c = None then
        (case ps_contract_exist ps c of
           Inr True \<Rightarrow> Some (Inr None)
         | Inr False \<Rightarrow>
             (if contract_exists eo c then Some (Inr None) else Some (Inr (Some (MissingContract c))))
         | Inl e \<Rightarrow> Some (Inl (DatabaseError e)))
      else Some (Inr None))"

definition validate_input ::
    "('g, 'n) digraph \<Rightarrow> ('g, 'n) graph_storage \<Rightarrow> persistent_storage \<Rightarrow> extracted_outputs \<Rightarrow> bool
      \<Rightarrow> tx_input \<Rightarrow> (pool_error, missing_input option) result option" where
  "validate_input G s ps eo uv inp =
     (case input_view inp of
        VCoin c \<Rightarrow> validate_coin G s ps eo uv inp c
      | VMessage m \<Rightarrow> validate_message ps uv inp m
      | VContract c \<Rightarrow> validate_contract s ps eo c)"

fun validate_inputs_loop ::
    "(tx_input \<Rightarrow> (pool_error, missing_input option) result option) \<Rightarrow> missing_input list \<Rightarrow> tx_input list
      \<Rightarrow> (input_validation_failure, unit) result option" where
  "validate_inputs_loop v missing [] =
     Some (if missing = [] then Inr () else Inl (ValidationMissingInputs missing))"
| "validate_inputs_loop v missing (inp # inps) =
     (case v inp of
        None \<Rightarrow> None
      | Some (Inl e) \<Rightarrow> Some (Inl (Inconsistency e))
      | Some (Inr None) \<Rightarrow> validate_inputs_loop v missing inps
      | Some (Inr (Some m)) \<Rightarrow> validate_inputs_loop v (missing @ [m]) inps)"

(* src/crates/services/txpool_v2/src/storage/graph.rs:616-747 Storage::validate_inputs *)
definition validate_inputs ::
    "('g, 'n) digraph \<Rightarrow> ('g, 'n) graph_storage \<Rightarrow> pool_tx \<Rightarrow> persistent_storage \<Rightarrow> extracted_outputs \<Rightarrow> bool
      \<Rightarrow> (input_validation_failure, unit) result option" where
  "validate_inputs G s tx ps eo uv =
     validate_inputs_loop (validate_input G s ps eo uv) [] (tx_inputs tx)"

end
