(* ===== verification/Unique_Paths.thy ===== *)
theory Unique_Paths
  imports Main
begin

text \<open>
  Relations without diamonds: between two nodes there is at most one path. The dependency graph of the
  transaction pool is kept in this shape. The property is stated for the predecessors of a node, the
  direction in which insertion checks it, and holds for the successors as well. The lemmas say how
  ancestors and descendants change when a node is removed or a node without successors is added.
\<close>

definition up :: "('n \<times> 'n) set \<Rightarrow> 'n \<Rightarrow> 'n set" where
  "up E n = {a. (a, n) \<in> E\<^sup>*}"

definition down :: "('n \<times> 'n) set \<Rightarrow> 'n \<Rightarrow> 'n set" where
  "down E n = {b. (n, b) \<in> E\<^sup>*}"

definition unique_paths :: "('n \<times> 'n) set \<Rightarrow> bool" where
  "unique_paths E \<longleftrightarrow> acyclic E
     \<and> (\<forall>x y b. (x, b) \<in> E \<and> (y, b) \<in> E \<and> x \<noteq> y \<longrightarrow> up E x \<inter> up E y = {})"

lemma unique_pathsD:
  "unique_paths E \<Longrightarrow> (x, b) \<in> E \<Longrightarrow> (y, b) \<in> E \<Longrightarrow> x \<noteq> y \<Longrightarrow> up E x \<inter> up E y = {}"
  unfolding unique_paths_def by blast

lemma up_refl [simp, intro]: "n \<in> up E n" and down_refl [simp, intro]: "n \<in> down E n"
  by (simp_all add: up_def down_def)

lemma up_iff_down: "a \<in> up E n \<longleftrightarrow> n \<in> down E a"
  by (simp add: up_def down_def)

lemma up_step: "up E n = insert n (\<Union>p\<in>{p. (p, n) \<in> E}. up E p)"
  by (auto simp: up_def elim: rtranclE intro: rtrancl_into_rtrancl)

lemma down_step: "down E n = insert n (\<Union>c\<in>{c. (n, c) \<in> E}. down E c)"
  by (auto simp: down_def elim: converse_rtranclE intro: converse_rtrancl_into_rtrancl)

lemma up_mono: "E \<subseteq> F \<Longrightarrow> up E n \<subseteq> up F n" and down_mono: "E \<subseteq> F \<Longrightarrow> down E n \<subseteq> down F n"
  by (auto simp: up_def down_def dest: rtrancl_mono)

lemma unique_paths_mono: "unique_paths F \<Longrightarrow> E \<subseteq> F \<Longrightarrow> unique_paths E"
  unfolding unique_paths_def using up_mono [of E F] by (blast intro: acyclic_subset)

lemma not_up_parent: "acyclic E \<Longrightarrow> (p, n) \<in> E \<Longrightarrow> n \<notin> up E p"
  by (auto simp: up_def acyclic_def dest: rtrancl_into_trancl2 rtrancl_into_trancl1)

lemma unique_paths_children:
  assumes "unique_paths E" "(a, x) \<in> E" "(a, y) \<in> E" "x \<noteq> y"
  shows "down E x \<inter> down E y = {}"
proof -
  have acyc: "acyclic E" and uniq: "\<And>p q b. (p, b) \<in> E \<Longrightarrow> (q, b) \<in> E \<Longrightarrow> a \<in> up E p \<Longrightarrow> a \<in> up E q \<Longrightarrow> p = q"
    using assms(1) by (auto simp: unique_paths_def)
  have below: "a \<in> up E p" if "(a, c) \<in> E" "(c, p) \<in> E\<^sup>*" for c p
    using that by (auto simp: up_def intro: converse_rtrancl_into_rtrancl)
  have no_loop: False if "(a, c) \<in> E" "(c, a) \<in> E\<^sup>*" for c
    using acyc that by (meson acyclic_def rtrancl_into_trancl2)
  have "(y, z) \<notin> E\<^sup>*" if "(x, z) \<in> E\<^sup>*" for z
    using that
  proof (induction rule: rtrancl_induct)
    case base
    show ?case
    proof
      assume "(y, x) \<in> E\<^sup>*"
      then obtain q where q: "(y, q) \<in> E\<^sup>*" "(q, x) \<in> E"
        using assms(4) by (metis rtranclE)
      then have "q = a"
        using uniq [OF q(2) assms(2)] below [OF assms(3) q(1)] by simp
      then show False using no_loop [OF assms(3)] q(1) by simp
    qed
  next
    case (step p z)
    show ?case
    proof
      assume yz: "(y, z) \<in> E\<^sup>*"
      show False
      proof (cases "y = z")
        case True
        then have "p = a"
          using uniq [OF step.hyps(2), of a] below [OF assms(2) step.hyps(1)] assms(3) by simp
        then show False using no_loop [OF assms(2)] step.hyps(1) by simp
      next
        case False
        then obtain q where q: "(y, q) \<in> E\<^sup>*" "(q, z) \<in> E"
          using yz by (metis rtranclE)
        then have "p = q"
          using uniq [OF step.hyps(2) q(2)] below [OF assms(2) step.hyps(1)] below [OF assms(3) q(1)] by simp
        then show False using step.IH q(1) by simp
      qed
    qed
  qed
  then show ?thesis
    by (auto simp: down_def)
qed

section \<open>Removing a node\<close>

definition without :: "('n \<times> 'n) set \<Rightarrow> 'n \<Rightarrow> ('n \<times> 'n) set" where
  "without E r = {(a, b) \<in> E. a \<noteq> r \<and> b \<noteq> r}"

lemma without_subset: "without E r \<subseteq> E"
  by (auto simp: without_def)

lemma down_without_unrelated:
  assumes "a \<notin> up E r"
  shows "down (without E r) a = down E a"
proof
  show "down E a \<subseteq> down (without E r) a"
  proof
    fix b assume "b \<in> down E a"
    then have "(a, b) \<in> E\<^sup>*" by (simp add: down_def)
    then have "(a, b) \<in> (without E r)\<^sup>*"
    proof (induction rule: rtrancl_induct)
      case (step p b)
      have "p \<noteq> r" "b \<noteq> r"
        using assms step.hyps rtrancl_into_rtrancl [OF step.hyps] by (auto simp: up_def)
      then show ?case
        using step by (auto simp: without_def intro: rtrancl_into_rtrancl)
    qed simp
    then show "b \<in> down (without E r) a" by (simp add: down_def)
  qed
qed (rule down_mono [OF without_subset])

lemma down_without_ancestor:
  assumes "unique_paths E" "a \<in> up E r" "a \<noteq> r"
  shows "down (without E r) a = down E a - down E r"
proof
  have "b \<notin> down E r" if "(a, b) \<in> (without E r)\<^sup>*" for b
    using that
  proof (induction rule: rtrancl_induct)
    case base
    have "(a, r) \<in> E\<^sup>+"
      using assms(2,3) by (simp add: up_def rtrancl_eq_or_trancl)
    then show ?case
      using assms(1) by (auto simp: down_def unique_paths_def acyclic_def dest: trancl_rtrancl_trancl)
  next
    case (step p b)
    show ?case
    proof
      assume "b \<in> down E r"
      moreover have "b \<noteq> r" using step.hyps by (simp add: without_def)
      ultimately obtain q where q: "(r, q) \<in> E\<^sup>*" "(q, b) \<in> E"
        by (metis down_def mem_Collect_eq rtranclE)
      have "a \<in> up E p"
        using rtrancl_mono [OF without_subset [of E r]] step.hyps(1) by (auto simp: up_def)
      moreover have "a \<in> up E q"
        using assms(2) q(1) by (auto simp: up_def)
      moreover have "(p, b) \<in> E" "p \<noteq> q"
        using step q(1) by (auto simp: without_def down_def)
      ultimately show False
        using assms(1) q(2) by (auto simp: unique_paths_def)
    qed
  qed
  then show "down (without E r) a \<subseteq> down E a - down E r"
    using down_mono [OF without_subset] by (fastforce simp: down_def)
  show "down E a - down E r \<subseteq> down (without E r) a"
  proof
    fix b assume b: "b \<in> down E a - down E r"
    then have "(a, b) \<in> E\<^sup>*" by (simp add: down_def)
    moreover have "b \<notin> down E r" using b by simp
    ultimately have "(a, b) \<in> (without E r)\<^sup>*"
    proof (induction rule: rtrancl_induct)
      case (step p b)
      have "p \<notin> down E r"
        using step.prems step.hyps(2) by (auto simp: down_def intro: rtrancl_into_rtrancl)
      moreover have "p \<noteq> r" "b \<noteq> r"
        using calculation step.prems by auto
      ultimately show ?case
        using step by (auto simp: without_def intro: rtrancl_into_rtrancl)
    qed simp
    then show "b \<in> down (without E r) a" by (simp add: down_def)
  qed
qed

lemma up_without:
  assumes "r \<notin> up E a"
  shows "up (without E r) a = up E a"
proof
  show "up E a \<subseteq> up (without E r) a"
  proof
    fix b assume "b \<in> up E a"
    then have "(b, a) \<in> E\<^sup>*" by (simp add: up_def)
    then have "(b, a) \<in> (without E r)\<^sup>*"
    proof (induction rule: converse_rtrancl_induct)
      case (step b p)
      have "p \<noteq> r" "b \<noteq> r"
        using assms step.hyps converse_rtrancl_into_rtrancl [OF step.hyps] by (auto simp: up_def)
      then show ?case
        using step by (auto simp: without_def intro: converse_rtrancl_into_rtrancl)
    qed simp
    then show "b \<in> up (without E r) a" by (simp add: up_def)
  qed
qed (rule up_mono [OF without_subset])

lemma up_parents:
  assumes "acyclic E"
  shows "(\<Union>p\<in>{p. (p, r) \<in> E}. up (without E r) p) = up E r - {r}"
proof -
  have "up (without E r) p = up E p" if "(p, r) \<in> E" for p
    using not_up_parent [OF assms that] by (rule up_without)
  moreover have "r \<notin> (\<Union>p\<in>{p. (p, r) \<in> E}. up E p)"
    using not_up_parent [OF assms] by blast
  ultimately show ?thesis
    using up_step [of E r] by auto
qed

lemma unique_paths_parents:
  assumes "unique_paths E" "(p, r) \<in> E" "(q, r) \<in> E" "p \<noteq> q"
  shows "up (without E r) p \<inter> up (without E r) q = {}"
  using assms up_mono [OF without_subset, of E r p] up_mono [OF without_subset, of E r q]
  unfolding unique_paths_def by blast

section \<open>Adding a node without successors\<close>

definition with_sink :: "('n \<times> 'n) set \<Rightarrow> 'n set \<Rightarrow> 'n \<Rightarrow> ('n \<times> 'n) set" where
  "with_sink E D n = E \<union> D \<times> {n}"

lemma up_with_sink_other:
  assumes "n \<notin> Domain E" "n \<notin> D" "a \<noteq> n"
  shows "up (with_sink E D n) a = up E a"
proof
  show "up (with_sink E D n) a \<subseteq> up E a"
  proof
    fix b assume "b \<in> up (with_sink E D n) a"
    then have "(b, a) \<in> (with_sink E D n)\<^sup>*" by (simp add: up_def)
    then have "b \<noteq> n \<and> (b, a) \<in> E\<^sup>*"
    proof (induction rule: converse_rtrancl_induct)
      case (step b p)
      then show ?case
        using assms by (auto simp: with_sink_def intro: converse_rtrancl_into_rtrancl)
    qed (simp add: assms(3))
    then show "b \<in> up E a" by (simp add: up_def)
  qed
qed (rule up_mono, auto simp: with_sink_def)

lemma up_with_sink:
  assumes "n \<notin> Domain E" "n \<notin> Range E" "n \<notin> D"
  shows "up (with_sink E D n) n = insert n (\<Union>d\<in>D. up E d)"
proof -
  have "{p. (p, n) \<in> with_sink E D n} = D"
    using assms by (auto simp: with_sink_def)
  moreover have "up (with_sink E D n) d = up E d" if "d \<in> D" for d
    using assms that by (intro up_with_sink_other) auto
  ultimately show ?thesis
    by (subst up_step) simp
qed

lemma acyclic_iff_up: "acyclic E \<longleftrightarrow> (\<forall>(a, b)\<in>E. b \<notin> up E a)"
proof
  assume "acyclic E"
  then show "\<forall>(a, b)\<in>E. b \<notin> up E a" using not_up_parent by fast
next
  assume *: "\<forall>(a, b)\<in>E. b \<notin> up E a"
  have "(x, x) \<notin> E\<^sup>+" for x
  proof
    assume "(x, x) \<in> E\<^sup>+"
    then obtain y where "(x, y) \<in> E" "(y, x) \<in> E\<^sup>*" by (meson tranclD)
    then show False using * by (auto simp: up_def)
  qed
  then show "acyclic E" by (simp add: acyclic_def)
qed

lemma unique_paths_with_sink:
  assumes "unique_paths E" "n \<notin> Domain E" "n \<notin> Range E" "n \<notin> D"
    and disj: "\<And>x y. x \<in> D \<Longrightarrow> y \<in> D \<Longrightarrow> x \<noteq> y \<Longrightarrow> up E x \<inter> up E y = {}"
  shows "unique_paths (with_sink E D n)"
proof -
  have other: "up (with_sink E D n) a = up E a" if "a \<noteq> n" for a
    using assms that by (intro up_with_sink_other)
  have nodes: "a \<noteq> n" if "(a, b) \<in> with_sink E D n" for a b
    using that assms by (auto simp: with_sink_def)
  have n_up: "n \<notin> up E d" if "d \<noteq> n" for d
    using that assms(2) by (auto simp: up_def elim: converse_rtranclE)
  have "acyclic (with_sink E D n)"
    unfolding acyclic_iff_up
  proof clarify
    fix a b assume e: "(a, b) \<in> with_sink E D n" and "b \<in> up (with_sink E D n) a"
    then have b: "b \<in> up E a" and a: "a \<noteq> n" using nodes other by auto
    then show False
      using e assms(1) n_up not_up_parent [of E a b] by (auto simp: with_sink_def unique_paths_def)
  qed
  moreover have "up (with_sink E D n) x \<inter> up (with_sink E D n) y = {}"
    if "(x, b) \<in> with_sink E D n" "(y, b) \<in> with_sink E D n" "x \<noteq> y" for x y b
  proof (cases "b = n")
    case True
    then have "x \<in> D" "y \<in> D" using that assms(3) by (auto simp: with_sink_def)
    then show ?thesis using disj [of x y] that nodes other by metis
  next
    case False
    then have "(x, b) \<in> E" "(y, b) \<in> E" using that by (auto simp: with_sink_def)
    then have "up E x \<inter> up E y = {}" using assms(1) that(3) unfolding unique_paths_def by blast
    then show ?thesis using that nodes other by metis
  qed
  ultimately show ?thesis unfolding unique_paths_def by blast
qed

lemma down_with_sink_other:
  assumes "n \<notin> Domain E" "n \<notin> Range E" "n \<notin> D" "a \<noteq> n"
  shows "down (with_sink E D n) a = (if a \<in> (\<Union>d\<in>D. up E d) then insert n (down E a) else down E a)"
proof (rule set_eqI)
  fix b
  have "n \<notin> down E a" if "a \<noteq> n"
    using that assms(2) assms(3) \<open>n \<notin> Range E\<close> by (auto simp: down_def elim: rtranclE)
  then show "b \<in> down (with_sink E D n) a \<longleftrightarrow>
      b \<in> (if a \<in> (\<Union>d\<in>D. up E d) then insert n (down E a) else down E a)"
    using up_with_sink [OF assms(1-3)] up_with_sink_other [OF assms(1,3), of b] assms(4)
    by (cases "b = n") (auto simp: up_iff_down [symmetric])
qed

lemma down_with_sink:
  assumes "n \<notin> Domain E" "n \<notin> D"
  shows "down (with_sink E D n) n = {n}"
proof -
  have "{c. (n, c) \<in> with_sink E D n} = {}"
    using assms by (auto simp: with_sink_def)
  then show ?thesis by (subst down_step) simp
qed

lemma finite_down:
  assumes "finite N" "E \<subseteq> N \<times> N"
  shows "finite (down E n)"
proof (rule finite_subset)
  show "down E n \<subseteq> insert n N"
    using assms(2) by (auto simp: down_def elim: rtranclE)
qed (use assms(1) in simp)

lemma finite_up:
  assumes "finite N" "E \<subseteq> N \<times> N"
  shows "finite (up E n)"
proof (rule finite_subset)
  show "up E n \<subseteq> insert n N"
    using assms(2) by (auto simp: up_def elim: converse_rtranclE)
qed (use assms(1) in simp)

lemma down_subset: "E \<subseteq> N \<times> N \<Longrightarrow> n \<in> N \<Longrightarrow> down E n \<subseteq> N"
  by (auto simp: down_def elim: rtranclE)

lemma up_subset: "E \<subseteq> N \<times> N \<Longrightarrow> n \<in> N \<Longrightarrow> up E n \<subseteq> N"
  by (auto simp: up_def elim: converse_rtranclE)

lemma down_trans: "b \<in> down E a \<Longrightarrow> down E b \<subseteq> down E a"
  by (auto simp: down_def)

end
