(* ===== verification/Tx_Pool_Storage.thy ===== *)
theory Tx_Pool_Storage
  imports Tx_Pool_Graph Unique_Paths "HOL-Library.Multiset"
begin

text \<open>
  Correctness of the storage of \<open>Tx_Pool_Graph\<close>. The locale \<open>stable_digraph\<close> states what the storage
  relies on in the graph library; adjacency lists are an instance. Under it the storage keeps the
  invariant \<open>storage_inv\<close>: at most one dependency path between two transactions, exact totals over the
  dependents of every transaction, exact caches of created coins and contracts, and chains within the
  configured length. Subtree removal always returns and removes exactly the dependents; insertion
  refuses diamonds.
\<close>

section \<open>The shape of the graph\<close>

definition edges :: "('g, 'n) digraph \<Rightarrow> 'g \<Rightarrow> ('n \<times> 'n) set" where
  "edges G g = {(a, b). b \<in> set (outgoing G g a)}"

definition graph_shape :: "('g, 'n) digraph \<Rightarrow> 'g \<Rightarrow> bool" where
  "graph_shape G g \<longleftrightarrow> unique_paths (edges G g) \<and> (\<forall>n. distinct (outgoing G g n))"

definition separate :: "('n \<Rightarrow> 'n set) \<Rightarrow> 'n list \<Rightarrow> bool" where
  "separate f ns \<longleftrightarrow> distinct ns \<and> (\<forall>x\<in>set ns. \<forall>y\<in>set ns. x \<noteq> y \<longrightarrow> f x \<inter> f y = {})"

lemma separateD: "separate f ns \<Longrightarrow> x \<in> set ns \<Longrightarrow> y \<in> set ns \<Longrightarrow> x \<noteq> y \<Longrightarrow> f x \<inter> f y = {}"
  by (simp add: separate_def)

lemma separate_append:
  assumes "\<And>x. x \<in> f x"
  shows "separate f (xs @ ys) \<longleftrightarrow>
    separate f xs \<and> separate f ys \<and> (\<forall>x\<in>set xs. \<forall>y\<in>set ys. f x \<inter> f y = {})"
proof
  assume *: "separate f (xs @ ys)"
  then have "x \<noteq> y" if "x \<in> set xs" "y \<in> set ys" for x y
    using that by (auto simp: separate_def)
  then show "separate f xs \<and> separate f ys \<and> (\<forall>x\<in>set xs. \<forall>y\<in>set ys. f x \<inter> f y = {})"
    using * by (simp add: separate_def)
next
  assume *: "separate f xs \<and> separate f ys \<and> (\<forall>x\<in>set xs. \<forall>y\<in>set ys. f x \<inter> f y = {})"
  then have "set xs \<inter> set ys = {}" using assms by blast
  then show "separate f (xs @ ys)"
    using * unfolding separate_def by (simp add: ball_Un) (metis Int_commute)
qed

lemma separate_Cons:
  assumes "\<And>x. x \<in> f x"
  shows "separate f (x # ys) \<longleftrightarrow> separate f ys \<and> (\<forall>y\<in>set ys. f x \<inter> f y = {})"
  using separate_append [OF assms, of "[x]" ys] by (auto simp: separate_def)

lemmas separate_up = separate_append [OF up_refl] separate_Cons [OF up_refl]
lemmas separate_down = separate_append [OF down_refl] separate_Cons [OF down_refl]

text \<open>The documented behaviour of the graph library: nodes and edges are changed only where asked, a
  new node gets an index that is not in use, removing a node removes its edges, neighbours of an
  absent node are empty, and an edge is seen from both of its ends.\<close>

locale stable_digraph =
  fixes G :: "('g, 'n) digraph"
  assumes weight_new: "node_weight G (dg_new G) n = None"
    and finite_nodes: "finite (dom (node_weight G g))"
    and isolated: "node_weight G g n = None \<Longrightarrow> outgoing G g n = [] \<and> incoming G g n = []"
    and both_ends: "count (mset (incoming G g b)) a = count (mset (outgoing G g a)) b"
    and put_weight: "node_weight G g n \<noteq> None \<Longrightarrow>
          node_weight G (put_weight G g n d) = (node_weight G g)(n \<mapsto> d)
          \<and> outgoing G (put_weight G g n d) = outgoing G g \<and> incoming G (put_weight G g n d) = incoming G g"
    and add_node: "add_node G g d = (g', n) \<Longrightarrow>
          node_weight G g n = None \<and> node_weight G g' = (node_weight G g)(n \<mapsto> d)
          \<and> outgoing G g' = outgoing G g"
    and add_edge: "node_weight G g a \<noteq> None \<Longrightarrow> node_weight G g b \<noteq> None \<Longrightarrow>
          \<exists>g'. add_edge G g a b = Some g' \<and> node_weight G g' = node_weight G g
            \<and> (\<forall>n. mset (outgoing G g' n) = mset (outgoing G g n) + (if n = a then {#b#} else {#}))"
    and remove_node: "node_weight G g n = Some d \<Longrightarrow>
          \<exists>g'. remove_node G g n = (g', Some d) \<and> node_weight G g' = (node_weight G g)(n := None)
            \<and> (\<forall>m. mset (outgoing G g' m) =
                 (if m = n then {#} else filter_mset (\<lambda>x. x \<noteq> n) (mset (outgoing G g m))))"
    and remove_missing: "node_weight G g n = None \<Longrightarrow> remove_node G g n = (g, None)"
begin

lemma set_incoming: "set (incoming G g n) = {p. (p, n) \<in> edges G g}"
  using both_ends [of g n] by (auto simp: edges_def simp flip: set_mset_mset count_greater_zero_iff)

lemma set_outgoing: "set (outgoing G g n) = {c. (n, c) \<in> edges G g}"
  by (simp add: edges_def)

lemma distinct_incoming: "\<forall>n. distinct (outgoing G g n) \<Longrightarrow> distinct (incoming G g n)"
  using both_ends [of g n] by (simp add: distinct_count_atmost_1 both_ends set_incoming edges_def)

lemma edges_nodes: "edges G g \<subseteq> dom (node_weight G g) \<times> dom (node_weight G g)"
proof clarify
  fix a b assume e: "(a, b) \<in> edges G g"
  then have "outgoing G g a \<noteq> []" by (auto simp: edges_def)
  moreover have "incoming G g b \<noteq> []" using e set_incoming [of g b] by auto
  ultimately show "a \<in> dom (node_weight G g) \<and> b \<in> dom (node_weight G g)"
    using isolated by blast
qed

lemma finite_up_node: "finite (up (edges G g) n)" and finite_down_node: "finite (down (edges G g) n)"
  using finite_up [OF finite_nodes edges_nodes] finite_down [OF finite_nodes edges_nodes] by blast+

lemma edges_cong: "outgoing G g' = outgoing G g \<Longrightarrow> edges G g' = edges G g"
  by (simp add: edges_def)

subsection \<open>Reducing the totals of all ancestors\<close>

lemma reduce_dependencies_ancestors:
  assumes "graph_shape G g" "separate (up (edges G g)) stack"
    and "set stack \<subseteq> dom (node_weight G g)"
  shows "\<exists>g'. reduce_dependencies G d stack g = Some g' \<and> outgoing G g' = outgoing G g
    \<and> node_weight G g' = (\<lambda>a. if a \<in> (\<Union>r\<in>set stack. up (edges G g) r)
                               then map_option (reduce_data d) (node_weight G g a) else node_weight G g a)"
  using assms
proof (induction "card (\<Union>r\<in>set stack. up (edges G g) r)" arbitrary: stack g rule: less_induct)
  case less
  let ?E = "edges G g"
  show ?case
  proof (cases stack)
    case Nil
    then show ?thesis by (subst reduce_dependencies.simps) simp
  next
    case (Cons r rest)
    then obtain nd where nd: "node_weight G g r = Some nd"
      using less.prems(3) by auto
    define g1 where "g1 = put_weight G g r (reduce_data d nd)"
    define stack1 where "stack1 = incoming G g1 r @ rest"
    have g1: "node_weight G g1 = (node_weight G g)(r \<mapsto> reduce_data d nd)"
        "outgoing G g1 = outgoing G g" "incoming G g1 = incoming G g"
      using put_weight [of g r] nd by (simp_all add: g1_def)
    then have E1: "edges G g1 = ?E" by (intro edges_cong)
    have acyc: "acyclic ?E" using less.prems(1) by (simp add: graph_shape_def unique_paths_def)
    have parents: "set (incoming G g1 r) = {p. (p, r) \<in> ?E}"
      using set_incoming [of g1 r] E1 by simp
    have rest_disj: "up ?E r \<inter> up ?E x = {}" if "x \<in> set rest" for x
      using less.prems(2) that Cons by (simp add: separate_up)
    then have r_rest: "r \<notin> up ?E x" if "x \<in> set rest" for x
      using that up_refl [of r ?E] by blast
    have r_parents: "r \<notin> up ?E p" if "p \<in> set (incoming G g1 r)" for p
      using that parents not_up_parent [OF acyc] by simp
    have ups: "(\<Union>x\<in>set stack. up ?E x) = insert r (\<Union>x\<in>set stack1. up ?E x)"
      using up_step [of ?E r] parents by (auto simp: Cons stack1_def)
    have new: "r \<notin> (\<Union>x\<in>set stack1. up ?E x)"
      using r_rest r_parents by (auto simp: stack1_def)
    have "card (\<Union>x\<in>set stack1. up (edges G g1) x) < card (\<Union>x\<in>set stack. up ?E x)"
      unfolding ups E1 using new finite_up_node by simp
    moreover have "graph_shape G g1"
      using less.prems(1) E1 g1(2) by (simp add: graph_shape_def)
    moreover have "separate (up (edges G g1)) stack1"
    proof -
      have sub: "up ?E p \<subseteq> up ?E r" if "p \<in> set (incoming G g1 r)" for p
        using that parents up_step [of ?E r] by auto
      have "up ?E p \<inter> up ?E x = {}" if "p \<in> set (incoming G g1 r)" "x \<in> set rest" for p x
        using sub [OF that(1)] rest_disj [OF that(2)] by blast
      moreover have "separate (up ?E) (incoming G g1 r)"
        using distinct_incoming [of g1] less.prems(1) g1(2) parents unique_pathsD [of ?E]
        by (simp add: separate_def graph_shape_def)
      moreover have "separate (up ?E) rest"
        using less.prems(2) Cons by (simp add: separate_up)
      ultimately show ?thesis
        unfolding stack1_def E1 separate_up by blast
    qed
    moreover have "set stack1 \<subseteq> dom (node_weight G g1)"
      using less.prems(3) Cons edges_nodes [of g] parents by (auto simp: stack1_def g1(1))
    ultimately obtain g' where g': "reduce_dependencies G d stack1 g1 = Some g'"
        "outgoing G g' = outgoing G g1"
        "node_weight G g' = (\<lambda>a. if a \<in> (\<Union>x\<in>set stack1. up (edges G g1) x)
             then map_option (reduce_data d) (node_weight G g1 a) else node_weight G g1 a)"
      using less.hyps [of g1 stack1] by blast
    have "reduce_dependencies G d stack g = Some g'"
      using g'(1) nd by (subst reduce_dependencies.simps) (simp add: Cons Let_def g1_def stack1_def)
    moreover have "node_weight G g' = (\<lambda>a. if a \<in> (\<Union>x\<in>set stack. up ?E x)
        then map_option (reduce_data d) (node_weight G g a) else node_weight G g a)"
      unfolding g'(3) ups E1 using new nd by (auto simp: g1(1) fun_eq_iff)
    ultimately show ?thesis
      using g'(2) g1(2) by auto
  qed
qed

subsection \<open>Removing a node and telling its ancestors\<close>

lemma remove_and_reduce:
  assumes "graph_shape G g" "node_weight G g r = Some d"
  obtains g1 g2 where "remove_node G g r = (g1, Some d)"
    and "reduce_dependencies G d (incoming G g r) g1 = Some g2"
    and "node_weight G g2 = (\<lambda>a. if a = r then None
           else if a \<in> up (edges G g) r then map_option (reduce_data d) (node_weight G g a)
           else node_weight G g a)"
    and "edges G g2 = without (edges G g) r" and "graph_shape G g2"
proof -
  let ?E = "edges G g"
  obtain g1 where g1: "remove_node G g r = (g1, Some d)" "node_weight G g1 = (node_weight G g)(r := None)"
      "\<And>m. mset (outgoing G g1 m) =
        (if m = r then {#} else filter_mset (\<lambda>x. x \<noteq> r) (mset (outgoing G g m)))"
    using remove_node [OF assms(2)] by blast
  have out1: "set (outgoing G g1 m) = (if m = r then {} else set (outgoing G g m) - {r})" for m
    using arg_cong [OF g1(3) [of m], of set_mset] by auto
  then have E1: "edges G g1 = without ?E r"
    unfolding edges_def without_def by (auto split: if_splits)
  have "distinct (outgoing G g1 m)" for m
    using assms(1) g1(3) [of m] unfolding graph_shape_def
    by (auto simp: distinct_count_atmost_1 out1 split: if_splits)
  then have shape1: "graph_shape G g1"
    using assms(1) unique_paths_mono [OF _ without_subset] by (auto simp: graph_shape_def E1)
  have acyc: "acyclic ?E" using assms(1) by (simp add: graph_shape_def unique_paths_def)
  have parents: "set (incoming G g r) = {p. (p, r) \<in> ?E}" by (rule set_incoming)
  have "separate (up (edges G g1)) (incoming G g r)"
    using assms(1) unique_paths_parents [of ?E _ r] distinct_incoming [of g r] parents
    unfolding separate_def E1 graph_shape_def by blast
  moreover have "set (incoming G g r) \<subseteq> dom (node_weight G g1)"
    using edges_nodes [of g] parents not_up_parent [OF acyc, of r r] by (auto simp: g1(2))
  ultimately obtain g2 where g2: "reduce_dependencies G d (incoming G g r) g1 = Some g2"
      "outgoing G g2 = outgoing G g1"
      "node_weight G g2 = (\<lambda>a. if a \<in> (\<Union>p\<in>set (incoming G g r). up (edges G g1) p)
           then map_option (reduce_data d) (node_weight G g1 a) else node_weight G g1 a)"
    using reduce_dependencies_ancestors [OF shape1] by blast
  have "(\<Union>p\<in>set (incoming G g r). up (edges G g1) p) = up ?E r - {r}"
    using up_parents [OF acyc, of r] by (simp add: parents E1)
  then have "node_weight G g2 = (\<lambda>a. if a = r then None
      else if a \<in> up ?E r then map_option (reduce_data d) (node_weight G g a) else node_weight G g a)"
    unfolding g2(3) g1(2) by (auto simp: fun_eq_iff)
  moreover have "edges G g2 = without ?E r" "graph_shape G g2"
    using g2(2) shape1 E1 edges_cong [of g2 g1] by (simp_all add: graph_shape_def)
  ultimately show ?thesis
    using that [of g1 g2] g1(1) g2(1) by blast
qed

end

section \<open>Totals\<close>

text \<open>A node carries, for gas, tip, size and number, the total over itself and all its dependents.\<close>

definition exact_total ::
    "('n \<rightharpoonup> storage_data) \<Rightarrow> ('n \<times> 'n) set \<Rightarrow> (storage_data \<Rightarrow> u64) \<Rightarrow> (storage_data \<Rightarrow> u64) \<Rightarrow> bool" where
  "exact_total w E own tot \<longleftrightarrow>
     (\<forall>n d. w n = Some d \<longrightarrow> unat (tot d) = (\<Sum>m\<in>down E n. unat (own (the (w m)))))"

lemma exact_totalD:
  "exact_total w E own tot \<Longrightarrow> w n = Some d \<Longrightarrow> unat (tot d) = (\<Sum>m\<in>down E n. unat (own (the (w m))))"
  unfolding exact_total_def by blast

abbreviation own_gas :: "storage_data \<Rightarrow> u64" where
  "own_gas d \<equiv> tx_max_gas (sd_transaction d)"

abbreviation own_tip :: "storage_data \<Rightarrow> u64" where
  "own_tip d \<equiv> tx_tip (sd_transaction d)"

abbreviation own_bytes :: "storage_data \<Rightarrow> usize" where
  "own_bytes d \<equiv> metered_bytes_size (sd_transaction d)"

definition totals_exact :: "('n \<rightharpoonup> storage_data) \<Rightarrow> ('n \<times> 'n) set \<Rightarrow> bool" where
  "totals_exact w E \<longleftrightarrow>
     exact_total w E own_gas dependents_cumulative_gas \<and> exact_total w E own_tip dependents_cumulative_tip
     \<and> exact_total w E own_bytes dependents_cumulative_bytes_size
     \<and> exact_total w E (\<lambda>_. 1) number_dependents_in_chain"

definition after_removal ::
    "('n \<rightharpoonup> storage_data) \<Rightarrow> ('n \<times> 'n) set \<Rightarrow> 'n \<Rightarrow> storage_data \<Rightarrow> ('n \<rightharpoonup> storage_data)" where
  "after_removal w E r d =
     (\<lambda>a. if a = r then None else if a \<in> up E r then map_option (reduce_data d) (w a) else w a)"

lemma down_without_other:
  assumes "m \<in> down (without E r) n" "n \<noteq> r"
  shows "m \<noteq> r"
proof -
  have "(n, m) \<in> (without E r)\<^sup>*" using assms(1) by (simp add: down_def)
  then show ?thesis using assms(2) by cases (auto simp: without_def)
qed

lemma exact_total_removal:
  assumes "unique_paths E" "finite (dom w)" "E \<subseteq> dom w \<times> dom w" "exact_total w E own tot" "w r = Some d"
    and own: "\<And>x. own (reduce_data d x) = own x"
    and tot: "\<And>x. tot (reduce_data d x) = saturating_sub (tot x) (tot d)"
  shows "exact_total (after_removal w E r d) (without E r) own tot"
  unfolding exact_total_def
proof (intro allI impI)
  fix n x assume x: "after_removal w E r d n = Some x"
  then have "n \<noteq> r" by (auto simp: after_removal_def)
  from x obtain x0 where x0: "w n = Some x0"
    by (auto simp: after_removal_def split: if_splits)
  let ?own = "\<lambda>m. unat (own (the (w m)))"
  have down_own: "unat (own (the (after_removal w E r d m))) = ?own m" if "m \<in> down (without E r) n" for m
  proof -
    have "n \<in> dom w" using x0 by blast
    then have "m \<in> dom w"
      using that down_mono [OF without_subset [of E r], of n] down_subset [OF assms(3), of n] by fast
    moreover have "m \<noteq> r"
      using that \<open>n \<noteq> r\<close> by (rule down_without_other)
    ultimately show ?thesis by (auto simp: after_removal_def own)
  qed
  have exact: "unat (tot x0) = sum ?own (down E n)" "unat (tot d) = sum ?own (down E r)"
    using exact_totalD [OF assms(4)] x0 assms(5) by blast+
  have "unat (tot x) = sum ?own (down (without E r) n)"
  proof (cases "n \<in> up E r")
    case True
    then have sub: "down E r \<subseteq> down E n" by (intro down_trans) (simp add: up_iff_down)
    have "unat (tot x) = sum ?own (down E n) - sum ?own (down E r)"
      using x x0 True \<open>n \<noteq> r\<close> exact by (auto simp: after_removal_def tot unat_saturating_sub)
    also have "\<dots> = sum ?own (down E n - down E r)"
      using sum_diff_nat [OF finite_subset [OF sub] sub] finite_down [OF assms(2,3)] by simp
    finally show ?thesis
      by (simp add: down_without_ancestor [OF assms(1) True \<open>n \<noteq> r\<close>])
  next
    case False
    then show ?thesis
      using x x0 \<open>n \<noteq> r\<close> exact by (simp add: after_removal_def down_without_unrelated)
  qed
  then show "unat (tot x) = (\<Sum>m\<in>down (without E r) n. unat (own (the (after_removal w E r d m))))"
    using down_own by (simp cong: sum.cong)
qed

lemma totals_exact_removal:
  assumes "unique_paths E" "finite (dom w)" "E \<subseteq> dom w \<times> dom w" "totals_exact w E" "w r = Some d"
  shows "totals_exact (after_removal w E r d) (without E r)"
proof -
  note removal = exact_total_removal [OF assms(1-3) _ assms(5)]
  have "exact_total w E own_gas dependents_cumulative_gas" "exact_total w E own_tip dependents_cumulative_tip"
    "exact_total w E own_bytes dependents_cumulative_bytes_size"
    "exact_total w E (\<lambda>_. 1) number_dependents_in_chain"
    using assms(4) by (simp_all add: totals_exact_def)
  from this [THEN removal] show ?thesis
    unfolding totals_exact_def by (simp add: reduce_data_def)
qed

definition room_for :: "('n \<rightharpoonup> storage_data) \<Rightarrow> (storage_data \<Rightarrow> u64) \<Rightarrow> u64 \<Rightarrow> bool" where
  "room_for w own amount \<longleftrightarrow> (\<Sum>m\<in>dom w. unat (own (the (w m)))) + unat amount < 2 ^ LENGTH(64)"

definition after_insertion ::
    "('n \<rightharpoonup> storage_data) \<Rightarrow> 'n set \<Rightarrow> 'n \<Rightarrow> pool_tx \<Rightarrow> storage_data \<Rightarrow> ('n \<rightharpoonup> storage_data)" where
  "after_insertion w anc n tx d =
     (\<lambda>a. if a \<in> anc then map_option (add_dependent_data tx) (w a) else w a)(n \<mapsto> d)"

lemma exact_total_insertion:
  assumes "finite (dom w)" "E \<subseteq> dom w \<times> dom w" "exact_total w E own tot" "w n = None" "D \<subseteq> dom w"
    and own: "\<And>x. own (add_dependent_data tx x) = own x" "own d = amount" "tot d = amount"
    and tot: "\<And>x. tot (add_dependent_data tx x) = saturating_add (tot x) amount"
    and fits: "room_for w own amount"
  shows "exact_total (after_insertion w (\<Union>p\<in>D. up E p) n tx d) (with_sink E D n) own tot"
  unfolding exact_total_def
proof (intro allI impI)
  let ?w = "after_insertion w (\<Union>p\<in>D. up E p) n tx d"
  let ?own = "\<lambda>m. unat (own (the (w m)))"
  fix a x assume x: "?w a = Some x"
  have n: "n \<notin> Domain E" "n \<notin> Range E" "n \<notin> D"
    using assms(2,4,5) by auto
  have anc: "n \<notin> (\<Union>p\<in>D. up E p)"
    using up_subset [OF assms(2)] assms(4,5) by blast
  show "unat (tot x) = (\<Sum>m\<in>down (with_sink E D n) a. unat (own (the (?w m))))"
  proof (cases "a = n")
    case True
    then show ?thesis
      using x own by (simp add: down_with_sink [OF n(1,3)] after_insertion_def)
  next
    case False
    then obtain x0 where x0: "w a = Some x0"
      using x by (auto simp: after_insertion_def split: if_splits)
    have sub: "down E a \<subseteq> dom w" using down_subset [OF assms(2), of a] x0 by blast
    then have down_own: "unat (own (the (?w m))) = ?own m" if "m \<in> down E a" for m
      using that assms(4) by (auto simp: after_insertion_def own(1))
    have exact: "unat (tot x0) = sum ?own (down E a)"
      using assms(3) x0 by (rule exact_totalD)
    have "sum ?own (down E a) \<le> sum ?own (dom w)"
      using sub assms(1) by (intro sum_mono2) auto
    then have fits_a: "unat (tot x0) + unat amount < 2 ^ LENGTH(64)"
      using fits exact unfolding room_for_def by linarith
    show ?thesis
    proof (cases "a \<in> (\<Union>p\<in>D. up E p)")
      case True
      then have "unat (tot x) = sum ?own (down E a) + unat amount"
        using x x0 False unat_saturating_add_exact [OF fits_a]
        by (auto simp add: after_insertion_def tot exact)
      moreover have "n \<notin> down E a" "finite (down E a)"
        using sub assms(1,4) finite_subset by auto
      moreover have "unat (own (the (?w n))) = unat amount"
        by (simp add: after_insertion_def own(2))
      ultimately show ?thesis
        unfolding down_with_sink_other [OF n False] using True down_own by (simp cong: sum.cong)
    next
      case not_above: False
      then show ?thesis
        unfolding down_with_sink_other [OF n False] using x x0 False exact down_own
        by (simp add: after_insertion_def cong: sum.cong)
    qed
  qed
qed

definition totals_fit :: "('n \<rightharpoonup> storage_data) \<Rightarrow> pool_tx \<Rightarrow> bool" where
  "totals_fit w tx \<longleftrightarrow> room_for w own_gas (tx_max_gas tx) \<and> room_for w own_tip (tx_tip tx)
     \<and> room_for w own_bytes (metered_bytes_size tx) \<and> room_for w (\<lambda>_. 1) 1"

lemma totals_exact_insertion:
  assumes "finite (dom w)" "E \<subseteq> dom w \<times> dom w" "totals_exact w E" "w n = None" "D \<subseteq> dom w"
    and "totals_fit w tx"
  shows "totals_exact (after_insertion w (\<Union>p\<in>D. up E p) n tx (new_storage_data tx now)) (with_sink E D n)"
proof -
  note insertion = exact_total_insertion [OF assms(1,2) _ assms(4,5), where tx = tx and d = "new_storage_data tx now"]
  have "exact_total w E own_gas dependents_cumulative_gas" "exact_total w E own_tip dependents_cumulative_tip"
    "exact_total w E own_bytes dependents_cumulative_bytes_size"
    "exact_total w E (\<lambda>_. 1) number_dependents_in_chain"
    using assms(3) by (simp_all add: totals_exact_def)
  note exact = this [THEN insertion]
  have fits: "room_for w own_gas (tx_max_gas tx)" "room_for w own_tip (tx_tip tx)"
    "room_for w own_bytes (metered_bytes_size tx)" "room_for w (\<lambda>_. 1) 1"
    using assms(6) by (simp_all add: totals_fit_def)
  show ?thesis
    unfolding totals_exact_def
    by (intro conjI exact(1) [OF _ _ _ _ fits(1)] exact(2) [OF _ _ _ _ fits(2)]
        exact(3) [OF _ _ _ _ fits(3)] exact(4) [OF _ _ _ _ fits(4)])
      (simp_all add: add_dependent_data_def new_storage_data_def)
qed

section \<open>Caches of created outputs\<close>

abbreviation creates_contract :: "pool_tx \<Rightarrow> contract_id \<Rightarrow> bool" where
  "creates_contract tx c \<equiv> c \<in> set (created_contracts (tx_outputs tx))"

lemma created_contracts_iff: "c \<in> set (created_contracts outs) \<longleftrightarrow> OutContractCreated c \<in> set outs"
  by (induction outs) (auto split: tx_output.splits)

lemma clear_outputs_maps:
  "gs_graph (foldl (clear_output_cache t) s xs) = gs_graph s"
  "gs_max_txs_chain_count (foldl (clear_output_cache t) s xs) = gs_max_txs_chain_count s"
  "gs_coins_creators (foldl (clear_output_cache t) s xs) =
     (\<lambda>u. if fst u = t \<and> (\<exists>out. (snd u, out) \<in> set xs \<and> coin_of_output out \<noteq> None) then None
          else gs_coins_creators s u)"
  "gs_contracts_creators (foldl (clear_output_cache t) s xs) =
     (\<lambda>c. if c \<in> set (created_contracts (map snd xs)) then None else gs_contracts_creators s c)"
proof (induction xs arbitrary: s)
  case (Cons x xs)
  obtain i out where x: "x = (i, out)" by (cases x)
  { case 1 show ?case unfolding x by (cases out) (simp_all add: Cons.IH(1)) }
  { case 2 show ?case unfolding x by (cases out) (simp_all add: Cons.IH(2)) }
  { case 3 show ?case
      unfolding x by (cases out) (auto simp: Cons.IH(3) fun_eq_iff) }
  { case 4 show ?case
      unfolding x by (cases out) (auto simp: Cons.IH(4) fun_eq_iff) }
qed simp_all

lemma cache_outputs_maps:
  "gs_graph (foldl (cache_output t n) s xs) = gs_graph s"
  "gs_max_txs_chain_count (foldl (cache_output t n) s xs) = gs_max_txs_chain_count s"
  "gs_coins_creators (foldl (cache_output t n) s xs) =
     (\<lambda>u. if fst u = t \<and> (\<exists>out. (snd u, out) \<in> set xs \<and> coin_of_output out \<noteq> None) then Some n
          else gs_coins_creators s u)"
  "gs_contracts_creators (foldl (cache_output t n) s xs) =
     (\<lambda>c. if c \<in> set (created_contracts (map snd xs)) then Some n else gs_contracts_creators s c)"
proof (induction xs arbitrary: s)
  case (Cons x xs)
  obtain i out where x: "x = (i, out)" by (cases x)
  { case 1 show ?case unfolding x by (cases out) (simp_all add: Cons.IH(1)) }
  { case 2 show ?case unfolding x by (cases out) (simp_all add: Cons.IH(2)) }
  { case 3 show ?case
      unfolding x by (cases out) (auto simp: Cons.IH(3) fun_eq_iff) }
  { case 4 show ?case
      unfolding x by (cases out) (auto simp: Cons.IH(4) fun_eq_iff) }
qed simp_all

lemma creates_coin_enumerate:
  assumes "wf_tx tx"
  shows "(fst u = tx_id tx \<and> (\<exists>out. (snd u, out) \<in> set (enumerate_from 0 (tx_outputs tx))
            \<and> coin_of_output out \<noteq> None)) \<longleftrightarrow> creates_coin tx u \<noteq> None"
proof -
  have len: "length (tx_outputs tx) \<le> 2 ^ 16"
    using assms by (simp only: wf_tx_def)
  then have "distinct (map fst (enumerate_from 0 (tx_outputs tx)))"
    by (intro distinct_enumerate_from) simp
  note map_of_eq_Some_iff [OF this, of "snd u", symmetric]
  then have "(snd u, out) \<in> set (enumerate_from 0 (tx_outputs tx)) \<longleftrightarrow> output_at tx (snd u) = Some out" for out
    by (simp only: map_of_enumerate_from [OF len] output_at_def)
  then show ?thesis
    by (cases "output_at tx (snd u)") (simp_all add: creates_coin_def)
qed

lemma clear_cache_maps:
  assumes "wf_tx (sd_transaction d)"
  shows "gs_graph (clear_cache s d) = gs_graph s"
    "gs_max_txs_chain_count (clear_cache s d) = gs_max_txs_chain_count s"
    "gs_coins_creators (clear_cache s d) =
      (\<lambda>u. if creates_coin (sd_transaction d) u \<noteq> None then None else gs_coins_creators s u)"
    "gs_contracts_creators (clear_cache s d) =
      (\<lambda>c. if creates_contract (sd_transaction d) c then None else gs_contracts_creators s c)"
  unfolding clear_cache_def Let_def clear_outputs_maps creates_coin_enumerate [OF assms] by simp_all

lemma cache_tx_infos_maps:
  assumes "node_weight G (gs_graph s) n = Some d" "wf_tx (sd_transaction d)"
  shows "\<exists>s'. cache_tx_infos G s (tx_id (sd_transaction d)) n = Some s' \<and> gs_graph s' = gs_graph s
    \<and> gs_max_txs_chain_count s' = gs_max_txs_chain_count s
    \<and> gs_coins_creators s' =
      (\<lambda>u. if creates_coin (sd_transaction d) u \<noteq> None then Some n else gs_coins_creators s u)
    \<and> gs_contracts_creators s' =
      (\<lambda>c. if creates_contract (sd_transaction d) c then Some n else gs_contracts_creators s c)"
proof (intro exI conjI)
  let ?t = "tx_id (sd_transaction d)" and ?outs = "enumerate_from 0 (tx_outputs (sd_transaction d))"
  show "cache_tx_infos G s ?t n = Some (foldl (cache_output ?t n) s ?outs)"
    using assms(1) by (simp add: cache_tx_infos_def)
qed (simp_all only: cache_outputs_maps creates_coin_enumerate [OF assms(2)] map_snd_enumerate_from)

section \<open>The invariant of the storage\<close>

text \<open>What the rest of the pool sees of the stored transactions.\<close>

definition tx_view :: "('n \<rightharpoonup> storage_data) \<Rightarrow> ('n \<rightharpoonup> pool_tx \<times> instant)" where
  "tx_view w n = map_option (\<lambda>d. (sd_transaction d, creation_instant d)) (w n)"

lemma tx_view_removal: "tx_view (after_removal w E r d) = (tx_view w)(r := None)"
  by (auto simp: tx_view_def after_removal_def fun_eq_iff reduce_data_def option.map_comp comp_def)

lemma tx_view_insertion:
  "tx_view (after_insertion w A n tx (new_storage_data tx now)) = (tx_view w)(n \<mapsto> (tx, now))"
  by (auto simp: tx_view_def after_insertion_def fun_eq_iff add_dependent_data_def new_storage_data_def
      option.map_comp comp_def)

definition creators_exact ::
    "('k \<rightharpoonup> 'n) \<Rightarrow> (pool_tx \<Rightarrow> 'k \<Rightarrow> bool) \<Rightarrow> ('n \<rightharpoonup> storage_data) \<Rightarrow> bool" where
  "creators_exact m creates w \<longleftrightarrow>
     (\<forall>k n. m k = Some n \<longleftrightarrow> (\<exists>d. w n = Some d \<and> creates (sd_transaction d) k))"

text \<open>No transaction has more dependents or more dependencies, itself included, than the configured
  length of a chain (a single transaction is always admitted).\<close>

definition chain_bounded :: "('n \<times> 'n) set \<Rightarrow> 'n set \<Rightarrow> usize \<Rightarrow> bool" where
  "chain_bounded E N max_chain \<longleftrightarrow>
     (\<forall>n\<in>N. card (down E n) \<le> max 1 (unat max_chain) \<and> card (up E n) \<le> max 1 (unat max_chain))"

definition storage_inv :: "('g, 'n) digraph \<Rightarrow> ('g, 'n) graph_storage \<Rightarrow> bool" where
  "storage_inv G s \<longleftrightarrow>
     graph_shape G (gs_graph s) \<and> totals_exact (gs_get G s) (edges G (gs_graph s))
     \<and> creators_exact (gs_coins_creators s) (\<lambda>tx u. creates_coin tx u \<noteq> None) (gs_get G s)
     \<and> creators_exact (gs_contracts_creators s) creates_contract (gs_get G s)
     \<and> chain_bounded (edges G (gs_graph s)) (dom (gs_get G s)) (gs_max_txs_chain_count s)
     \<and> (\<forall>n d. gs_get G s n = Some d \<longrightarrow> wf_tx (sd_transaction d))"

lemma creators_exact_view:
  "creators_exact m creates w \<longleftrightarrow>
     (\<forall>k n. m k = Some n \<longleftrightarrow> (\<exists>tx t. tx_view w n = Some (tx, t) \<and> creates tx k))"
  by (auto simp: creators_exact_def tx_view_def)

lemma creators_exact_removal:
  assumes "creators_exact m creates w" "w r = Some d" "tx_view w' = (tx_view w)(r := None)"
  shows "creators_exact (\<lambda>k. if creates (sd_transaction d) k then None else m k) creates w'"
proof -
  have m: "m k = Some n \<longleftrightarrow> (\<exists>tx t. tx_view w n = Some (tx, t) \<and> creates tx k)" for k n
    using assms(1) by (simp add: creators_exact_view)
  have r: "tx_view w r = Some (sd_transaction d, creation_instant d)"
    using assms(2) by (simp add: tx_view_def)
  have only: "n = r" if "creates (sd_transaction d) k" "tx_view w n = Some (tx, t)" "creates tx k" for k n tx t
    using m [of k r] m [of k n] r that by auto
  show ?thesis
    unfolding creators_exact_view assms(3)
  proof (intro allI)
    fix k n
    show "(if creates (sd_transaction d) k then None else m k) = Some n \<longleftrightarrow>
        (\<exists>tx t. ((tx_view w)(r := None)) n = Some (tx, t) \<and> creates tx k)"
      using only [of k n] m [of k n] r by (cases "n = r") auto
  qed
qed

lemma creators_exact_insertion:
  assumes "creators_exact m creates w" "w n = None" "tx_view w' = (tx_view w)(n \<mapsto> (tx, now))"
    and "\<And>k d i. creates tx k \<Longrightarrow> w i = Some d \<Longrightarrow> \<not> creates (sd_transaction d) k"
  shows "creators_exact (\<lambda>k. if creates tx k then Some n else m k) creates w'"
proof -
  have m: "m k = Some i \<longleftrightarrow> (\<exists>tx t. tx_view w i = Some (tx, t) \<and> creates tx k)" for k i
    using assms(1) by (simp add: creators_exact_view)
  have n: "tx_view w n = None"
    using assms(2) by (simp add: tx_view_def)
  have only: "\<not> creates tx' k" if "creates tx k" "tx_view w i = Some (tx', t)" for k i tx' t
    using that assms(4) [of k i] by (auto simp: tx_view_def)
  show ?thesis
    unfolding creators_exact_view assms(3)
  proof (intro allI)
    fix k i
    show "(if creates tx k then Some n else m k) = Some i \<longleftrightarrow>
        (\<exists>tx' t. ((tx_view w)(n \<mapsto> (tx, now))) i = Some (tx', t) \<and> creates tx' k)"
      using only [of k i] m [of k i] n by (cases "i = n") auto
  qed
qed

definition restrict_edges :: "('n \<times> 'n) set \<Rightarrow> 'n set \<Rightarrow> ('n \<times> 'n) set" where
  "restrict_edges E A = {(a, b) \<in> E. a \<notin> A \<and> b \<notin> A}"

lemma restrict_edges_without: "restrict_edges (without E r) A = restrict_edges E (insert r A)"
  by (auto simp: restrict_edges_def without_def)

lemma restrict_edges_empty [simp]: "restrict_edges E {} = E"
  by (auto simp: restrict_edges_def)

lemma restrict_edges_single: "without E r = restrict_edges E {r}"
  by (auto simp: restrict_edges_def without_def)

lemma chain_bounded_mono:
  assumes "chain_bounded E N m" "E' \<subseteq> E" "N' \<subseteq> N" "\<And>n. finite (down E n)" "\<And>n. finite (up E n)"
  shows "chain_bounded E' N' m"
  unfolding chain_bounded_def
proof (intro ballI conjI)
  fix n assume n: "n \<in> N'"
  have "card (down E' n) \<le> card (down E n)" "card (up E' n) \<le> card (up E n)"
    by (rule card_mono [OF assms(4) down_mono [OF assms(2)]])
      (rule card_mono [OF assms(5) up_mono [OF assms(2)]])
  moreover have "card (down E n) \<le> max 1 (unat m)" "card (up E n) \<le> max 1 (unat m)"
    using assms(1,3) n by (auto simp: chain_bounded_def)
  ultimately show "card (down E' n) \<le> max 1 (unat m)" "card (up E' n) \<le> max 1 (unat m)"
    by linarith+
qed

section \<open>Removal\<close>

context stable_digraph
begin

lemma storage_inv_removal:
  assumes "storage_inv G s" "gs_get G s r = Some d"
    and "node_weight G g = after_removal (gs_get G s) (edges G (gs_graph s)) r d"
    and "edges G g = without (edges G (gs_graph s)) r" "graph_shape G g"
  shows "storage_inv G ((clear_cache (s\<lparr>gs_graph := g'\<rparr>) d)\<lparr>gs_graph := g\<rparr>)" (is "storage_inv G ?s")
proof -
  have w: "gs_get G ?s = after_removal (gs_get G s) (edges G (gs_graph s)) r d"
    using assms(3) by (simp add: gs_get_def fun_eq_iff)
  have wf: "wf_tx (sd_transaction d)"
    using assms(1,2) by (auto simp: storage_inv_def)
  have nodes: "edges G (gs_graph s) \<subseteq> dom (gs_get G s) \<times> dom (gs_get G s)" "finite (dom (gs_get G s))"
    using edges_nodes [of "gs_graph s"] finite_nodes [of "gs_graph s"]
    by (simp_all add: gs_get_def [abs_def])
  have view: "tx_view (gs_get G ?s) = (tx_view (gs_get G s))(r := None)"
    unfolding w by (rule tx_view_removal)
  have "totals_exact (gs_get G ?s) (edges G (gs_graph ?s))"
    using assms(1,4) nodes assms(2) unfolding w
    by (auto simp: storage_inv_def graph_shape_def intro: totals_exact_removal)
  moreover have "creators_exact (gs_coins_creators ?s) (\<lambda>tx u. creates_coin tx u \<noteq> None) (gs_get G ?s)"
    using creators_exact_removal [OF _ assms(2) view, of _ "\<lambda>tx u. creates_coin tx u \<noteq> None"] assms(1)
    by (simp add: storage_inv_def clear_cache_maps [OF wf])
  moreover have "creators_exact (gs_contracts_creators ?s) creates_contract (gs_get G ?s)"
    using creators_exact_removal [OF _ assms(2) view, of _ creates_contract] assms(1)
    by (simp add: storage_inv_def clear_cache_maps [OF wf])
  moreover have "chain_bounded (edges G (gs_graph ?s)) (dom (gs_get G ?s)) (gs_max_txs_chain_count ?s)"
  proof (rule chain_bounded_mono)
    show "chain_bounded (edges G (gs_graph s)) (dom (gs_get G s)) (gs_max_txs_chain_count ?s)"
      using assms(1) by (simp add: storage_inv_def clear_cache_maps [OF wf])
    show "edges G (gs_graph ?s) \<subseteq> edges G (gs_graph s)"
      using assms(4) without_subset by simp
    show "dom (gs_get G ?s) \<subseteq> dom (gs_get G s)"
      unfolding w by (auto simp: after_removal_def split: if_splits)
  qed (rule finite_down_node finite_up_node)+
  moreover have "wf_tx (sd_transaction x)" if "gs_get G ?s n = Some x" for n x
  proof -
    have "tx_view (gs_get G ?s) n = Some (sd_transaction x, creation_instant x)"
      using that by (simp add: tx_view_def)
    then have "tx_view (gs_get G s) n = Some (sd_transaction x, creation_instant x)"
      unfolding view by (simp split: if_splits)
    then obtain z where z: "gs_get G s n = Some z" "sd_transaction z = sd_transaction x"
      by (auto simp: tx_view_def)
    have "wf_tx (sd_transaction z)"
      using assms(1) z(1) unfolding storage_inv_def by blast
    then show ?thesis using z(2) by simp
  qed
  ultimately show ?thesis
    using assms(5) by (simp add: storage_inv_def)
qed

lemma bfs_loop_subtrees:
  assumes "storage_inv G s" "separate (down (edges G (gs_graph s))) queue"
    and "set queue \<subseteq> dom (gs_get G s)"
  shows "\<exists>s' is ds. bfs_loop G queue s res = Some (s', res @ ds) \<and> storage_inv G s'
    \<and> distinct is \<and> set is = (\<Union>q\<in>set queue. down (edges G (gs_graph s)) q)
    \<and> list_all2 (\<lambda>i d. gs_get G s i = Some d) is ds
    \<and> tx_view (gs_get G s') = tx_view (gs_get G s) |` (- set is)
    \<and> edges G (gs_graph s') = restrict_edges (edges G (gs_graph s)) (set is)
    \<and> gs_max_txs_chain_count s' = gs_max_txs_chain_count s"
  using assms
proof (induction "card (\<Union>q\<in>set queue. down (edges G (gs_graph s)) q)" arbitrary: queue s res rule: less_induct)
  case less
  let ?E = "edges G (gs_graph s)" and ?w = "gs_get G s"
  show ?case
  proof (cases queue)
    case Nil
    have "tx_view ?w |` UNIV = tx_view ?w" by (simp add: restrict_map_def)
    then show ?thesis
      using less.prems(1) by (subst bfs_loop.simps) (auto simp: Nil)
  next
    case (Cons r rest)
    then obtain d where d: "?w r = Some d"
      using less.prems(3) by auto
    have shape: "graph_shape G (gs_graph s)" and wf: "wf_tx (sd_transaction d)"
      using less.prems(1) d by (auto simp: storage_inv_def)
    then have uniq: "unique_paths ?E" and acyc: "acyclic ?E"
      by (simp_all add: graph_shape_def unique_paths_def)
    have nw: "node_weight G (gs_graph s) r = Some d"
      using d by (simp add: gs_get_def)
    obtain g1 g2 where g: "remove_node G (gs_graph s) r = (g1, Some d)"
        "reduce_dependencies G d (incoming G (gs_graph s) r) g1 = Some g2"
        "node_weight G g2 = (\<lambda>a. if a = r then None
           else if a \<in> up ?E r then map_option (reduce_data d) (node_weight G (gs_graph s) a)
           else node_weight G (gs_graph s) a)" "edges G g2 = without ?E r" "graph_shape G g2"
      by (rule remove_and_reduce [OF shape nw])
    have g3: "node_weight G g2 = after_removal ?w ?E r d"
      by (simp add: g(3) after_removal_def gs_get_def [abs_def])
    define s2 where "s2 = (clear_cache (s\<lparr>gs_graph := g1\<rparr>) d)\<lparr>gs_graph := g2\<rparr>"
    have inv2: "storage_inv G s2"
      unfolding s2_def using less.prems(1) d g3 g(4,5) by (rule storage_inv_removal)
    have E2: "edges G (gs_graph s2) = without ?E r"
      by (simp add: s2_def g(4))
    have w2: "gs_get G s2 = after_removal ?w ?E r d"
      by (simp add: s2_def gs_get_def [abs_def] g3)
    define queue2 where "queue2 = rest @ outgoing G (gs_graph s) r"
    have children: "set (outgoing G (gs_graph s) r) = {c. (r, c) \<in> ?E}"
      by (rule set_outgoing)
    have rest_down: "down ?E r \<inter> down ?E q = {}" if "q \<in> set rest" for q
      using less.prems(2) that Cons by (simp add: separate_down)
    have not_up: "q \<notin> up ?E r" if "q \<in> set queue2" for q
    proof (cases "q \<in> set rest")
      case True
      then have "r \<notin> down ?E q" using rest_down [of q] down_refl [of r ?E] by blast
      then show ?thesis by (simp add: up_iff_down)
    next
      case False
      then have "(r, q) \<in> ?E" using that children by (auto simp: queue2_def)
      then show ?thesis using not_up_parent [OF acyc, of r q] by simp
    qed
    have down2: "down (without ?E r) q = down ?E q" if "q \<in> set queue2" for q
      using not_up [OF that] by (rule down_without_unrelated)
    have downs: "(\<Union>q\<in>set queue. down ?E q) = insert r (\<Union>q\<in>set queue2. down ?E q)"
      using down_step [of ?E r] children by (auto simp: Cons queue2_def)
    have new: "r \<notin> (\<Union>q\<in>set queue2. down ?E q)"
      using not_up by (auto simp: up_iff_down)
    have set2: "(\<Union>q\<in>set queue2. down (edges G (gs_graph s2)) q) = (\<Union>q\<in>set queue2. down ?E q)"
      unfolding E2 using down2 by auto
    have less2: "card (\<Union>q\<in>set queue2. down (edges G (gs_graph s2)) q) < card (\<Union>q\<in>set queue. down ?E q)"
      unfolding set2 downs using new finite_down_node by simp
    have sep2: "separate (down (edges G (gs_graph s2))) queue2"
    proof -
      have "separate (down ?E) rest"
        using less.prems(2) Cons by (simp add: separate_down)
      moreover have "separate (down ?E) (outgoing G (gs_graph s) r)"
        using shape children unique_paths_children [OF uniq, of r] by (simp add: separate_def graph_shape_def)
      moreover have "down ?E x \<inter> down ?E y = {}"
        if "x \<in> set rest" "y \<in> set (outgoing G (gs_graph s) r)" for x y
        using rest_down [OF that(1)] that(2) children down_step [of ?E r] by auto
      ultimately have "separate (down ?E) queue2"
        unfolding queue2_def separate_down by blast
      then show ?thesis
        using down2 by (simp add: separate_def E2)
    qed
    have nodes2: "set queue2 \<subseteq> dom (gs_get G s2)"
    proof
      fix q assume q: "q \<in> set queue2"
      have "q \<in> dom ?w"
        using q less.prems(3) Cons children edges_nodes [of "gs_graph s"]
        by (auto simp: queue2_def gs_get_def [abs_def])
      moreover have "q \<noteq> r" "q \<notin> up ?E r"
        using not_up [OF q] by auto
      ultimately show "q \<in> dom (gs_get G s2)"
        by (simp add: w2 after_removal_def dom_def)
    qed
    from less.hyps [OF less2 inv2 sep2 nodes2, of "res @ [d]"]
    obtain s' js ds where IH: "bfs_loop G queue2 s2 (res @ [d]) = Some (s', (res @ [d]) @ ds)"
        "storage_inv G s'" "distinct js" "set js = (\<Union>q\<in>set queue2. down ?E q)"
        "list_all2 (\<lambda>i d. gs_get G s2 i = Some d) js ds"
        "tx_view (gs_get G s') = tx_view (gs_get G s2) |` (- set js)"
        "edges G (gs_graph s') = restrict_edges (without ?E r) (set js)"
        "gs_max_txs_chain_count s' = gs_max_txs_chain_count s2"
      unfolding E2 set2 [unfolded E2] by (elim exE conjE)
    have "bfs_loop G queue s res = Some (s', res @ (d # ds))"
      using IH(1) g(1,2) unfolding Cons
      by (subst bfs_loop.simps) (simp add: Let_def clear_cache_maps [OF wf] s2_def queue2_def)
    moreover have "list_all2 (\<lambda>i d. ?w i = Some d) (r # js) (d # ds)"
    proof -
      have "gs_get G s2 i = ?w i" if i: "i \<in> set js" for i
      proof -
        have "i \<noteq> r" using that new IH(4) by auto
        obtain q where q: "q \<in> set queue2" "i \<in> down ?E q" using i IH(4) by auto
        have "i \<notin> up ?E r"
          using not_up [OF q(1)] down_trans [OF q(2)] by (auto simp: up_iff_down)
        then show ?thesis using \<open>i \<noteq> r\<close> by (simp add: w2 after_removal_def)
      qed
      then have "list_all2 (\<lambda>i d. ?w i = Some d) js ds"
        using IH(5) by (auto simp: list_all2_conv_all_nth)
      then show ?thesis using d by simp
    qed
    moreover have "tx_view (gs_get G s') = tx_view ?w |` (- set (r # js))"
      unfolding IH(6) w2 tx_view_removal by (auto simp: restrict_map_def fun_eq_iff)
    ultimately show ?thesis
      using IH(2,3,4,7,8) new downs
      by (intro exI [of _ s'] exI [of _ "r # js"] exI [of _ "d # ds"])
        (simp add: restrict_edges_without s2_def clear_cache_maps [OF wf])
  qed
qed

end

section \<open>Insertion\<close>

text \<open>A checked transaction is up to date with a storage when its direct dependencies are stored, no
  two of them share an ancestor, its list of all dependencies is complete, and the chains have room.\<close>

definition checked_ok :: "('g, 'n) digraph \<Rightarrow> ('g, 'n) graph_storage \<Rightarrow> 'n checked_transaction \<Rightarrow> bool" where
  "checked_ok G s ct \<longleftrightarrow>
     separate (up (edges G (gs_graph s))) (direct_dependencies ct)
     \<and> set (direct_dependencies ct) \<subseteq> dom (gs_get G s)
     \<and> distinct (all_dependencies ct)
     \<and> set (all_dependencies ct) = (\<Union>p\<in>set (direct_dependencies ct). up (edges G (gs_graph s)) p)
     \<and> (all_dependencies ct \<noteq> [] \<longrightarrow> length (all_dependencies ct) < unat (gs_max_txs_chain_count s))
     \<and> (\<forall>n\<in>set (all_dependencies ct).
          card (down (edges G (gs_graph s)) n) < unat (gs_max_txs_chain_count s))"

lemma up_restrict_edges:
  assumes "up E n \<inter> A = {}"
  shows "up (restrict_edges E A) n = up E n"
proof
  show "up E n \<subseteq> up (restrict_edges E A) n"
  proof
    fix b assume "b \<in> up E n"
    then have "(b, n) \<in> E\<^sup>*" by (simp add: up_def)
    then have "(b, n) \<in> (restrict_edges E A)\<^sup>*"
    proof (induction rule: converse_rtrancl_induct)
      case (step b p)
      have "p \<notin> A" "b \<notin> A"
        using assms step.hyps converse_rtrancl_into_rtrancl [OF step.hyps] by (auto simp: up_def)
      then show ?case
        using step by (auto simp: restrict_edges_def intro: converse_rtrancl_into_rtrancl)
    qed simp
    then show "b \<in> up (restrict_edges E A) n" by (simp add: up_def)
  qed
qed (rule up_mono, auto simp: restrict_edges_def)

context stable_digraph
begin

lemma checked_ok_removal:
  assumes "checked_ok G s ct" "set (all_dependencies ct) \<inter> A = {}"
    and "edges G (gs_graph s') = restrict_edges (edges G (gs_graph s)) A"
    and "dom (gs_get G s) - A \<subseteq> dom (gs_get G s')"
    and "gs_max_txs_chain_count s' = gs_max_txs_chain_count s"
  shows "checked_ok G s' ct"
proof -
  let ?E = "edges G (gs_graph s)"
  have ups: "up (edges G (gs_graph s')) p = up ?E p" if "p \<in> set (direct_dependencies ct)" for p
  proof -
    have "up ?E p \<subseteq> set (all_dependencies ct)"
      using assms(1) that unfolding checked_ok_def by blast
    then show ?thesis
      unfolding assms(3) using assms(2) by (intro up_restrict_edges) blast
  qed
  have ok: "separate (up ?E) (direct_dependencies ct)" "set (direct_dependencies ct) \<subseteq> dom (gs_get G s)"
    "set (all_dependencies ct) = (\<Union>p\<in>set (direct_dependencies ct). up ?E p)"
    "\<And>n. n \<in> set (all_dependencies ct) \<Longrightarrow> card (down ?E n) < unat (gs_max_txs_chain_count s)"
    using assms(1) unfolding checked_ok_def by simp_all
  have "p \<in> dom (gs_get G s')" if "p \<in> set (direct_dependencies ct)" for p
  proof -
    have "p \<in> set (all_dependencies ct)" "p \<in> dom (gs_get G s)"
      using that ok(2) unfolding ok(3) by blast+
    then show ?thesis using assms(2,4) by blast
  qed
  moreover have "card (down (edges G (gs_graph s')) n) < unat (gs_max_txs_chain_count s)"
    if "n \<in> set (all_dependencies ct)" for n
  proof -
    have "card (down (edges G (gs_graph s')) n) \<le> card (down ?E n)"
      unfolding assms(3)
      by (intro card_mono finite_down_node down_mono) (auto simp: restrict_edges_def)
    then show ?thesis using ok(4) [OF that] by simp
  qed
  moreover have "separate (up (edges G (gs_graph s'))) (direct_dependencies ct)"
    using ok(1) ups unfolding separate_def by simp
  moreover have "(\<Union>p\<in>set (direct_dependencies ct). up (edges G (gs_graph s')) p)
       = (\<Union>p\<in>set (direct_dependencies ct). up ?E p)"
    using ups by simp
  ultimately show ?thesis
    using assms(1) unfolding checked_ok_def assms(5) by (simp add: subsetI)
qed

lemma visit_dependencies_all:
  assumes "visit_dependencies G s to_check all = Inr all'" "distinct all"
  shows "distinct all' \<and> set all' = set all \<union> (\<Union>n\<in>set to_check. up (edges G (gs_graph s)) n)
    \<and> separate (up (edges G (gs_graph s))) to_check
    \<and> (\<forall>n\<in>set to_check. up (edges G (gs_graph s)) n \<inter> set all = {})
    \<and> (all' \<noteq> all \<longrightarrow> length all' < unat (gs_max_txs_chain_count s))
    \<and> (\<forall>n\<in>set all' - set all. \<forall>d. gs_get G s n = Some d \<longrightarrow>
         number_dependents_in_chain d < gs_max_txs_chain_count s)"
  using assms
proof (induction "unat (gs_max_txs_chain_count s) - length all" arbitrary: to_check all rule: less_induct)
  case less
  let ?up = "up (edges G (gs_graph s))"
  show ?case
  proof (cases "to_check = []")
    case True
    then show ?thesis
      using less.prems by (subst (asm) visit_dependencies.simps) (simp add: separate_def)
  next
    case False
    define n rest where "n = last to_check" and "rest = butlast to_check"
    have to_check: "to_check = rest @ [n]"
      using False by (simp add: n_def rest_def)
    let ?inc = "incoming G (gs_graph s) n"
    have visit: "n \<notin> set all \<and> length (all @ [n]) < unat (gs_max_txs_chain_count s)
        \<and> visit_dependencies G s (rest @ ?inc) (all @ [n]) = Inr all'
        \<and> (\<forall>d. gs_get G s n = Some d \<longrightarrow> number_dependents_in_chain d < gs_max_txs_chain_count s)"
      using less.prems(1) False isolated [of "gs_graph s" n] unfolding n_def rest_def
      by (subst (asm) visit_dependencies.simps)
        (auto simp: Let_def gs_get_def split: if_splits option.splits)
    have IH: "distinct all' \<and> set all' = set (all @ [n]) \<union> (\<Union>m\<in>set (rest @ ?inc). ?up m)
        \<and> separate ?up (rest @ ?inc) \<and> (\<forall>m\<in>set (rest @ ?inc). ?up m \<inter> set (all @ [n]) = {})
        \<and> (all' \<noteq> all @ [n] \<longrightarrow> length all' < unat (gs_max_txs_chain_count s))
        \<and> (\<forall>m\<in>set all' - set (all @ [n]). \<forall>d. gs_get G s m = Some d \<longrightarrow>
             number_dependents_in_chain d < gs_max_txs_chain_count s)"
      by (rule less.hyps) (use visit less.prems(2) in auto)
    have up_n: "?up n = insert n (\<Union>m\<in>set ?inc. ?up m)"
      using up_step [of "edges G (gs_graph s)" n] by (simp add: set_incoming)
    have sep: "separate ?up rest" "\<And>x y. x \<in> set rest \<Longrightarrow> y \<in> set ?inc \<Longrightarrow> ?up x \<inter> ?up y = {}"
      using IH by (simp_all add: separate_up)
    have fresh: "?up m \<inter> set all = {}" "n \<notin> ?up m" if "m \<in> set rest \<union> set ?inc" for m
      using IH that by auto
    have all': "set all' = insert n (set all) \<union> (\<Union>m\<in>set rest. ?up m) \<union> (\<Union>m\<in>set ?inc. ?up m)"
      using IH by auto
    have "?up x \<inter> ?up n = {}" if "x \<in> set rest" for x
      using sep(2) [OF that] fresh(2) [of x] that unfolding up_n by blast
    then have "separate ?up to_check"
      using sep(1) unfolding to_check separate_up by (simp add: separate_def)
    moreover have "?up n \<inter> set all = {}"
      unfolding up_n using fresh(1) visit by blast
    then have "\<forall>m\<in>set to_check. ?up m \<inter> set all = {}"
      using fresh(1) unfolding to_check by simp
    moreover have "set all' = set all \<union> (\<Union>m\<in>set to_check. ?up m)"
      unfolding to_check all' using up_n by auto
    moreover have "length all' < unat (gs_max_txs_chain_count s)"
      using IH visit by (cases "all' = all @ [n]") simp_all
    moreover have "\<forall>d. gs_get G s m = Some d \<longrightarrow> number_dependents_in_chain d < gs_max_txs_chain_count s"
      if "m \<in> set all' - set all" for m
      using IH visit that by (cases "m = n") simp_all
    ultimately show ?thesis using IH by blast
  qed
qed

end

fun used_contracts :: "tx_input list \<Rightarrow> contract_id list" where
  "used_contracts [] = []"
| "used_contracts (i # is) =
     (case input_view i of VContract c \<Rightarrow> c # used_contracts is | _ \<Rightarrow> used_contracts is)"

definition depends_on :: "pool_tx \<Rightarrow> pool_tx \<Rightarrow> bool" where
  "depends_on tx parent \<longleftrightarrow> (\<exists>u\<in>set (spent_coins (tx_inputs tx)). creates_coin parent u \<noteq> None)
     \<or> (\<exists>c\<in>set (used_contracts (tx_inputs tx)). creates_contract parent c)"

lemma insert_dependency_set:
  "insert_dependency m deps found = Inr deps' \<Longrightarrow> distinct deps \<Longrightarrow>
     distinct deps' \<and> set deps' = set deps \<union> set_option found"
  by (auto simp: insert_dependency_def Let_def split: option.splits if_splits)

lemma collect_dependencies_set:
  "collect_dependencies s deps ins = Inr deps' \<Longrightarrow> distinct deps \<Longrightarrow>
     distinct deps' \<and> set deps' = set deps
       \<union> {n. \<exists>u\<in>set (spent_coins ins). gs_coins_creators s u = Some n}
       \<union> {n. \<exists>c\<in>set (used_contracts ins). gs_contracts_creators s c = Some n}"
proof (induction ins arbitrary: deps)
  case (Cons i ins)
  show ?case
  proof (cases "input_view i")
    case (VCoin c)
    then obtain deps1 where deps1:
        "insert_dependency (gs_max_txs_chain_count s) deps (gs_coins_creators s (ci_utxo_id c)) = Inr deps1"
        "collect_dependencies s deps1 ins = Inr deps'"
      using Cons.prems(1) by (auto split: sum.splits)
    show ?thesis
      using insert_dependency_set [OF deps1(1) Cons.prems(2)] Cons.IH [OF deps1(2)] VCoin
      by (cases "gs_coins_creators s (ci_utxo_id c)") auto
  next
    case (VMessage m)
    then show ?thesis using Cons by auto
  next
    case (VContract c)
    then obtain deps1 where deps1:
        "insert_dependency (gs_max_txs_chain_count s) deps (gs_contracts_creators s c) = Inr deps1"
        "collect_dependencies s deps1 ins = Inr deps'"
      using Cons.prems(1) by (auto split: sum.splits)
    show ?thesis
      using insert_dependency_set [OF deps1(1) Cons.prems(2)] Cons.IH [OF deps1(2)] VContract
      by (cases "gs_contracts_creators s c") auto
  qed
qed simp

context stable_digraph
begin

lemma number_is_card:
  assumes "storage_inv G s" "gs_get G s n = Some d"
  shows "unat (number_dependents_in_chain d) = card (down (edges G (gs_graph s)) n)"
proof -
  have "exact_total (gs_get G s) (edges G (gs_graph s)) (\<lambda>_. 1) number_dependents_in_chain"
    using assms(1) by (simp add: storage_inv_def totals_exact_def)
  from exact_totalD [OF this assms(2)] show ?thesis by simp
qed

lemma can_store_checked:
  assumes inv: "storage_inv G s" and can: "can_store_transaction G s tx = Inr ct"
  shows "checked_ok G s ct \<and> ct_tx ct = tx
    \<and> set (direct_dependencies ct) = {n. \<exists>d. gs_get G s n = Some d \<and> depends_on tx (sd_transaction d)}"
proof -
  let ?E = "edges G (gs_graph s)" and ?max = "gs_max_txs_chain_count s"
  obtain direct al where coll: "collect_transaction_direct_dependencies s tx = Inr direct"
      and visit: "visit_dependencies G s direct [] = Inr al"
      and ct: "ct = \<lparr>ct_tx = tx, direct_dependencies = direct, all_dependencies = al\<rparr>"
    using can by (auto simp: can_store_transaction_def split: sum.splits)
  have coins: "gs_coins_creators s u = Some n \<longleftrightarrow>
      (\<exists>d. gs_get G s n = Some d \<and> creates_coin (sd_transaction d) u \<noteq> None)" for u n
    using inv by (simp only: storage_inv_def creators_exact_def)
  have contracts: "gs_contracts_creators s c = Some n \<longleftrightarrow>
      (\<exists>d. gs_get G s n = Some d \<and> creates_contract (sd_transaction d) c)" for c n
    using inv by (simp only: storage_inv_def creators_exact_def)
  have direct: "distinct direct" "set direct =
      {n. \<exists>u\<in>set (spent_coins (tx_inputs tx)). gs_coins_creators s u = Some n}
      \<union> {n. \<exists>c\<in>set (used_contracts (tx_inputs tx)). gs_contracts_creators s c = Some n}"
    using collect_dependencies_set [of s "[]" "tx_inputs tx" direct] coll
    by (simp_all add: collect_transaction_direct_dependencies_def)
  then have deps: "set direct = {n. \<exists>d. gs_get G s n = Some d \<and> depends_on tx (sd_transaction d)}"
    unfolding direct(2) coins contracts depends_on_def by blast
  then have nodes: "set direct \<subseteq> dom (gs_get G s)" by auto
  have v: "distinct al \<and> set al = (\<Union>n\<in>set direct. up ?E n) \<and> separate (up ?E) direct
      \<and> (al \<noteq> [] \<longrightarrow> length al < unat ?max)
      \<and> (\<forall>n\<in>set al. \<forall>d. gs_get G s n = Some d \<longrightarrow> number_dependents_in_chain d < ?max)"
    using visit_dependencies_all [OF visit] by simp
  have "card (down ?E n) < unat ?max" if n: "n \<in> set al" for n
  proof -
    obtain p where p: "p \<in> set direct" "n \<in> up ?E p" using v n by auto
    have "up ?E p \<subseteq> dom (gs_get G s)"
      using up_subset [OF edges_nodes, of p "gs_graph s"] p(1) nodes
      by (auto simp: gs_get_def [abs_def])
    then obtain d where d: "gs_get G s n = Some d" using p(2) by auto
    then show ?thesis
      using v n d number_is_card [OF inv d] unfolding word_less_nat_alt by metis
  qed
  then show ?thesis
    using v nodes deps unfolding checked_ok_def ct by simp
qed

lemma add_dependents_nodes:
  assumes "distinct ns" "set ns \<subseteq> dom (node_weight G g)"
  shows "node_weight G (foldl (add_dependent G tx) g ns) =
      (\<lambda>a. if a \<in> set ns then map_option (add_dependent_data tx) (node_weight G g a) else node_weight G g a)
    \<and> outgoing G (foldl (add_dependent G tx) g ns) = outgoing G g"
  using assms
proof (induction ns arbitrary: g)
  case (Cons n ns)
  then obtain d where d: "node_weight G g n = Some d" by auto
  define g1 where "g1 = add_dependent G tx g n"
  have g1: "node_weight G g1 = (node_weight G g)(n \<mapsto> add_dependent_data tx d)" "outgoing G g1 = outgoing G g"
    using put_weight [of g n] d by (simp_all add: g1_def add_dependent_def)
  have sub: "distinct ns" "set ns \<subseteq> dom (node_weight G g1)"
    using Cons.prems by (auto simp: g1(1))
  show ?case
    using Cons.IH [OF sub] Cons.prems(1) d g1(2) by (auto simp: g1(1) fun_eq_iff simp flip: g1_def)
qed simp

lemma add_edges_nodes:
  assumes "distinct deps" "set deps \<subseteq> dom (node_weight G g)" "n \<in> dom (node_weight G g)"
  shows "\<exists>g'. add_edges G deps n g = Some g' \<and> node_weight G g' = node_weight G g
    \<and> (\<forall>x. mset (outgoing G g' x) = mset (outgoing G g x) + (if x \<in> set deps then {#n#} else {#}))"
  using assms
proof (induction deps arbitrary: g)
  case (Cons dep deps)
  then obtain g1 where g1: "add_edge G g dep n = Some g1" "node_weight G g1 = node_weight G g"
      "\<And>x. mset (outgoing G g1 x) = mset (outgoing G g x) + (if x = dep then {#n#} else {#})"
    using add_edge [of g dep n] by auto
  obtain g' where g': "add_edges G deps n g1 = Some g'" "node_weight G g' = node_weight G g1"
      "\<And>x. mset (outgoing G g' x) = mset (outgoing G g1 x) + (if x \<in> set deps then {#n#} else {#})"
    using Cons.IH [of g1] Cons.prems g1(2) by auto
  show ?case
    using g1 g' Cons.prems(1) by (intro exI [of _ g']) auto
qed simp

lemma chain_bounded_sink:
  assumes inv: "storage_inv G s" and ok: "checked_ok G s ct" and n: "gs_get G s n = None"
  shows "chain_bounded (with_sink (edges G (gs_graph s)) (set (direct_dependencies ct)) n)
    (insert n (dom (gs_get G s))) (gs_max_txs_chain_count s)"
proof -
  let ?E = "edges G (gs_graph s)" and ?D = "set (direct_dependencies ct)" and ?m = "gs_max_txs_chain_count s"
  have nodes: "?E \<subseteq> dom (gs_get G s) \<times> dom (gs_get G s)"
    using edges_nodes [of "gs_graph s"] by (simp add: gs_get_def [abs_def])
  have ct: "?D \<subseteq> dom (gs_get G s)" "distinct (all_dependencies ct)"
      "set (all_dependencies ct) = (\<Union>p\<in>?D. up ?E p)"
      "all_dependencies ct \<noteq> [] \<longrightarrow> length (all_dependencies ct) < unat ?m"
      "\<And>a. a \<in> set (all_dependencies ct) \<Longrightarrow> card (down ?E a) < unat ?m"
    using ok by (simp_all add: checked_ok_def)
  have sink: "n \<notin> Domain ?E" "n \<notin> Range ?E" "n \<notin> ?D"
    using n nodes ct(1) by auto
  have "card (down (with_sink ?E ?D n) a) \<le> max 1 (unat ?m) \<and> card (up (with_sink ?E ?D n) a) \<le> max 1 (unat ?m)"
    if a: "a \<in> dom (gs_get G s)" for a
  proof -
    have bounds: "card (down ?E a) \<le> max 1 (unat ?m)" "card (up ?E a) \<le> max 1 (unat ?m)"
      using inv a by (auto simp: storage_inv_def chain_bounded_def)
    have "a \<noteq> n" using a n by auto
    have "card (insert n (down ?E a)) \<le> Suc (card (down ?E a))"
      by (rule card_insert_le_m1) simp_all
    then have "card (down (with_sink ?E ?D n) a) \<le> max 1 (unat ?m)"
      using down_with_sink_other [OF sink \<open>a \<noteq> n\<close>] ct(3) ct(5) [of a] bounds(1) by (auto split: if_splits)
    then show ?thesis
      using up_with_sink_other [OF sink(1,3) \<open>a \<noteq> n\<close>] bounds(2) by simp
  qed
  moreover have "card (up (with_sink ?E ?D n) n) \<le> max 1 (unat ?m)"
  proof -
    have "card (up (with_sink ?E ?D n) n) \<le> Suc (card (set (all_dependencies ct)))"
      unfolding up_with_sink [OF sink] ct(3) [symmetric] by (rule card_insert_le_m1) simp_all
    then show ?thesis
      using ct(2,4) by (cases "all_dependencies ct = []") (auto simp: distinct_card)
  qed
  moreover have "card (down (with_sink ?E ?D n) n) \<le> max 1 (unat ?m)"
    using down_with_sink [OF sink(1,3)] by simp
  ultimately show ?thesis
    unfolding chain_bounded_def by blast
qed

text \<open>Storing a transaction that was checked against the storage, and that creates nothing a stored
  transaction creates.\<close>

lemma store_transaction_inserts:
  assumes inv: "storage_inv G s" and ok: "checked_ok G s ct" and wf: "wf_tx (ct_tx ct)"
    and fits: "totals_fit (gs_get G s) (ct_tx ct)"
    and coins: "\<And>n d u. gs_get G s n = Some d \<Longrightarrow> creates_coin (ct_tx ct) u \<noteq> None \<Longrightarrow>
          creates_coin (sd_transaction d) u = None"
    and contracts: "\<And>n d c. gs_get G s n = Some d \<Longrightarrow> creates_contract (ct_tx ct) c \<Longrightarrow>
          \<not> creates_contract (sd_transaction d) c"
  shows "\<exists>s' n. store_transaction G s ct now = Some (s', n) \<and> storage_inv G s' \<and> gs_get G s n = None
    \<and> gs_get G s' n = Some (new_storage_data (ct_tx ct) now)
    \<and> tx_view (gs_get G s') = (tx_view (gs_get G s))(n \<mapsto> (ct_tx ct, now))
    \<and> edges G (gs_graph s') = with_sink (edges G (gs_graph s)) (set (direct_dependencies ct)) n
    \<and> gs_max_txs_chain_count s' = gs_max_txs_chain_count s"
proof -
  let ?E = "edges G (gs_graph s)" and ?w = "gs_get G s" and ?tx = "ct_tx ct"
  let ?D = "set (direct_dependencies ct)"
  have w: "node_weight G (gs_graph s) = ?w" by (simp add: gs_get_def [abs_def])
  have ct: "separate (up ?E) (direct_dependencies ct)" "?D \<subseteq> dom ?w" "distinct (all_dependencies ct)"
      "set (all_dependencies ct) = (\<Union>p\<in>?D. up ?E p)"
    using ok by (simp_all add: checked_ok_def)
  have nodes: "?E \<subseteq> dom ?w \<times> dom ?w" and fin: "finite (dom ?w)"
    using edges_nodes [of "gs_graph s"] finite_nodes [of "gs_graph s"] by (simp_all add: w)
  have above: "set (all_dependencies ct) \<subseteq> dom ?w"
    unfolding ct(4) using up_subset [OF nodes] ct(2) by blast
  define g1 where "g1 = foldl (add_dependent G ?tx) (gs_graph s) (all_dependencies ct)"
  have g1: "node_weight G g1 =
      (\<lambda>a. if a \<in> (\<Union>p\<in>?D. up ?E p) then map_option (add_dependent_data ?tx) (?w a) else ?w a)"
      "outgoing G g1 = outgoing G (gs_graph s)"
    using add_dependents_nodes [OF ct(3), of "gs_graph s" ?tx] above unfolding g1_def w ct(4) by simp_all
  obtain g2 n where g2: "add_node G g1 (new_storage_data ?tx now) = (g2, n)" by fastforce
  have n: "?w n = None"
    using add_node [OF g2] g1(1) by (auto split: if_splits)
  have w2: "node_weight G g2 = after_insertion ?w (\<Union>p\<in>?D. up ?E p) n ?tx (new_storage_data ?tx now)"
    using add_node [OF g2] unfolding g1(1) after_insertion_def by simp
  have out2: "outgoing G g2 = outgoing G (gs_graph s)"
    using add_node [OF g2] g1(2) by simp
  have dom2: "dom (node_weight G g2) = insert n (dom ?w)"
    unfolding w2 by (auto simp: after_insertion_def split: if_splits)
  obtain g3 where g3: "add_edges G (direct_dependencies ct) n g2 = Some g3"
      "node_weight G g3 = node_weight G g2"
      "\<And>x. mset (outgoing G g3 x) = mset (outgoing G g2 x) + (if x \<in> ?D then {#n#} else {#})"
    using add_edges_nodes [of "direct_dependencies ct" g2 n] ct(1,2) dom2 by (auto simp: separate_def)
  have out3: "set (outgoing G g3 x) = set (outgoing G (gs_graph s) x) \<union> (if x \<in> ?D then {n} else {})" for x
    using arg_cong [OF g3(3) [of x], of set_mset] by (simp add: out2)
  have E3: "edges G g3 = with_sink ?E ?D n"
    unfolding edges_def with_sink_def by (auto simp: out3 split: if_splits)
  have sink: "n \<notin> Domain ?E" "n \<notin> Range ?E" "n \<notin> ?D"
    using n nodes ct(2) by auto
  have uniq: "unique_paths ?E" using inv by (simp add: storage_inv_def graph_shape_def)
  have uniq3: "unique_paths (edges G g3)"
    unfolding E3 using uniq sink ct(1) by (intro unique_paths_with_sink) (auto dest: separateD)
  have "distinct (outgoing G g3 x)" for x
  proof -
    have "distinct (outgoing G g2 x)" "n \<notin> set (outgoing G g2 x)"
      using inv sink by (auto simp: out2 storage_inv_def graph_shape_def edges_def)
    then have "distinct (outgoing G g2 x @ (if x \<in> ?D then [n] else []))" by simp
    moreover have "mset (outgoing G g3 x) = mset (outgoing G g2 x @ (if x \<in> ?D then [n] else []))"
      using g3(3) [of x] by simp
    ultimately show ?thesis by (metis mset_eq_imp_distinct_iff)
  qed
  with uniq3 have shape3: "graph_shape G g3" by (simp add: graph_shape_def)
  let ?w3 = "after_insertion ?w (\<Union>p\<in>?D. up ?E p) n ?tx (new_storage_data ?tx now)"
  have w3: "node_weight G g3 = ?w3" using g3(2) w2 by simp
  have "node_weight G (gs_graph (s\<lparr>gs_graph := g3\<rparr>)) n = Some (new_storage_data ?tx now)"
    by (simp add: w3 after_insertion_def)
  moreover have tx: "sd_transaction (new_storage_data ?tx now) = ?tx"
    by (simp add: new_storage_data_def)
  ultimately obtain s' where cached: "cache_tx_infos G (s\<lparr>gs_graph := g3\<rparr>) (tx_id ?tx) n = Some s'
      \<and> gs_graph s' = gs_graph (s\<lparr>gs_graph := g3\<rparr>)
      \<and> gs_max_txs_chain_count s' = gs_max_txs_chain_count (s\<lparr>gs_graph := g3\<rparr>)
      \<and> gs_coins_creators s' = (\<lambda>u. if creates_coin ?tx u \<noteq> None then Some n
            else gs_coins_creators (s\<lparr>gs_graph := g3\<rparr>) u)
      \<and> gs_contracts_creators s' = (\<lambda>c. if creates_contract ?tx c then Some n
            else gs_contracts_creators (s\<lparr>gs_graph := g3\<rparr>) c)"
    using cache_tx_infos_maps [of G "s\<lparr>gs_graph := g3\<rparr>" n "new_storage_data ?tx now"] wf unfolding tx by blast
  then have s': "gs_graph s' = g3" "gs_max_txs_chain_count s' = gs_max_txs_chain_count s"
      "gs_coins_creators s' = (\<lambda>u. if creates_coin ?tx u \<noteq> None then Some n else gs_coins_creators s u)"
      "gs_contracts_creators s' = (\<lambda>c. if creates_contract ?tx c then Some n else gs_contracts_creators s c)"
    by (simp_all cong: if_cong)
  have get': "gs_get G s' = ?w3" by (simp add: gs_get_def [abs_def] s'(1) w3)
  have view: "tx_view (gs_get G s') = (tx_view ?w)(n \<mapsto> (?tx, now))"
    unfolding get' by (rule tx_view_insertion)
  have "totals_exact (gs_get G s') (edges G (gs_graph s'))"
    unfolding get' s'(1) E3 using inv by (intro totals_exact_insertion fin nodes n ct(2) fits) (simp add: storage_inv_def)
  moreover have "creators_exact (gs_coins_creators s') (\<lambda>tx u. creates_coin tx u \<noteq> None) (gs_get G s')"
    unfolding s'(3) using inv by (intro creators_exact_insertion [OF _ n view]) (auto simp: storage_inv_def dest: coins)
  moreover have "creators_exact (gs_contracts_creators s') creates_contract (gs_get G s')"
    unfolding s'(4) using inv by (intro creators_exact_insertion [OF _ n view]) (auto simp: storage_inv_def dest: contracts)
  moreover have "chain_bounded (edges G (gs_graph s')) (dom (gs_get G s')) (gs_max_txs_chain_count s')"
    unfolding s'(1,2) E3 using dom2 w2 by (simp add: get' chain_bounded_sink [OF inv ok n])
  moreover have "wf_tx (sd_transaction d)" if "gs_get G s' i = Some d" for i d
  proof -
    have "tx_view (gs_get G s') i = Some (sd_transaction d, creation_instant d)"
      using that by (simp add: tx_view_def)
    then have "(i = n \<and> sd_transaction d = ?tx) \<or> (\<exists>x. ?w i = Some x \<and> sd_transaction x = sd_transaction d)"
      unfolding view by (auto simp: tx_view_def split: if_splits)
    moreover have "wf_tx (sd_transaction x)" if "?w i = Some x" for x
      using inv that unfolding storage_inv_def by blast
    ultimately show ?thesis using wf by auto
  qed
  ultimately have "storage_inv G s'"
    using shape3 unfolding storage_inv_def s'(1) by blast
  moreover have "store_transaction G s ct now = Some (s', n)"
    using g2 g3(1) cached by (simp add: store_transaction_def Let_def flip: g1_def)
  moreover have "gs_get G s' n = Some (new_storage_data ?tx now)"
    by (simp add: get' after_insertion_def)
  ultimately show ?thesis
    using s'(1,2) n view E3 by blast
qed

end

context stable_digraph
begin

lemma remove_subtree_exact:
  assumes "storage_inv G s"
  shows "\<exists>s' is ds. remove_transaction_and_dependents_subtree G s r = Some (s', ds) \<and> storage_inv G s'
    \<and> distinct is \<and> set is = (if gs_get G s r = None then {} else down (edges G (gs_graph s)) r)
    \<and> list_all2 (\<lambda>i d. gs_get G s i = Some d) is ds
    \<and> tx_view (gs_get G s') = tx_view (gs_get G s) |` (- set is)
    \<and> edges G (gs_graph s') = restrict_edges (edges G (gs_graph s)) (set is)
    \<and> gs_max_txs_chain_count s' = gs_max_txs_chain_count s"
proof (cases "gs_get G s r")
  case None
  have "tx_view (gs_get G s) |` UNIV = tx_view (gs_get G s)"
    by (simp add: restrict_map_def)
  then show ?thesis
    using assms None
    by (simp add: remove_transaction_and_dependents_subtree_def remove_node_and_dependent_sub_graph_def gs_get_def)
next
  case (Some d)
  have "separate (down (edges G (gs_graph s))) [r]" "set [r] \<subseteq> dom (gs_get G s)"
    using Some by (auto simp: separate_def)
  from bfs_loop_subtrees [OF assms this, of "[]"] Some show ?thesis
    by (simp add: remove_transaction_and_dependents_subtree_def remove_node_and_dependent_sub_graph_def gs_get_def)
qed

lemma remove_executable_exact:
  assumes "storage_inv G s" "gs_get G s r = Some d" "\<not> has_dependencies G s r"
  shows "\<exists>s'. remove_transaction G s r = (s', Some d) \<and> storage_inv G s'
    \<and> gs_get G s' = (gs_get G s)(r := None)
    \<and> edges G (gs_graph s') = restrict_edges (edges G (gs_graph s)) {r}
    \<and> gs_max_txs_chain_count s' = gs_max_txs_chain_count s"
proof -
  let ?E = "edges G (gs_graph s)"
  have shape: "graph_shape G (gs_graph s)" and wf: "wf_tx (sd_transaction d)"
    using assms(1,2) unfolding storage_inv_def by blast+
  have no_inc: "incoming G (gs_graph s) r = []"
    using assms(3) by (simp add: has_dependencies_def get_direct_dependencies_def)
  then have "{p. (p, r) \<in> ?E} = {}"
    using set_incoming [of "gs_graph s" r] by simp
  then have up_r: "up ?E r = {r}"
    by (subst up_step) simp
  have nw: "node_weight G (gs_graph s) r = Some d"
    using assms(2) by (simp add: gs_get_def)
  obtain g1 g2 where g: "remove_node G (gs_graph s) r = (g1, Some d)"
      "reduce_dependencies G d (incoming G (gs_graph s) r) g1 = Some g2"
      "node_weight G g2 = (\<lambda>a. if a = r then None
         else if a \<in> up ?E r then map_option (reduce_data d) (node_weight G (gs_graph s) a)
         else node_weight G (gs_graph s) a)" "edges G g2 = without ?E r" "graph_shape G g2"
    by (rule remove_and_reduce [OF shape nw])
  have g12: "g2 = g1"
    using g(2) unfolding no_inc by (subst (asm) reduce_dependencies.simps) simp
  have w: "node_weight G g1 = after_removal (gs_get G s) ?E r d"
    using g(3) g12 by (simp add: after_removal_def gs_get_def [abs_def])
  define s' where "s' = clear_cache (s\<lparr>gs_graph := g1\<rparr>) d"
  have graph: "gs_graph s' = g1" "gs_max_txs_chain_count s' = gs_max_txs_chain_count s"
    by (simp_all add: s'_def clear_cache_maps [OF wf])
  then have "s' = s'\<lparr>gs_graph := g1\<rparr>" by simp
  then have "storage_inv G s'"
    using storage_inv_removal [OF assms(1,2) w, of g1] g(4,5) g12 unfolding s'_def by simp
  moreover have "gs_get G s' = (gs_get G s)(r := None)"
    using w up_r by (simp add: gs_get_def [abs_def] graph after_removal_def fun_eq_iff)
  ultimately show ?thesis
    using g(1,4) g12 graph by (simp add: remove_transaction_def s'_def restrict_edges_single)
qed

end

section \<open>Adjacency lists as an instance of the graph library\<close>

type_synonym adjacency = "(nat \<times> storage_data) list \<times> (nat \<times> nat) list"

definition adj_live :: "adjacency \<Rightarrow> (nat \<times> nat) list" where
  "adj_live g = filter (\<lambda>(a, b). map_of (fst g) a \<noteq> None \<and> map_of (fst g) b \<noteq> None) (snd g)"

definition adj_fresh :: "adjacency \<Rightarrow> nat" where
  "adj_fresh g = Suc (foldr max (map fst (fst g) @ map fst (snd g) @ map snd (snd g)) 0)"

definition adjacency_graph :: "(adjacency, nat) digraph" where
  "adjacency_graph =
     \<lparr>dg_new = ([], []),
      node_weight = (\<lambda>g n. map_of (fst g) n),
      put_weight = (\<lambda>g n d. (map (\<lambda>(k, v). (k, if k = n then d else v)) (fst g), snd g)),
      add_node = (\<lambda>g d. (((adj_fresh g, d) # fst g, snd g), adj_fresh g)),
      add_edge = (\<lambda>g a b. if map_of (fst g) a \<noteq> None \<and> map_of (fst g) b \<noteq> None
                          then Some (fst g, snd g @ [(a, b)]) else None),
      remove_node = (\<lambda>g n. case map_of (fst g) n of
           None \<Rightarrow> (g, None)
         | Some d \<Rightarrow> ((filter (\<lambda>(k, v). k \<noteq> n) (fst g), filter (\<lambda>(a, b). a \<noteq> n \<and> b \<noteq> n) (snd g)), Some d)),
      outgoing = (\<lambda>g n. map snd (filter (\<lambda>e. fst e = n) (adj_live g))),
      incoming = (\<lambda>g n. map fst (filter (\<lambda>e. snd e = n) (adj_live g)))\<rparr>"

lemma adj_fresh_bound: "x \<in> set (map fst (fst g) @ map fst (snd g) @ map snd (snd g)) \<Longrightarrow> x < adj_fresh g"
proof -
  have "x \<le> foldr max xs 0" if "x \<in> set xs" for x :: nat and xs
    using that by (induction xs) auto
  then show "x \<in> set (map fst (fst g) @ map fst (snd g) @ map snd (snd g)) \<Longrightarrow> x < adj_fresh g"
    by (fastforce simp: adj_fresh_def less_Suc_eq_le)
qed

lemma map_of_put: "map_of (map (\<lambda>(k, v). (k, if k = n then d else v)) xs) =
    (\<lambda>m. if m = n then (if map_of xs n = None then None else Some d) else map_of xs m)"
  by (induction xs) (auto simp: fun_eq_iff)

lemma map_of_drop: "map_of (filter (\<lambda>(k, v). k \<noteq> n) xs) = (map_of xs)(n := None)"
  by (induction xs) (auto simp: fun_eq_iff)

lemma count_edge_ends:
  "count (mset (map fst (filter (\<lambda>e. snd e = b) es))) a = count (mset (map snd (filter (\<lambda>e. fst e = a) es))) b"
  by (induction es) auto

lemma out_edges_drop:
  "map snd (filter (\<lambda>e. fst e = m) (filter (\<lambda>(a, b). a \<noteq> n \<and> b \<noteq> n) es)) =
     (if m = n then [] else filter (\<lambda>x. x \<noteq> n) (map snd (filter (\<lambda>e. fst e = m) es)))"
proof (induction es)
  case (Cons e es)
  then show ?case by (cases e; cases "m = n") simp_all
qed simp

interpretation adj: stable_digraph adjacency_graph
proof
  fix g :: adjacency and n :: nat
  assume n: "node_weight adjacency_graph g n = None"
  show "outgoing adjacency_graph g n = [] \<and> incoming adjacency_graph g n = []"
    using n by (auto simp: adjacency_graph_def adj_live_def filter_empty_conv)
next
  fix g g' :: adjacency and d n
  assume "add_node adjacency_graph g d = (g', n)"
  then have n: "n = adj_fresh g" "g' = ((n, d) # fst g, snd g)"
    by (auto simp: adjacency_graph_def)
  have "map_of (fst g) n = None"
    using adj_fresh_bound [of n g] by (auto simp: n map_of_eq_None_iff)
  moreover have "a \<noteq> n \<and> b \<noteq> n" if "(a, b) \<in> set (snd g)" for a b
  proof -
    have "a \<in> fst ` set (snd g)" "b \<in> snd ` set (snd g)"
      using imageI [OF that, of fst] imageI [OF that, of snd] by simp_all
    then show ?thesis
      using adj_fresh_bound [of a g] adj_fresh_bound [of b g] by (simp add: n(1))
  qed
  then have "adj_live g' = adj_live g"
    by (auto simp: adj_live_def n(2) intro!: filter_cong)
  ultimately show "node_weight adjacency_graph g n = None
      \<and> node_weight adjacency_graph g' = (node_weight adjacency_graph g)(n \<mapsto> d)
      \<and> outgoing adjacency_graph g' = outgoing adjacency_graph g"
    by (simp add: adjacency_graph_def n(2) fun_eq_iff)
next
  fix g :: adjacency and n d
  assume n: "node_weight adjacency_graph g n = Some d"
  let ?g = "(filter (\<lambda>(k, v). k \<noteq> n) (fst g), filter (\<lambda>(a, b). a \<noteq> n \<and> b \<noteq> n) (snd g))"
  have live: "adj_live ?g = filter (\<lambda>(a, b). a \<noteq> n \<and> b \<noteq> n) (adj_live g)"
    by (auto simp: adj_live_def map_of_drop intro!: filter_cong)
  have "outgoing adjacency_graph ?g m =
      (if m = n then [] else filter (\<lambda>x. x \<noteq> n) (outgoing adjacency_graph g m))" for m
    by (simp only: adjacency_graph_def digraph.simps live out_edges_drop)
  then show "\<exists>g'. remove_node adjacency_graph g n = (g', Some d)
      \<and> node_weight adjacency_graph g' = (node_weight adjacency_graph g)(n := None)
      \<and> (\<forall>m. mset (outgoing adjacency_graph g' m) =
           (if m = n then {#} else filter_mset (\<lambda>x. x \<noteq> n) (mset (outgoing adjacency_graph g m))))"
    using n by (intro exI [of _ ?g]) (simp add: adjacency_graph_def map_of_drop)
next
  fix g :: adjacency and n d
  assume n: "node_weight adjacency_graph g n \<noteq> None"
  let ?g = "(map (\<lambda>(k, v). (k, if k = n then d else v)) (fst g), snd g)"
  have live: "adj_live ?g = adj_live g"
    using n unfolding adj_live_def adjacency_graph_def by (intro filter_cong) (auto simp: map_of_put split: if_splits)
  show "node_weight adjacency_graph (put_weight adjacency_graph g n d) = (node_weight adjacency_graph g)(n \<mapsto> d)
      \<and> outgoing adjacency_graph (put_weight adjacency_graph g n d) = outgoing adjacency_graph g
      \<and> incoming adjacency_graph (put_weight adjacency_graph g n d) = incoming adjacency_graph g"
    using n live by (simp add: adjacency_graph_def map_of_put fun_eq_iff)
next
  fix g :: adjacency and a b
  assume "node_weight adjacency_graph g a \<noteq> None" "node_weight adjacency_graph g b \<noteq> None"
  then show "\<exists>g'. add_edge adjacency_graph g a b = Some g'
      \<and> node_weight adjacency_graph g' = node_weight adjacency_graph g
      \<and> (\<forall>n. mset (outgoing adjacency_graph g' n) =
           mset (outgoing adjacency_graph g n) + (if n = a then {#b#} else {#}))"
    by (intro exI [of _ "(fst g, snd g @ [(a, b)])"]) (simp add: adjacency_graph_def adj_live_def)
next
  fix g :: adjacency
  show "finite (dom (node_weight adjacency_graph g))"
    by (simp add: adjacency_graph_def finite_dom_map_of)
next
  fix g :: adjacency and a b
  show "count (mset (incoming adjacency_graph g b)) a = count (mset (outgoing adjacency_graph g a)) b"
    by (simp only: adjacency_graph_def digraph.simps count_edge_ends)
qed (simp_all add: adjacency_graph_def)

section \<open>Properties of the storage\<close>

text \<open>The storages the pool can produce: transactions are stored after they were checked, with an
  identifier and contracts no stored transaction has; subtrees are removed at any node, and single
  transactions when nothing stored precedes them.\<close>

inductive storage_reachable :: "('g, 'n) digraph \<Rightarrow> usize \<Rightarrow> ('g, 'n) graph_storage \<Rightarrow> bool"
  for G :: "('g, 'n) digraph" and m :: usize where
  start: "storage_reachable G m (graph_storage_new G m)"
| store: "storage_reachable G m s \<Longrightarrow> can_store_transaction G s tx = Inr ct \<Longrightarrow>
    store_transaction G s ct now = Some (s', n) \<Longrightarrow> wf_tx tx \<Longrightarrow> totals_fit (gs_get G s) tx \<Longrightarrow>
    (\<And>i d. gs_get G s i = Some d \<Longrightarrow> tx_id (sd_transaction d) \<noteq> tx_id tx
        \<and> (\<forall>c. creates_contract tx c \<longrightarrow> \<not> creates_contract (sd_transaction d) c)) \<Longrightarrow>
    storage_reachable G m s'"
| drop_subtree: "storage_reachable G m s \<Longrightarrow>
    remove_transaction_and_dependents_subtree G s r = Some (s', ds) \<Longrightarrow> storage_reachable G m s'"
| drop_executable: "storage_reachable G m s \<Longrightarrow> \<not> has_dependencies G s r \<Longrightarrow>
    remove_transaction G s r = (s', Some d) \<Longrightarrow> storage_reachable G m s'"

lemma creates_coin_id: "creates_coin tx u \<noteq> None \<Longrightarrow> fst u = tx_id tx"
  by (auto simp: creates_coin_def split: if_splits)

context stable_digraph
begin

lemma storage_inv_new: "storage_inv G (graph_storage_new G m)"
proof -
  have "outgoing G (dg_new G) n = []" for n
    using isolated [OF weight_new] by simp
  then have "edges G (dg_new G) = {}" by (auto simp: edges_def)
  moreover have "gs_get G (graph_storage_new G m) = Map.empty"
    by (auto simp: gs_get_def graph_storage_new_def weight_new)
  ultimately show ?thesis
    using \<open>\<And>n. outgoing G (dg_new G) n = []\<close>
    by (simp add: storage_inv_def graph_shape_def unique_paths_def totals_exact_def exact_total_def
        creators_exact_def chain_bounded_def) (simp add: graph_storage_new_def acyclic_def)
qed

lemma storage_reachable_inv:
  assumes "storage_reachable G m s"
  shows "storage_inv G s \<and> gs_max_txs_chain_count s = m"
  using assms
proof induction
  case start
  then show ?case by (simp add: storage_inv_new) (simp add: graph_storage_new_def)
next
  case (store s tx ct now s' n)
  have ct: "checked_ok G s ct" "ct_tx ct = tx"
    using can_store_checked store.IH store.hyps(2) by blast+
  have "creates_coin (sd_transaction d) u = None"
    if "gs_get G s i = Some d" "creates_coin (ct_tx ct) u \<noteq> None" for i d u
  proof (rule ccontr)
    assume "creates_coin (sd_transaction d) u \<noteq> None"
    then show False
      using store.hyps(6) [OF that(1)] creates_coin_id [OF that(2)] creates_coin_id [of "sd_transaction d" u] ct(2)
      by simp
  qed
  then show ?case
    using store_transaction_inserts [OF _ ct(1), of now] store.IH store.hyps(3-6) ct(2) by fastforce
next
  case (drop_subtree s r s' ds)
  then show ?case using remove_subtree_exact [of s r] by auto
next
  case (drop_executable s r s' d)
  have "gs_get G s r = Some d"
  proof (cases "gs_get G s r")
    case None
    then have "remove_node G (gs_graph s) r = (gs_graph s, None)"
      by (intro remove_missing) (simp add: gs_get_def)
    then show ?thesis using drop_executable.hyps(3) by (simp add: remove_transaction_def)
  next
    case (Some d')
    then show ?thesis
      using remove_executable_exact [OF _ Some] drop_executable by auto
  qed
  then show ?case
    using remove_executable_exact [of s r d] drop_executable by auto
qed

end


text \<open>C33: Removing a transaction from a reachable storage always returns, and removes exactly the
  transaction and its transitive dependents, each once and with the data stored for it; every other
  transaction stays stored, with its dependencies among the remaining ones.\<close>

theorem subtree_removal_exact:
  assumes "stable_digraph G" "storage_reachable G m s"
  shows "\<exists>s' is ds. remove_transaction_and_dependents_subtree G s r = Some (s', ds)
    \<and> distinct is \<and> set is = (if gs_get G s r = None then {} else down (edges G (gs_graph s)) r)
    \<and> list_all2 (\<lambda>i d. gs_get G s i = Some d) is ds
    \<and> tx_view (gs_get G s') = tx_view (gs_get G s) |` (- set is)
    \<and> edges G (gs_graph s') = {(a, b) \<in> edges G (gs_graph s). a \<notin> set is \<and> b \<notin> set is}"
proof -
  have inv: "storage_inv G s"
    using stable_digraph.storage_reachable_inv [OF assms] by simp
  show ?thesis
    using stable_digraph.remove_subtree_exact [OF assms(1) inv, of r]
    unfolding restrict_edges_def by blast
qed

lemma visit_dependencies_error:
  "visit_dependencies G s to_check all = Inl e \<Longrightarrow> \<exists>x. e = Dependency x"
proof (induction G s to_check all rule: visit_dependencies.induct)
  case (1 G s to_check all)
  show ?case
    using 1 by (subst (asm) (3) visit_dependencies.simps)
      (auto simp: Let_def split: if_splits option.splits)
qed

lemma collect_dependencies_error:
  "collect_dependencies s deps ins = Inl e \<Longrightarrow> \<exists>x. e = Dependency x"
proof (induction ins arbitrary: deps)
  case (Cons i ins)
  then show ?case
    by (cases "input_view i")
      (auto simp: insert_dependency_def Let_def split: sum.splits option.splits if_splits)
qed simp

lemma can_store_error: "can_store_transaction G s tx = Inl e \<Longrightarrow> \<exists>x. e = Dependency x"
  by (auto simp: can_store_transaction_def collect_transaction_direct_dependencies_def
      split: sum.splits dest: collect_dependencies_error visit_dependencies_error)

text \<open>C34: A transaction with two distinct direct dependencies that share an ancestor, or one of which
  precedes the other, would close a diamond: storing it is refused with a dependency error.\<close>

theorem diamond_refused:
  assumes "stable_digraph G" "storage_reachable G m s"
    and "gs_get G s p = Some dp" "depends_on tx (sd_transaction dp)"
    and "gs_get G s q = Some dq" "depends_on tx (sd_transaction dq)"
    and "p \<noteq> q" "up (edges G (gs_graph s)) p \<inter> up (edges G (gs_graph s)) q \<noteq> {}"
  shows "\<exists>e. can_store_transaction G s tx = Inl (Dependency e)"
proof -
  have inv: "storage_inv G s"
    using stable_digraph.storage_reachable_inv [OF assms(1,2)] by simp
  have "can_store_transaction G s tx \<noteq> Inr ct" for ct
  proof
    assume "can_store_transaction G s tx = Inr ct"
    from stable_digraph.can_store_checked [OF assms(1) inv this]
    have "separate (up (edges G (gs_graph s))) (direct_dependencies ct)"
      "p \<in> set (direct_dependencies ct)" "q \<in> set (direct_dependencies ct)"
      using assms(3-6) by (auto simp: checked_ok_def)
    then show False using separateD assms(7,8) by metis
  qed
  then obtain e where "can_store_transaction G s tx = Inl e"
    by (cases "can_store_transaction G s tx") auto
  then show ?thesis
    using can_store_error by blast
qed

subsection \<open>A storage with a transaction and a dependent\<close>

definition sample_coin :: "utxo_id \<Rightarrow> tx_input" where
  "sample_coin u = CoinSigned \<lparr>ci_utxo_id = u, ci_owner = 3, ci_amount = 4, ci_asset_id = 5\<rparr>"

definition sample_parent :: pool_tx where
  "sample_parent = sample_tx 1 [] [OutCoin 3 4 5, OutCoin 3 4 5]"

definition sample_child :: pool_tx where
  "sample_child = sample_tx 2 [sample_coin (1, 0)] [OutCoin 3 4 5]"

definition sample_storage1 :: "(adjacency, nat) graph_storage" where
  "sample_storage1 =
     \<lparr>gs_max_txs_chain_count = 10, gs_graph = ([(1, new_storage_data sample_parent 0)], []),
      gs_coins_creators = [(1, 0) \<mapsto> 1, (1, 1) \<mapsto> 1], gs_contracts_creators = Map.empty\<rparr>"

definition sample_storage2 :: "(adjacency, nat) graph_storage" where
  "sample_storage2 =
     \<lparr>gs_max_txs_chain_count = 10,
      gs_graph = ([(2, new_storage_data sample_child 0),
                   (1, add_dependent_data sample_child (new_storage_data sample_parent 0))], [(1, 2)]),
      gs_coins_creators = [(1, 0) \<mapsto> 1, (1, 1) \<mapsto> 1, (2, 0) \<mapsto> 2], gs_contracts_creators = Map.empty\<rparr>"

lemma sample_coin_view [simp]:
  "input_view (sample_coin u) = VCoin \<lparr>ci_utxo_id = u, ci_owner = 3, ci_amount = 4, ci_asset_id = 5\<rparr>"
  by (simp add: sample_coin_def)

lemmas sample_eval = adjacency_graph_def adj_live_def adj_fresh_def gs_get_def graph_storage_new_def
  can_store_transaction_def collect_transaction_direct_dependencies_def insert_dependency_def
  store_transaction_def add_dependent_def cache_tx_infos_def Let_def
  sample_storage1_def sample_storage2_def

lemma sample_can_store1:
  "can_store_transaction adjacency_graph (graph_storage_new adjacency_graph 10) sample_parent =
     Inr \<lparr>ct_tx = sample_parent, direct_dependencies = [], all_dependencies = []\<rparr>"
  by (simp add: sample_eval visit_dependencies.simps sample_parent_def)

lemma sample_store1:
  "store_transaction adjacency_graph (graph_storage_new adjacency_graph 10)
     \<lparr>ct_tx = sample_parent, direct_dependencies = [], all_dependencies = []\<rparr> 0 = Some (sample_storage1, 1)"
  by (simp add: sample_eval new_storage_data_def sample_parent_def)

lemma sample_can_store2:
  "can_store_transaction adjacency_graph sample_storage1 sample_child =
     Inr \<lparr>ct_tx = sample_child, direct_dependencies = [1], all_dependencies = [1]\<rparr>"
  by (simp add: sample_eval visit_dependencies.simps new_storage_data_def sample_child_def word_le_nat_alt)

lemma sample_store2:
  "store_transaction adjacency_graph sample_storage1
     \<lparr>ct_tx = sample_child, direct_dependencies = [1], all_dependencies = [1]\<rparr> 0 = Some (sample_storage2, 2)"
  by (simp add: sample_eval new_storage_data_def sample_child_def numeral_2_eq_2)

lemma sample_get2: "gs_get adjacency_graph sample_storage2 =
    [2 \<mapsto> new_storage_data sample_child 0,
     1 \<mapsto> add_dependent_data sample_child (new_storage_data sample_parent 0)]"
  by (auto simp: sample_eval fun_eq_iff)

lemma sample_edges2: "edges adjacency_graph (gs_graph sample_storage2) = {(1, 2)}"
  by (auto simp: edges_def sample_eval split: if_splits)

lemma sample_reachable1: "storage_reachable adjacency_graph 10 sample_storage1"
proof (rule storage_reachable.store [OF storage_reachable.start sample_can_store1 sample_store1])
  show "wf_tx sample_parent" by (simp add: wf_tx_def sample_parent_def)
  have "gs_get adjacency_graph (graph_storage_new adjacency_graph 10) = Map.empty"
    by (simp add: sample_eval fun_eq_iff)
  then show "totals_fit (gs_get adjacency_graph (graph_storage_new adjacency_graph 10)) sample_parent"
    by (simp add: totals_fit_def room_for_def sample_parent_def)
qed (simp add: sample_eval)

lemma sample_reachable2: "storage_reachable adjacency_graph 10 sample_storage2"
proof (rule storage_reachable.store [OF sample_reachable1 sample_can_store2 sample_store2])
  show "wf_tx sample_child" by (simp add: wf_tx_def sample_child_def)
  have get1: "gs_get adjacency_graph sample_storage1 = [1 \<mapsto> new_storage_data sample_parent 0]"
    by (auto simp: sample_eval fun_eq_iff)
  then show "totals_fit (gs_get adjacency_graph sample_storage1) sample_child"
    by (simp add: totals_fit_def room_for_def sample_parent_def sample_child_def new_storage_data_def)
  show "tx_id (sd_transaction d) \<noteq> tx_id sample_child
      \<and> (\<forall>c. creates_contract sample_child c \<longrightarrow> \<not> creates_contract (sd_transaction d) c)"
    if "gs_get adjacency_graph sample_storage1 i = Some d" for i d
    using that by (auto simp: get1 new_storage_data_def sample_parent_def sample_child_def split: if_splits)
qed

lemma sample_down: "down {(1 :: nat, 2)} 1 = {1, 2}"
proof -
  have "down {(1 :: nat, 2)} 2 = {2}" by (subst down_step) simp
  then show ?thesis by (subst down_step) auto
qed


theorem subtree_removal_exact_witness:
  "\<exists>s' is ds. remove_transaction_and_dependents_subtree adjacency_graph sample_storage2 1 = Some (s', ds)
     \<and> distinct is \<and> set is = {1, 2}
     \<and> list_all2 (\<lambda>i d. gs_get adjacency_graph sample_storage2 i = Some d) is ds"
proof -
  have "gs_get adjacency_graph sample_storage2 1 \<noteq> None" by (simp add: sample_get2)
  then show ?thesis
    using subtree_removal_exact [OF adj.stable_digraph_axioms sample_reachable2, of 1]
    unfolding sample_edges2 sample_down by auto
qed

theorem diamond_refused_witness:
  "\<exists>e. can_store_transaction adjacency_graph sample_storage2
     (sample_tx 3 [sample_coin (1, 1), sample_coin (2, 0)] []) = Inl (Dependency e)"
proof (rule diamond_refused [OF adj.stable_digraph_axioms sample_reachable2])
  show "gs_get adjacency_graph sample_storage2 1 =
      Some (add_dependent_data sample_child (new_storage_data sample_parent 0))"
    "gs_get adjacency_graph sample_storage2 2 = Some (new_storage_data sample_child 0)"
    by (simp_all add: sample_get2)
  show "depends_on (sample_tx 3 [sample_coin (1, 1), sample_coin (2, 0)] [])
      (sd_transaction (add_dependent_data sample_child (new_storage_data sample_parent 0)))"
    "depends_on (sample_tx 3 [sample_coin (1, 1), sample_coin (2, 0)] [])
      (sd_transaction (new_storage_data sample_child 0))"
    by (simp_all add: depends_on_def add_dependent_data_def new_storage_data_def sample_parent_def
        sample_child_def creates_coin_def output_at_def)
  have "1 \<in> up {(1 :: nat, 2)} 2" unfolding up_iff_down sample_down by simp
  then show "up (edges adjacency_graph (gs_graph sample_storage2)) 1
      \<inter> up (edges adjacency_graph (gs_graph sample_storage2)) 2 \<noteq> {}"
    unfolding sample_edges2 by blast
qed simp

end
