(* ===== verification/Tx_Pool_Selection.thy ===== *)
theory Tx_Pool_Selection
  imports Tx_Pool_Storage
begin

text \<open>
  Selection of transactions for a block by tip per gas (\<open>selection_algorithms/ratio_tip_gas.rs\<close>).

  The ordered map of executable transactions is a list of entries sorted by decreasing key. The
  selection reaches the stored transactions through the operations of a trait, here the record
  \<open>selection_storage\<close>; the laws it relies on are the locale \<open>dependency_storage\<close>, which the graph storage
  satisfies. A panic is the result \<open>None\<close>.
\<close>

section \<open>Keys\<close>

(* src/crates/services/txpool_v2/src/selection_algorithms/ratio_tip_gas.rs:47-54 Key *)
datatype select_key = SelectKey (key_ratio: rat) (key_instant: instant) (key_tx_id: tx_id)

text \<open>Keys compare by ratio, then the older instant is greater, then by transaction id.\<close>

(* src/crates/services/txpool_v2/src/selection_algorithms/ratio_tip_gas.rs:56-70 Ord::cmp for Key *)
definition key_cmp_less :: "select_key \<Rightarrow> select_key \<Rightarrow> bool" where
  "key_cmp_less a b \<longleftrightarrow> key_ratio a < key_ratio b
     \<or> key_ratio a = key_ratio b \<and> (key_instant b < key_instant a
         \<or> key_instant a = key_instant b \<and> key_tx_id a < key_tx_id b)"

instantiation select_key :: linorder
begin

definition less_select_key :: "select_key \<Rightarrow> select_key \<Rightarrow> bool" where
  "less_select_key a b = key_cmp_less a b"

definition less_eq_select_key :: "select_key \<Rightarrow> select_key \<Rightarrow> bool" where
  "less_eq_select_key a b \<longleftrightarrow> key_cmp_less a b \<or> a = b"

instance
proof
  fix a b c :: select_key
  show "a < b \<longleftrightarrow> a \<le> b \<and> \<not> b \<le> a"
    by (auto simp: less_select_key_def less_eq_select_key_def key_cmp_less_def)
  show "a \<le> a"
    by (simp add: less_eq_select_key_def)
  show "a \<le> b \<Longrightarrow> b \<le> c \<Longrightarrow> a \<le> c"
    by (auto simp: less_eq_select_key_def key_cmp_less_def)
  show "a \<le> b \<Longrightarrow> b \<le> a \<Longrightarrow> a = b"
    by (auto simp: less_eq_select_key_def key_cmp_less_def)
  show "a \<le> b \<or> b \<le> a"
    by (cases a; cases b) (auto simp: less_eq_select_key_def key_cmp_less_def)
qed

end

(* src/crates/services/txpool_v2/src/selection_algorithms/ratio_tip_gas.rs:103-113 RatioTipGasSelection::key *)
definition selection_key :: "storage_data \<Rightarrow> select_key option" where
  "selection_key d =
     (let tx = sd_transaction d
      in map_option (\<lambda>ratio. SelectKey ratio (creation_instant d) (tx_id tx))
           (ratio_new (saturating_add (tx_tip tx) 1) (tx_max_gas tx)))"

section \<open>The ordered map of executable transactions\<close>

(* src/crates/services/txpool_v2/src/selection_algorithms/ratio_tip_gas.rs:78-85 RatioTipGasSelection *)
type_synonym 'i executables = "(select_key \<times> 'i) list"

fun exec_insert :: "select_key \<Rightarrow> 'i \<Rightarrow> 'i executables \<Rightarrow> 'i executables" where
  "exec_insert k i [] = [(k, i)]"
| "exec_insert k i ((k', i') # xs) =
     (if k = k' then (k, i) # xs
      else if k' < k then (k, i) # (k', i') # xs
      else (k', i') # exec_insert k i xs)"

(* src/crates/services/txpool_v2/src/selection_algorithms/ratio_tip_gas.rs:115-118 RatioTipGasSelection::on_removed_transaction_inner *)
definition exec_remove :: "select_key \<Rightarrow> 'i executables \<Rightarrow> 'i executables" where
  "exec_remove k xs = filter (\<lambda>e. fst e \<noteq> k) xs"

(* src/crates/services/txpool_v2/src/selection_algorithms/ratio_tip_gas.rs:264-272 SelectionAlgorithm::new_executable_transaction *)
definition new_executable_transaction ::
    "'i executables \<Rightarrow> 'i \<Rightarrow> storage_data \<Rightarrow> 'i executables option" where
  "new_executable_transaction xs i d = map_option (\<lambda>k. exec_insert k i xs) (selection_key d)"

(* src/crates/services/txpool_v2/src/selection_algorithms/ratio_tip_gas.rs:280-283 SelectionAlgorithm::on_removed_transaction *)
definition selection_on_removed :: "'i executables \<Rightarrow> storage_data \<Rightarrow> 'i executables option" where
  "selection_on_removed xs d = map_option (\<lambda>k. exec_remove k xs) (selection_key d)"

(* src/crates/services/txpool_v2/src/selection_algorithms/ratio_tip_gas.rs:274-278 SelectionAlgorithm::get_less_worth_txs *)
definition get_less_worth_txs :: "'i executables \<Rightarrow> 'i list" where
  "get_less_worth_txs xs = rev (map snd xs)"

(* src/crates/services/txpool_v2/src/selection_algorithms/ratio_tip_gas.rs:285-287 SelectionAlgorithm::number_of_executable_transactions *)
definition number_of_executable_transactions :: "'i executables \<Rightarrow> nat" where
  "number_of_executable_transactions xs = length xs"

section \<open>Gathering the best transactions\<close>

(* src/crates/services/txpool_v2/src/selection_algorithms/ratio_tip_gas.rs:30-43 RatioTipGasSelectionAlgorithmStorage *)
record ('s, 'i) selection_storage =
  ss_get :: "'s \<Rightarrow> 'i \<Rightarrow> storage_data option"
  ss_dependents :: "'s \<Rightarrow> 'i \<Rightarrow> 'i list"
  ss_has_dependencies :: "'s \<Rightarrow> 'i \<Rightarrow> bool"
  ss_remove :: "'s \<Rightarrow> 'i \<Rightarrow> 's \<times> storage_data option"

(* src/crates/services/txpool_v2/src/storage/graph.rs:763-786 RatioTipGasSelectionAlgorithmStorage for GraphStorage *)
definition graph_selection_storage :: "('g, 'n) digraph \<Rightarrow> (('g, 'n) graph_storage, 'n) selection_storage" where
  "graph_selection_storage G =
     \<lparr>ss_get = gs_get G, ss_dependents = get_direct_dependents G, ss_has_dependencies = has_dependencies G,
      ss_remove = remove_transaction G\<rparr>"

(* src/crates/services/txpool_v2/src/selection_algorithms/ratio_tip_gas.rs:154-174 local state of gather_best_txs *)
record ('s, 'i) gathering =
  ga_gas_left :: u64
  ga_space_left :: usize
  ga_nb_left :: u16
  ga_storage :: 's
  ga_result :: "storage_data list"
  ga_clean_up :: "select_key list"
  ga_to_remove :: "select_key list"
  ga_to_promote :: "'i list"

(* src/crates/services/txpool_v2/src/selection_algorithms/ratio_tip_gas.rs:167-169 loop condition of gather_best_txs *)
definition gather_room :: "('s, 'i) gathering \<Rightarrow> bool" where
  "gather_room ga \<longleftrightarrow> 0 < ga_gas_left ga \<and> 0 < ga_nb_left ga \<and> 0 < ga_space_left ga"

(* src/crates/services/txpool_v2/src/selection_algorithms/ratio_tip_gas.rs:208-226 selection of one transaction in gather_best_txs *)
definition select_tx ::
    "('s, 'i) selection_storage \<Rightarrow> select_key \<Rightarrow> 'i \<Rightarrow> storage_data \<Rightarrow> ('s, 'i) gathering
      \<Rightarrow> ('s, 'i) gathering option" where
  "select_tx S k i d ga =
     (let dependents = ss_dependents S (ga_storage ga) i
      in case ss_remove S (ga_storage ga) i of
           (s', None) \<Rightarrow> None
         | (s', Some removed) \<Rightarrow>
             Some (ga\<lparr>ga_gas_left := saturating_sub (ga_gas_left ga) (tx_max_gas (sd_transaction d)),
                     ga_space_left := saturating_sub (ga_space_left ga) (metered_bytes_size (sd_transaction d)),
                     ga_nb_left := saturating_sub (ga_nb_left ga) 1,
                     ga_storage := s',
                     ga_result := ga_result ga @ [removed],
                     ga_clean_up := ga_clean_up ga @ [k],
                     ga_to_promote := ga_to_promote ga
                       @ filter (\<lambda>j. \<not> ss_has_dependencies S s' j) dependents\<rparr>))"

(* src/crates/services/txpool_v2/src/selection_algorithms/ratio_tip_gas.rs:176-227 inner loop of gather_best_txs *)
fun gather_pass ::
    "('s, 'i) selection_storage \<Rightarrow> u64 \<Rightarrow> 'i executables \<Rightarrow> ('s, 'i) gathering \<Rightarrow> ('s, 'i) gathering option" where
  "gather_pass S min_price [] ga = Some ga"
| "gather_pass S min_price ((k, i) # xs) ga =
     (if \<not> gather_room ga then Some ga
      else
        (case ss_get S (ga_storage ga) i of
           None \<Rightarrow> gather_pass S min_price xs (ga\<lparr>ga_to_remove := ga_to_remove ga @ [k]\<rparr>)
         | Some d \<Rightarrow>
             (if tx_max_gas_price (sd_transaction d) < min_price then gather_pass S min_price xs ga
              else if ga_gas_left ga < tx_max_gas (sd_transaction d)
                \<or> ga_space_left ga < metered_bytes_size (sd_transaction d)
              then gather_pass S min_price xs ga
              else (case select_tx S k i d ga of
                      None \<Rightarrow> None
                    | Some ga' \<Rightarrow> gather_pass S min_price xs ga'))))"

(* src/crates/services/txpool_v2/src/selection_algorithms/ratio_tip_gas.rs:248-253 promotion of dependents in gather_best_txs *)
fun promote_all ::
    "('s, 'i) selection_storage \<Rightarrow> 's \<Rightarrow> 'i list \<Rightarrow> 'i executables \<Rightarrow> 'i executables option" where
  "promote_all S s [] xs = Some xs"
| "promote_all S s (i # is) xs =
     (case ss_get S s i of
        None \<Rightarrow> None
      | Some d \<Rightarrow>
          (case new_executable_transaction xs i d of
             None \<Rightarrow> None
           | Some xs' \<Rightarrow> promote_all S s is xs'))"

(* src/crates/services/txpool_v2/src/selection_algorithms/ratio_tip_gas.rs:172-174 start of an iteration of gather_best_txs *)
definition start_pass :: "('s, 'i) gathering \<Rightarrow> ('s, 'i) gathering" where
  "start_pass ga = ga\<lparr>ga_clean_up := [], ga_to_remove := [], ga_to_promote := []\<rparr>"

lemma select_tx_nb:
  "select_tx S k i d ga = Some ga' \<Longrightarrow> 0 < ga_nb_left ga \<Longrightarrow> unat (ga_nb_left ga') < unat (ga_nb_left ga)"
  by (auto simp: select_tx_def Let_def unat_saturating_sub word_less_nat_alt split: prod.splits option.splits)

lemma gather_pass_nb:
  "gather_pass S p xs ga = Some ga' \<Longrightarrow> unat (ga_nb_left ga') \<le> unat (ga_nb_left ga)
    \<and> (ga_clean_up ga' \<noteq> ga_clean_up ga \<or> ga_to_promote ga' \<noteq> ga_to_promote ga \<longrightarrow>
         unat (ga_nb_left ga') < unat (ga_nb_left ga))"
proof (induction S p xs ga rule: gather_pass.induct)
  case (2 S p k i xs ga)
  show ?case
  proof (cases "gather_room ga")
    case False
    then show ?thesis using "2.prems" by simp
  next
    case True
    then have nb: "0 < ga_nb_left ga" by (simp add: gather_room_def)
    show ?thesis
      using "2.prems" "2.IH" True select_tx_nb [OF _ nb]
      by (fastforce split: option.splits if_splits)
  qed
qed simp

text \<open>The outer loop: every iteration that does not end it selects a transaction.\<close>

(* src/crates/services/txpool_v2/src/selection_algorithms/ratio_tip_gas.rs:167-255 outer loop of gather_best_txs *)
function gather_loop ::
    "('s, 'i) selection_storage \<Rightarrow> u64 \<Rightarrow> ('s, 'i) gathering \<Rightarrow> 'i executables \<Rightarrow> bool
      \<Rightarrow> (('s, 'i) gathering \<times> 'i executables \<times> bool) option" where
  "gather_loop S min_price ga xs add_new =
     (if gather_room ga \<and> xs \<noteq> [] then
        (case gather_pass S min_price xs (start_pass ga) of
           None \<Rightarrow> None
         | Some ga' \<Rightarrow>
             (let xs = foldl (\<lambda>xs k. exec_remove k xs) xs (ga_to_remove ga')
              in if ga_clean_up ga' = [] \<and> ga_to_promote ga' = [] then Some (ga', xs, add_new)
                 else
                   (let xs = foldl (\<lambda>xs k. exec_remove k xs) xs (ga_clean_up ga')
                    in if ga_to_promote ga' = [] then gather_loop S min_price ga' xs add_new
                       else (case promote_all S (ga_storage ga') (ga_to_promote ga') xs of
                               None \<Rightarrow> None
                             | Some xs \<Rightarrow> gather_loop S min_price ga' xs True))))
      else Some (ga, xs, add_new))"
  by pat_completeness auto
termination
proof (relation "measure (\<lambda>(S, p, ga, xs, b). unat (ga_nb_left ga))", goal_cases)
  case (2 S p ga xs b ga' xs' xs'')
  then show ?case using gather_pass_nb [of S p xs "start_pass ga" ga'] by (auto simp: start_pass_def)
next
  case (3 S p ga xs b ga' xs' xs'' xs''')
  then show ?case using gather_pass_nb [of S p xs "start_pass ga" ga'] by (auto simp: start_pass_def)
qed simp

declare gather_loop.simps [simp del]

(* src/crates/services/txpool_v2/src/selection_algorithms/ratio_tip_gas.rs:149-262 SelectionAlgorithm::gather_best_txs *)
definition gather_best_txs ::
    "('s, 'i) selection_storage \<Rightarrow> constraints \<Rightarrow> 'i executables \<Rightarrow> 's
      \<Rightarrow> ('i executables \<times> 's \<times> storage_data list \<times> bool) option" where
  "gather_best_txs S c xs s =
     map_option (\<lambda>(ga, xs', add_new). (xs', ga_storage ga, ga_result ga, add_new))
       (gather_loop S (minimal_gas_price c)
          \<lparr>ga_gas_left = c_max_gas c, ga_space_left = ucast (maximum_block_size c),
           ga_nb_left = maximum_txs c, ga_storage = s, ga_result = [], ga_clean_up = [],
           ga_to_remove = [], ga_to_promote = []\<rparr> xs False)"

section \<open>The ordered map\<close>

definition exec_sorted :: "'i executables \<Rightarrow> bool" where
  "exec_sorted xs \<longleftrightarrow> sorted_wrt (\<lambda>a b. fst b < fst a) xs"

lemma exec_sorted_Nil [simp]: "exec_sorted []"
  by (simp add: exec_sorted_def)

lemma exec_sorted_Cons: "exec_sorted (e # xs) \<longleftrightarrow> (\<forall>e'\<in>set xs. fst e' < fst e) \<and> exec_sorted xs"
  by (simp add: exec_sorted_def)

lemma exec_sorted_distinct: "exec_sorted xs \<Longrightarrow> distinct (map fst xs)"
  by (induction xs) (auto simp: exec_sorted_Cons)

lemma exec_insert_keys: "fst ` set (exec_insert k i xs) = insert k (fst ` set xs)"
  by (induction k i xs rule: exec_insert.induct) (simp_all add: insert_commute)

lemma exec_sorted_insert: "exec_sorted xs \<Longrightarrow> exec_sorted (exec_insert k i xs)"
proof (induction k i xs rule: exec_insert.induct)
  case (2 k i k' i' xs)
  have below: "\<forall>e\<in>set xs. fst e < k'" and tail: "exec_sorted xs"
    using "2.prems" by (simp_all add: exec_sorted_Cons)
  consider "k = k'" | "k' < k" | "k < k'" by (rule linorder_cases) auto
  then show ?case
  proof cases
    case 3
    have "fst e < k'" if "e \<in> set (exec_insert k i xs)" for e
    proof -
      have "fst e \<in> insert k (fst ` set xs)"
        using that by (simp flip: exec_insert_keys [of k i xs])
      then show ?thesis using below 3 by auto
    qed
    moreover have "k \<noteq> k'" "\<not> k' < k" using 3 by auto
    ultimately show ?thesis
      using "2.IH" [OF _ _ tail] by (simp add: exec_sorted_Cons)
  next
    case 2
    then have "\<forall>e\<in>set xs. fst e < k" using below by (meson less_trans)
    with 2 below tail show ?thesis by (simp add: exec_sorted_Cons)
  qed (use below tail in \<open>simp add: exec_sorted_Cons\<close>)
qed (simp add: exec_sorted_Cons)

lemma set_exec_insert: "k \<notin> fst ` set xs \<Longrightarrow> set (exec_insert k i xs) = insert (k, i) (set xs)"
  by (induction k i xs rule: exec_insert.induct) (simp_all add: insert_commute)

lemma exec_sorted_removals:
  "exec_sorted xs \<Longrightarrow> exec_sorted (foldl (\<lambda>xs k. exec_remove k xs) xs ks)"
  by (induction ks arbitrary: xs) (auto simp: exec_remove_def exec_sorted_def sorted_wrt_filter)

lemma set_exec_removals:
  "set (foldl (\<lambda>xs k. exec_remove k xs) xs ks) = {e \<in> set xs. fst e \<notin> set ks}"
  by (induction ks arbitrary: xs) (auto simp: exec_remove_def)

lemma selection_key_Some:
  "tx_max_gas (sd_transaction d) \<noteq> 0 \<Longrightarrow>
     \<exists>r. selection_key d = Some (SelectKey r (creation_instant d) (tx_id (sd_transaction d)))"
  by (simp add: selection_key_def Let_def ratio_new_def)

lemma selection_key_id: "selection_key d = Some k \<Longrightarrow> key_tx_id k = tx_id (sd_transaction d)"
  by (auto simp: selection_key_def Let_def)

lemma selection_key_cong:
  "sd_transaction d = sd_transaction d' \<Longrightarrow> creation_instant d = creation_instant d' \<Longrightarrow>
     selection_key d = selection_key d'"
  by (simp add: selection_key_def)

section \<open>What the selection relies on and keeps\<close>

text \<open>The stored transactions have gas, which keeps their ratio defined, and different ids.\<close>

definition stored_ok :: "('i \<rightharpoonup> storage_data) \<Rightarrow> bool" where
  "stored_ok w \<longleftrightarrow> (\<forall>i d. w i = Some d \<longrightarrow> tx_max_gas (sd_transaction d) \<noteq> 0)
     \<and> (\<forall>i j d e. w i = Some d \<longrightarrow> w j = Some e \<longrightarrow>
          tx_id (sd_transaction d) = tx_id (sd_transaction e) \<longrightarrow> i = j)"

lemma stored_ok_restrict: "stored_ok w \<Longrightarrow> stored_ok (w |` A)"
  by (simp add: stored_ok_def restrict_map_def)

lemma stored_okD:
  assumes "stored_ok w" "w i = Some d"
  shows "tx_max_gas (sd_transaction d) \<noteq> 0"
    and "w j = Some e \<Longrightarrow> tx_id (sd_transaction d) = tx_id (sd_transaction e) \<Longrightarrow> i = j"
  using assms unfolding stored_ok_def by blast+

text \<open>The ordered map holds exactly the stored transactions without stored dependencies.\<close>

definition selection_exact :: "('s, 'i) selection_storage \<Rightarrow> 'i executables \<Rightarrow> 's \<Rightarrow> bool" where
  "selection_exact S xs s \<longleftrightarrow> exec_sorted xs
     \<and> (\<forall>k i. (k, i) \<in> set xs \<longleftrightarrow>
          (\<exists>d. ss_get S s i = Some d \<and> \<not> ss_has_dependencies S s i \<and> selection_key d = Some k))"

lemma selection_exactD:
  "selection_exact S xs s \<Longrightarrow> (k, i) \<in> set xs \<Longrightarrow>
     \<exists>d. ss_get S s i = Some d \<and> \<not> ss_has_dependencies S s i \<and> selection_key d = Some k"
  unfolding selection_exact_def by blast

lemma selection_exact_inj:
  assumes "selection_exact S xs s" "stored_ok (ss_get S s)" "(k, i) \<in> set xs" "(k', j) \<in> set xs"
  shows "k = k' \<longleftrightarrow> i = j"
proof
  assume "k = k'"
  then show "i = j"
    using selection_exactD [OF assms(1,3)] selection_exactD [OF assms(1,4)] assms(2) selection_key_id
    unfolding stored_ok_def by metis
next
  assume "i = j"
  then show "k = k'"
    using selection_exactD [OF assms(1,3)] selection_exactD [OF assms(1,4)] by auto
qed

definition dep_edges :: "('s, 'i) selection_storage \<Rightarrow> 's \<Rightarrow> ('i \<times> 'i) set" where
  "dep_edges S s = {(i, j). j \<in> set (ss_dependents S s i)}"

text \<open>Every transaction comes after the transactions it depends on.\<close>

definition in_order :: "('i \<times> 'i) set \<Rightarrow> 'i list \<Rightarrow> bool" where
  "in_order E is \<longleftrightarrow> (\<forall>before i after. is = before @ i # after \<longrightarrow> (\<forall>p. (p, i) \<in> E \<longrightarrow> p \<in> set before))"

lemma in_order_Nil [simp]: "in_order E []"
  by (simp add: in_order_def)

lemma in_order_append:
  assumes "in_order E is" "in_order (restrict_edges E (set is)) js" "set is \<inter> set js = {}"
  shows "in_order E (is @ js)"
  unfolding in_order_def
proof (intro allI impI)
  fix before i after p
  assume eq: "is @ js = before @ i # after" and e: "(p, i) \<in> E"
  have tail: "p \<in> set before" if "before = is @ us" "js = us @ i # after" for us
  proof -
    have "i \<notin> set is" using assms(3) that by auto
    then have "p \<in> set is \<or> p \<in> set us"
      using assms(2) that(2) e unfolding in_order_def restrict_edges_def by blast
    then show ?thesis using that(1) by auto
  qed
  obtain us where "is = before @ us \<and> us @ js = i # after \<or> is @ us = before \<and> js = us @ i # after"
    using eq unfolding append_eq_append_conv2 by blast
  then consider "is = before @ i # tl us" | "before = is" "js = i # after" | "is @ us = before" "js = us @ i # after"
    by (cases us) auto
  then show "p \<in> set before"
  proof cases
    case 1
    then show ?thesis using assms(1) e unfolding in_order_def by blast
  next
    case 2
    then show ?thesis using tail [of "[]"] by simp
  next
    case 3
    then show ?thesis using tail [of us] by simp
  qed
qed

lemma in_order_snoc:
  "in_order E is \<Longrightarrow> i \<notin> set is \<Longrightarrow> (\<And>p. (p, i) \<in> E \<Longrightarrow> p \<in> set is) \<Longrightarrow> in_order E (is @ [i])"
  by (rule in_order_append) (auto simp: in_order_def restrict_edges_def Cons_eq_append_conv)

text \<open>One storage is another one without the listed transactions.\<close>

definition removed_from :: "('s, 'i) selection_storage \<Rightarrow> 's \<Rightarrow> 'i list \<Rightarrow> 's \<Rightarrow> bool" where
  "removed_from S s0 is s \<longleftrightarrow> ss_get S s = ss_get S s0 |` (- set is)
     \<and> dep_edges S s = restrict_edges (dep_edges S s0) (set is)"

lemma restrict_edges_union: "restrict_edges (restrict_edges E A) B = restrict_edges E (A \<union> B)"
  by (auto simp: restrict_edges_def)

lemma removed_from_refl [simp]: "removed_from S s [] s"
  by (simp add: removed_from_def restrict_map_def)

lemma removed_from_trans:
  "removed_from S s0 is s \<Longrightarrow> removed_from S s js s' \<Longrightarrow> removed_from S s0 (is @ js) s'"
  by (simp add: removed_from_def restrict_edges_union Compl_Un Int_commute)

text \<open>What a selection takes from the constraints.\<close>

definition accounts :: "u64 \<Rightarrow> ('s, 'i) gathering \<Rightarrow> storage_data list \<Rightarrow> ('s, 'i) gathering \<Rightarrow> bool" where
  "accounts min_price ga ds ga' \<longleftrightarrow> ga_result ga' = ga_result ga @ ds
     \<and> unat (ga_gas_left ga) = unat (ga_gas_left ga') + (\<Sum>d\<leftarrow>ds. unat (tx_max_gas (sd_transaction d)))
     \<and> unat (ga_space_left ga) = unat (ga_space_left ga') + (\<Sum>d\<leftarrow>ds. unat (metered_bytes_size (sd_transaction d)))
     \<and> unat (ga_nb_left ga) = unat (ga_nb_left ga') + length ds
     \<and> (\<forall>d\<in>set ds. min_price \<le> tx_max_gas_price (sd_transaction d))"

lemma accounts_refl [simp]: "accounts p ga [] ga"
  by (simp add: accounts_def)

lemma accounts_trans: "accounts p ga ds ga' \<Longrightarrow> accounts p ga' es ga'' \<Longrightarrow> accounts p ga (ds @ es) ga''"
  unfolding accounts_def by auto

lemma accounts_start: "accounts p (start_pass ga) ds ga' = accounts p ga ds ga'"
  by (simp add: accounts_def start_pass_def)

text \<open>The transactions that lost their last dependency.\<close>

definition promoted :: "('s, 'i) selection_storage \<Rightarrow> 's \<Rightarrow> 's \<Rightarrow> 'i list \<Rightarrow> bool" where
  "promoted S s0 s js \<longleftrightarrow> distinct js
     \<and> set js = {j. ss_has_dependencies S s0 j \<and> \<not> ss_has_dependencies S s j \<and> ss_get S s j \<noteq> None}"

text \<open>The contract of the storage: a transaction has dependencies when it is a dependent of another one,
  dependents are stored, and removing a transaction without dependencies removes it and its edges.\<close>

locale dependency_storage =
  fixes S :: "('s, 'i) selection_storage" and inv :: "'s \<Rightarrow> bool"
  assumes has_iff: "inv s \<Longrightarrow> ss_has_dependencies S s j \<longleftrightarrow> (\<exists>i. (i, j) \<in> dep_edges S s)"
    and dependents_stored: "inv s \<Longrightarrow> (i, j) \<in> dep_edges S s \<Longrightarrow> ss_get S s i \<noteq> None \<and> ss_get S s j \<noteq> None"
    and distinct_dependents: "inv s \<Longrightarrow> distinct (ss_dependents S s i)"
    and remove_executable: "inv s \<Longrightarrow> ss_get S s i = Some d \<Longrightarrow> \<not> ss_has_dependencies S s i \<Longrightarrow>
          \<exists>s'. ss_remove S s i = (s', Some d) \<and> inv s' \<and> removed_from S s [i] s'"
begin

lemma has_mono:
  assumes "inv s" "inv s'" "removed_from S s is s'" "ss_has_dependencies S s' j"
  shows "ss_has_dependencies S s j"
proof -
  have "dep_edges S s' \<subseteq> dep_edges S s"
    using assms(3) by (auto simp: removed_from_def restrict_edges_def)
  then show ?thesis
    using assms(4) unfolding has_iff [OF assms(1)] has_iff [OF assms(2)] by blast
qed

lemma promoted_step:
  assumes inv: "inv s" "inv s'" and rem: "removed_from S s [i] s'"
    and rem0: "inv s0" "removed_from S s0 is s" and free: "\<not> ss_has_dependencies S s0 i"
    and js: "promoted S s0 s js"
  shows "promoted S s0 s' (js @ filter (\<lambda>j. \<not> ss_has_dependencies S s' j) (ss_dependents S s i))"
proof -
  let ?has = "ss_has_dependencies S" and ?E = "dep_edges S s"
  have E': "dep_edges S s' = restrict_edges ?E {i}" and get': "ss_get S s' = (ss_get S s)(i := None)"
    using rem by (simp_all add: removed_from_def fun_eq_iff restrict_map_def)
  have no_in: "(p, i) \<notin> ?E" for p
  proof -
    have "?E \<subseteq> dep_edges S s0" using rem0(2) by (auto simp: removed_from_def restrict_edges_def)
    then show ?thesis using free unfolding has_iff [OF rem0(1)] by blast
  qed
  have has: "?has s j \<longleftrightarrow> (\<exists>p. (p, j) \<in> ?E)" "?has s' j \<longleftrightarrow> (\<exists>p. (p, j) \<in> ?E \<and> p \<noteq> i)" for j
    unfolding has_iff [OF inv(1)] has_iff [OF inv(2)] E' using no_in by (auto simp: restrict_edges_def)
  have has0: "?has s0 j" if "?has s j" for j
    using has_mono [OF rem0(1) inv(1) rem0(2) that] .
  have set_js: "set js = {j. ?has s0 j \<and> \<not> ?has s j \<and> ss_get S s j \<noteq> None}" and "distinct js"
    using js by (simp_all add: promoted_def)
  have deps: "set (ss_dependents S s i) = {j. (i, j) \<in> ?E}"
    by (simp add: dep_edges_def)
  have stored: "ss_get S s' j \<noteq> None" if "(i, j) \<in> ?E" for j
    using that no_in dependents_stored [OF inv(1) that] by (auto simp: get')
  have "set js \<inter> set (ss_dependents S s i) = {}"
    using has(1) unfolding set_js deps by blast
  moreover have "set js \<union> {j \<in> set (ss_dependents S s i). \<not> ?has s' j} =
      {j. ?has s0 j \<and> \<not> ?has s' j \<and> ss_get S s' j \<noteq> None}" (is "?L = ?R")
  proof
    have "?has s j" if "?has s' j" for j using that has by blast
    moreover have "j \<noteq> i" if "?has s0 j" for j using that free by blast
    ultimately have "j \<in> ?R" if "j \<in> set js" for j
      using that unfolding set_js get' by auto
    moreover have "j \<in> ?R" if "(i, j) \<in> ?E" "\<not> ?has s' j" for j
      using that stored [OF that(1)] has0 [of j] has(1) [of j] by blast
    ultimately show "?L \<subseteq> ?R" unfolding deps by blast
    show "?R \<subseteq> ?L"
    proof
      fix j assume j: "j \<in> ?R"
      then have "ss_get S s j \<noteq> None" by (auto simp: get' split: if_splits)
      then show "j \<in> ?L" using j has [of j] unfolding set_js deps by blast
    qed
  qed
  ultimately show ?thesis
    using \<open>distinct js\<close> distinct_dependents [OF inv(1), of i] unfolding promoted_def by auto
qed

end

definition pass_state ::
    "('s, 'i) selection_storage \<Rightarrow> ('s \<Rightarrow> bool) \<Rightarrow> 's \<Rightarrow> 'i list \<Rightarrow> ('s, 'i) gathering \<Rightarrow> bool" where
  "pass_state S ok s0 is ga \<longleftrightarrow> ok (ga_storage ga) \<and> removed_from S s0 is (ga_storage ga)
     \<and> promoted S s0 (ga_storage ga) (ga_to_promote ga) \<and> ga_to_remove ga = []"

text \<open>A transaction that cannot be selected with what is left of the constraints.\<close>

definition does_not_fit :: "u64 \<Rightarrow> ('s, 'i) gathering \<Rightarrow> storage_data \<Rightarrow> bool" where
  "does_not_fit min_price ga d \<longleftrightarrow> tx_max_gas_price (sd_transaction d) < min_price
     \<or> ga_gas_left ga < tx_max_gas (sd_transaction d)
     \<or> ga_space_left ga < metered_bytes_size (sd_transaction d)"

lemma gather_pass_Cons:
  assumes "ss_get S (ga_storage ga) i = Some d"
  shows "gather_pass S p ((k, i) # xs) ga =
    (if \<not> gather_room ga then Some ga
     else if does_not_fit p ga d then gather_pass S p xs ga
     else Option.bind (select_tx S k i d ga) (gather_pass S p xs))"
  using assms by (auto simp: does_not_fit_def split: option.splits)

context dependency_storage
begin

lemma select_tx_step:
  assumes inv: "inv s0" and st: "pass_state S inv s0 is ga"
    and i: "ss_get S s0 i = Some d" "\<not> ss_has_dependencies S s0 i" "i \<notin> set is"
    and fits: "gather_room ga" "\<not> does_not_fit p ga d"
  shows "\<exists>ga'. select_tx S k i d ga = Some ga' \<and> pass_state S inv s0 (is @ [i]) ga'
    \<and> accounts p ga [d] ga' \<and> ga_clean_up ga' = ga_clean_up ga @ [k]"
proof -
  let ?s = "ga_storage ga"
  have s: "inv ?s" "removed_from S s0 is ?s" "promoted S s0 ?s (ga_to_promote ga)" "ga_to_remove ga = []"
    using st by (simp_all add: pass_state_def)
  have get: "ss_get S ?s i = Some d"
    using s(2) i by (simp add: removed_from_def restrict_map_def)
  have free: "\<not> ss_has_dependencies S ?s i"
    using has_mono [OF inv s(1,2)] i(2) by blast
  obtain s' where s': "ss_remove S ?s i = (s', Some d)" "inv s'" "removed_from S ?s [i] s'"
    using remove_executable [OF s(1) get free] by blast
  have "removed_from S s0 (is @ [i]) s'"
    using removed_from_trans [OF s(2) s'(3)] .
  moreover have "promoted S s0 s'
      (ga_to_promote ga @ filter (\<lambda>j. \<not> ss_has_dependencies S s' j) (ss_dependents S ?s i))"
    by (rule promoted_step [OF s(1) s'(2,3) inv s(2) i(2) s(3)])
  moreover have "0 < unat (ga_nb_left ga)" "unat (tx_max_gas (sd_transaction d)) \<le> unat (ga_gas_left ga)"
      "unat (metered_bytes_size (sd_transaction d)) \<le> unat (ga_space_left ga)"
      "p \<le> tx_max_gas_price (sd_transaction d)"
    using fits by (simp_all add: does_not_fit_def gather_room_def word_less_nat_alt word_le_nat_alt not_less)
  ultimately show ?thesis
    using s' s(4) by (simp add: select_tx_def pass_state_def accounts_def unat_saturating_sub)
qed

lemma gather_pass_spec:
  assumes inv: "inv s0"
  shows "pass_state S inv s0 is ga \<Longrightarrow>
    \<forall>e\<in>set xs. ss_get S s0 (snd e) \<noteq> None \<and> \<not> ss_has_dependencies S s0 (snd e) \<and> snd e \<notin> set is \<Longrightarrow>
    distinct (map snd xs) \<Longrightarrow>
    \<exists>ga' sel. gather_pass S p xs ga = Some ga' \<and> pass_state S inv s0 (is @ map snd sel) ga'
      \<and> set sel \<subseteq> set xs \<and> distinct (map snd sel) \<and> ga_clean_up ga' = ga_clean_up ga @ map fst sel
      \<and> accounts p ga (map (\<lambda>e. the (ss_get S s0 (snd e))) sel) ga'
      \<and> (sel = [] \<longrightarrow> ga' = ga \<and> (gather_room ga \<longrightarrow>
            (\<forall>e\<in>set xs. does_not_fit p ga (the (ss_get S s0 (snd e))))))"
proof (induction xs arbitrary: "is" ga)
  case Nil
  then show ?case by (intro exI [of _ ga] exI [of _ "[]"]) simp
next
  case (Cons e xs)
  obtain k i where e: "e = (k, i)" by (cases e)
  obtain d where i: "ss_get S s0 i = Some d" "\<not> ss_has_dependencies S s0 i" "i \<notin> set is"
    using Cons.prems(2) e by auto
  have get: "ss_get S (ga_storage ga) i = Some d"
    using Cons.prems(1) i by (simp add: pass_state_def removed_from_def restrict_map_def)
  note step = gather_pass_Cons [OF get, of p k xs]
  have tail: "\<forall>e\<in>set xs. ss_get S s0 (snd e) \<noteq> None \<and> \<not> ss_has_dependencies S s0 (snd e) \<and> snd e \<notin> set is"
      and dist: "distinct (map snd xs)"
    using Cons.prems(2,3) by simp_all
  consider "\<not> gather_room ga" | "gather_room ga" "does_not_fit p ga d" | "gather_room ga" "\<not> does_not_fit p ga d"
    by blast
  then show ?case
  proof cases
    case 1
    then show ?thesis
      using Cons.prems(1) step unfolding e by (intro exI [of _ ga] exI [of _ "[]"]) simp
  next
    case 2
    obtain ga' sel where "gather_pass S p xs ga = Some ga'" "pass_state S inv s0 (is @ map snd sel) ga'"
        "set sel \<subseteq> set xs" "distinct (map snd sel)" "ga_clean_up ga' = ga_clean_up ga @ map fst sel"
        "accounts p ga (map (\<lambda>e. the (ss_get S s0 (snd e))) sel) ga'"
        "sel = [] \<longrightarrow> ga' = ga \<and> (gather_room ga \<longrightarrow>
            (\<forall>e\<in>set xs. does_not_fit p ga (the (ss_get S s0 (snd e)))))"
      using Cons.IH [OF Cons.prems(1) tail dist] by blast
    then show ?thesis
      using 2 step i(1) unfolding e by (intro exI [of _ ga'] exI [of _ sel]) auto
  next
    case 3
    obtain ga1 where ga1: "select_tx S k i d ga = Some ga1" "pass_state S inv s0 (is @ [i]) ga1"
        "accounts p ga [d] ga1" "ga_clean_up ga1 = ga_clean_up ga @ [k]"
      using select_tx_step [OF inv Cons.prems(1) i 3] by blast
    have "i \<notin> snd ` set xs" using Cons.prems(3) e by simp
    then have tail': "\<forall>e\<in>set xs. ss_get S s0 (snd e) \<noteq> None \<and> \<not> ss_has_dependencies S s0 (snd e)
        \<and> snd e \<notin> set (is @ [i])"
      using tail by auto
    obtain ga' sel where ga': "gather_pass S p xs ga1 = Some ga'" "pass_state S inv s0 ((is @ [i]) @ map snd sel) ga'"
        "set sel \<subseteq> set xs" "distinct (map snd sel)" "ga_clean_up ga' = ga_clean_up ga1 @ map fst sel"
        "accounts p ga1 (map (\<lambda>e. the (ss_get S s0 (snd e))) sel) ga'"
      using Cons.IH [OF ga1(2) tail' dist] by blast
    have "accounts p ga (map (\<lambda>e. the (ss_get S s0 (snd e))) ((k, i) # sel)) ga'"
      using accounts_trans [OF ga1(3) ga'(6)] i(1) by simp
    moreover have "i \<notin> snd ` set sel" using \<open>i \<notin> snd ` set xs\<close> ga'(3) by blast
    ultimately show ?thesis
      using 3 step ga1(1,4) ga' unfolding e by (intro exI [of _ ga'] exI [of _ "(k, i) # sel"]) auto
  qed
qed

end

text \<open>The map holds the stored transactions of a set of indices.\<close>

definition covers :: "('i \<rightharpoonup> storage_data) \<Rightarrow> 'i set \<Rightarrow> 'i executables \<Rightarrow> bool" where
  "covers w I xs \<longleftrightarrow> exec_sorted xs
     \<and> (\<forall>k i. (k, i) \<in> set xs \<longleftrightarrow> i \<in> I \<and> (\<exists>d. w i = Some d \<and> selection_key d = Some k))"

lemma coversD: "covers w I xs \<Longrightarrow> (k, i) \<in> set xs \<longleftrightarrow> i \<in> I \<and> (\<exists>d. w i = Some d \<and> selection_key d = Some k)"
  by (simp add: covers_def)

lemma selection_exact_covers:
  "selection_exact S xs s \<longleftrightarrow> covers (ss_get S s) {i. \<not> ss_has_dependencies S s i} xs"
  by (auto simp: selection_exact_def covers_def)

lemma covers_cong:
  "covers w I xs \<Longrightarrow> (\<And>i d. w i = Some d \<Longrightarrow> i \<in> I \<longleftrightarrow> i \<in> J) \<Longrightarrow> covers w J xs"
  unfolding covers_def by blast

lemma covers_view:
  assumes "covers w I xs" "tx_view w = tx_view w'"
  shows "covers w' I xs"
proof -
  have "(\<exists>d. w i = Some d \<and> selection_key d = Some k) \<longleftrightarrow> (\<exists>d. w' i = Some d \<and> selection_key d = Some k)" for i k
  proof (cases "w i")
    case None
    then show ?thesis using fun_cong [OF assms(2), of i] by (simp add: tx_view_def)
  next
    case (Some d)
    then obtain d' where d': "w' i = Some d'" "sd_transaction d = sd_transaction d'"
        "creation_instant d = creation_instant d'"
      using fun_cong [OF assms(2), of i] by (cases "w' i") (simp_all add: tx_view_def)
    then show ?thesis using Some selection_key_cong [OF d'(2,3)] by simp
  qed
  then show ?thesis using assms(1) unfolding covers_def by blast
qed

lemma covers_inj:
  assumes "covers w I xs" "stored_ok w" "(k, i) \<in> set xs" "w j = Some d" "selection_key d = Some k"
  shows "i = j"
proof -
  obtain e where e: "w i = Some e" "selection_key e = Some k"
    using coversD [OF assms(1)] assms(3) by blast
  have "tx_id (sd_transaction e) = tx_id (sd_transaction d)"
    using selection_key_id [OF e(2)] selection_key_id [OF assms(5)] by simp
  then show ?thesis using stored_okD(2) [OF assms(2) e(1) assms(4)] by blast
qed

lemma covers_insert:
  assumes "covers w I xs" "stored_ok w" "w j = Some d" "j \<notin> I"
  shows "\<exists>xs'. new_executable_transaction xs j d = Some xs' \<and> covers w (insert j I) xs'"
proof -
  obtain k where k: "selection_key d = Some k"
    using selection_key_Some [OF stored_okD(1) [OF assms(2,3)]] by blast
  have "k \<notin> fst ` set xs"
  proof
    assume "k \<in> fst ` set xs"
    then obtain i where i: "(k, i) \<in> set xs" by auto
    from covers_inj [OF assms(1,2) i assms(3) k] i show False
      using coversD [OF assms(1)] assms(4) by blast
  qed
  then have "set (exec_insert k j xs) = insert (k, j) (set xs)" by (rule set_exec_insert)
  moreover have "exec_sorted (exec_insert k j xs)"
    using assms(1) by (simp add: covers_def exec_sorted_insert)
  ultimately show ?thesis
    using assms k unfolding covers_def new_executable_transaction_def by auto
qed

lemma covers_promote:
  "covers (ss_get S s) I xs \<Longrightarrow> stored_ok (ss_get S s) \<Longrightarrow> set js \<subseteq> dom (ss_get S s) \<Longrightarrow>
   distinct js \<Longrightarrow> set js \<inter> I = {} \<Longrightarrow>
   \<exists>xs'. promote_all S s js xs = Some xs' \<and> covers (ss_get S s) (I \<union> set js) xs'"
proof (induction js arbitrary: xs I)
  case (Cons j js)
  obtain d where d: "ss_get S s j = Some d" using Cons.prems(3) by auto
  obtain xs1 where xs1: "new_executable_transaction xs j d = Some xs1" "covers (ss_get S s) (insert j I) xs1"
    using covers_insert [OF Cons.prems(1,2) d] Cons.prems(5) by auto
  have "\<exists>xs'. promote_all S s js xs1 = Some xs' \<and> covers (ss_get S s) (insert j I \<union> set js) xs'"
    using Cons.IH [OF xs1(2) Cons.prems(2)] Cons.prems(3-5) by simp
  then show ?case using d xs1(1) by simp
qed simp

lemma covers_removals:
  assumes "covers w I xs" "stored_ok w" "set sel \<subseteq> set xs" "w' = w |` (- set (map snd sel))"
  shows "covers w' (I - set (map snd sel)) (foldl (\<lambda>xs k. exec_remove k xs) xs (map fst sel))"
proof -
  have "i \<in> snd ` set sel" if ki: "(k, i) \<in> set xs" "k \<in> fst ` set sel" for k i
  proof -
    obtain j where j: "(k, j) \<in> set sel" using ki(2) by auto
    then obtain d where "w j = Some d" "selection_key d = Some k"
      using coversD [OF assms(1)] assms(3) by blast
    from covers_inj [OF assms(1,2) ki(1) this] j show ?thesis by force
  qed
  moreover have "k \<in> fst ` set sel" if ki: "(k, i) \<in> set xs" "i \<in> snd ` set sel" for k i
  proof -
    obtain l where l: "(l, i) \<in> set sel" using ki(2) by auto
    then have "(l, i) \<in> set xs" using assms(3) by blast
    then have "l = k"
      using coversD [OF assms(1), of l i] coversD [OF assms(1), of k i] ki(1) by auto
    then show ?thesis using l by force
  qed
  ultimately have same: "k \<in> fst ` set sel \<longleftrightarrow> i \<in> snd ` set sel" if "(k, i) \<in> set xs" for k i
    using that by blast
  have "(k, i) \<in> set (foldl (\<lambda>xs k. exec_remove k xs) xs (map fst sel)) \<longleftrightarrow>
      i \<in> I - set (map snd sel) \<and> (\<exists>d. w' i = Some d \<and> selection_key d = Some k)" for k i
    using same [of k i] coversD [OF assms(1), of k i]
    by (auto simp: set_exec_removals assms(4) restrict_map_def)
  then show ?thesis
    using assms(1) unfolding covers_def by (simp add: exec_sorted_removals)
qed

context dependency_storage
begin

lemma covers_after_pass:
  assumes inv: "inv s0" and ok: "stored_ok (ss_get S s0)" and ex: "selection_exact S xs s0"
    and st: "pass_state S inv s0 (map snd sel) ga" and sel: "set sel \<subseteq> set xs"
  defines "xs1 \<equiv> foldl (\<lambda>xs k. exec_remove k xs) xs (map fst sel)"
  shows "\<exists>xs2. promote_all S (ga_storage ga) (ga_to_promote ga) xs1 = Some xs2
    \<and> selection_exact S xs2 (ga_storage ga)"
proof -
  let ?s = "ga_storage ga" and ?I = "{i. \<not> ss_has_dependencies S s0 i} - set (map snd sel)"
  have s: "inv ?s" "removed_from S s0 (map snd sel) ?s"
      "promoted S s0 ?s (ga_to_promote ga)"
    using st by (simp_all add: pass_state_def)
  have get: "ss_get S ?s = ss_get S s0 |` (- set (map snd sel))"
    using s(2) by (simp add: removed_from_def)
  have js: "distinct (ga_to_promote ga)" "set (ga_to_promote ga) =
      {j. ss_has_dependencies S s0 j \<and> \<not> ss_has_dependencies S ?s j \<and> ss_get S ?s j \<noteq> None}"
    using s(3) by (simp_all add: promoted_def)
  have "covers (ss_get S s0) {i. \<not> ss_has_dependencies S s0 i} xs"
    using ex by (simp add: selection_exact_covers)
  then have cov: "covers (ss_get S ?s) ?I xs1"
    unfolding xs1_def using covers_removals [OF _ ok sel get] by simp
  have "set (ga_to_promote ga) \<subseteq> dom (ss_get S ?s)" "set (ga_to_promote ga) \<inter> ?I = {}"
    unfolding js(2) by blast+
  moreover have "stored_ok (ss_get S ?s)" unfolding get by (rule stored_ok_restrict [OF ok])
  ultimately obtain xs2 where xs2: "promote_all S ?s (ga_to_promote ga) xs1 = Some xs2"
      "covers (ss_get S ?s) (?I \<union> set (ga_to_promote ga)) xs2"
    using covers_promote [OF cov] js(1) by blast
  have iff: "i \<in> ?I \<union> set (ga_to_promote ga) \<longleftrightarrow> \<not> ss_has_dependencies S ?s i" if "ss_get S ?s i = Some d" for i d
  proof -
    have "i \<notin> set (map snd sel)" using that unfolding get restrict_map_def by (simp split: if_splits)
    then show ?thesis
      using has_mono [OF inv s(1,2), of i] that unfolding js(2) by blast
  qed
  have "selection_exact S xs2 ?s"
    unfolding selection_exact_covers
    by (rule covers_cong [OF xs2(2)]) (simp only: iff mem_Collect_eq)
  then show ?thesis using xs2(1) by blast
qed

end

text \<open>The outcome of a selection: the transactions \<open>is\<close> were taken, in this order.\<close>

definition gathered ::
    "('s, 'i) selection_storage \<Rightarrow> ('s \<Rightarrow> bool) \<Rightarrow> u64 \<Rightarrow> ('s, 'i) gathering \<Rightarrow> ('s, 'i) gathering
      \<Rightarrow> 'i executables \<Rightarrow> 'i list \<Rightarrow> bool" where
  "gathered S ok p ga ga' xs' is \<longleftrightarrow>
     ok (ga_storage ga') \<and> selection_exact S xs' (ga_storage ga')
     \<and> removed_from S (ga_storage ga) is (ga_storage ga')
     \<and> in_order (dep_edges S (ga_storage ga)) is \<and> distinct is \<and> set is \<subseteq> dom (ss_get S (ga_storage ga))
     \<and> accounts p ga (map (\<lambda>i. the (ss_get S (ga_storage ga) i)) is) ga'
     \<and> (gather_room ga' \<longrightarrow>
          (\<forall>e\<in>set xs'. does_not_fit p ga' (the (ss_get S (ga_storage ga') (snd e)))))"

lemma start_pass_simps [simp]:
  "ga_storage (start_pass ga) = ga_storage ga" "gather_room (start_pass ga) = gather_room ga"
  "does_not_fit p (start_pass ga) = does_not_fit p ga" "ga_nb_left (start_pass ga) = ga_nb_left ga"
  "ga_clean_up (start_pass ga) = []" "ga_to_remove (start_pass ga) = []" "ga_to_promote (start_pass ga) = []"
  by (simp_all add: start_pass_def gather_room_def does_not_fit_def fun_eq_iff)

context dependency_storage
begin

lemma gathered_trans:
  assumes "removed_from S (ga_storage ga) is (ga_storage ga1)" "in_order (dep_edges S (ga_storage ga)) is"
    and "distinct is" "set is \<subseteq> dom (ss_get S (ga_storage ga))"
    and "accounts p ga (map (\<lambda>i. the (ss_get S (ga_storage ga) i)) is) ga1"
    and rest: "gathered S inv p ga1 ga' xs' js"
  shows "gathered S inv p ga ga' xs' (is @ js)"
proof -
  let ?get = "ss_get S (ga_storage ga)"
  have get1: "ss_get S (ga_storage ga1) = ?get |` (- set is)"
      and dep1: "dep_edges S (ga_storage ga1) = restrict_edges (dep_edges S (ga_storage ga)) (set is)"
    using assms(1) by (simp_all add: removed_from_def)
  have js: "set js \<subseteq> dom (ss_get S (ga_storage ga1))" "in_order (dep_edges S (ga_storage ga1)) js" "distinct js"
    using rest by (simp_all add: gathered_def)
  have sub: "j \<notin> set is \<and> j \<in> dom ?get" if "j \<in> set js" for j
    using js(1) that unfolding get1 by auto
  have same: "map (\<lambda>i. the (ss_get S (ga_storage ga1) i)) js = map (\<lambda>i. the (?get i)) js"
    using sub unfolding get1 by simp
  have "accounts p ga1 (map (\<lambda>i. the (?get i)) js) ga'"
    using rest unfolding gathered_def same by blast
  then have "accounts p ga (map (\<lambda>i. the (?get i)) (is @ js)) ga'"
    using accounts_trans [OF assms(5)] by simp
  moreover have "in_order (dep_edges S (ga_storage ga)) (is @ js)"
    using in_order_append [OF assms(2)] js(2) sub unfolding dep1 by blast
  moreover have "removed_from S (ga_storage ga) (is @ js) (ga_storage ga')"
    using removed_from_trans [OF assms(1)] rest by (simp add: gathered_def)
  moreover have "distinct (is @ js)" "set (is @ js) \<subseteq> dom ?get"
    using assms(3,4) js(3) sub by auto
  ultimately show ?thesis
    using rest by (simp add: gathered_def)
qed

lemma gather_loop_spec:
  "inv (ga_storage ga) \<Longrightarrow> stored_ok (ss_get S (ga_storage ga)) \<Longrightarrow> selection_exact S xs (ga_storage ga) \<Longrightarrow>
   \<exists>ga' xs' b' is. gather_loop S p ga xs b = Some (ga', xs', b') \<and> gathered S inv p ga ga' xs' is"
proof (induction "unat (ga_nb_left ga)" arbitrary: ga xs b rule: less_induct)
  case less
  note loop = gather_loop.simps [of S p ga xs b]
  let ?s = "ga_storage ga"
  show ?case
  proof (cases "gather_room ga \<and> xs \<noteq> []")
    case False
    have "gathered S inv p ga ga xs []"
      using False less.prems by (auto simp: gathered_def)
    then show ?thesis using False loop by auto
  next
    case True
    have start: "pass_state S inv ?s [] (start_pass ga)"
      using less.prems by (simp add: pass_state_def promoted_def)
    have ex: "\<exists>d. ss_get S ?s (snd e) = Some d \<and> \<not> ss_has_dependencies S ?s (snd e) \<and> selection_key d = Some (fst e)"
      if "e \<in> set xs" for e
      using selection_exactD [OF less.prems(3), of "fst e" "snd e"] that by simp
    have free: "\<forall>e\<in>set xs. ss_get S ?s (snd e) \<noteq> None \<and> \<not> ss_has_dependencies S ?s (snd e) \<and> snd e \<notin> set []"
      using ex by fastforce
    have "inj_on snd (set xs)"
      using ex by (intro inj_onI) (metis option.inject prod_eqI)
    moreover have "distinct xs"
      using less.prems(3) exec_sorted_distinct [of xs] by (simp add: selection_exact_def distinct_map)
    ultimately have dist: "distinct (map snd xs)" by (simp add: distinct_map)
    obtain ga1 sel where pass: "gather_pass S p xs (start_pass ga) = Some ga1"
        and st: "pass_state S inv ?s (map snd sel) ga1"
        and sel: "set sel \<subseteq> set xs" "distinct (map snd sel)" and cl: "ga_clean_up ga1 = map fst sel"
        and acc: "accounts p ga (map (\<lambda>e. the (ss_get S ?s (snd e))) sel) ga1"
        and none: "sel = [] \<Longrightarrow> ga1 = start_pass ga \<and> (\<forall>e\<in>set xs. does_not_fit p ga (the (ss_get S ?s (snd e))))"
      using gather_pass_spec [OF less.prems(1) start free dist, of p] True by (auto simp: accounts_start)
    have none_missing: "foldl (\<lambda>xs k. exec_remove k xs) xs (ga_to_remove ga1) = xs"
      using st by (simp add: pass_state_def)
    show ?thesis
    proof (cases "sel = []")
      case none_selected: True
      have "accounts p ga [] (start_pass ga)" by (simp add: accounts_def start_pass_def)
      then have "gathered S inv p ga (start_pass ga) xs []"
        using none [OF none_selected] less.prems by (simp add: gathered_def)
      then show ?thesis using True none_selected loop pass none none_missing by auto
    next
      case False
      obtain xs2 where xs2: "promote_all S (ga_storage ga1) (ga_to_promote ga1)
            (foldl (\<lambda>xs k. exec_remove k xs) xs (map fst sel)) = Some xs2"
          "selection_exact S xs2 (ga_storage ga1)"
        using covers_after_pass [OF less.prems st sel(1)] by blast
      obtain b1 where unroll: "gather_loop S p ga xs b = gather_loop S p ga1 xs2 b1"
      proof (cases "ga_to_promote ga1 = []")
        case promote: True
        then have "gather_loop S p ga xs b = gather_loop S p ga1 xs2 b"
          using True pass cl False xs2(1) unfolding loop by (simp add: Let_def) (simp add: none_missing)
        then show thesis by (rule that)
      next
        case promote: False
        then have "gather_loop S p ga xs b = gather_loop S p ga1 xs2 True"
          using True pass cl False xs2(1) unfolding loop by (simp add: Let_def) (simp add: none_missing)
        then show thesis by (rule that)
      qed
      have rem: "removed_from S ?s (map snd sel) (ga_storage ga1)" and inv1: "inv (ga_storage ga1)"
        using st by (simp_all add: pass_state_def)
      then have ok1: "stored_ok (ss_get S (ga_storage ga1))"
        using stored_ok_restrict [OF less.prems(2)] by (simp add: removed_from_def)
      have "unat (ga_nb_left ga1) < unat (ga_nb_left ga)"
        using acc False by (simp add: accounts_def)
      then obtain ga' xs' b' js where rest: "gather_loop S p ga1 xs2 b1 = Some (ga', xs', b')"
          "gathered S inv p ga1 ga' xs' js"
        using less.hyps [OF _ inv1 ok1 xs2(2)] by blast
      have "(q, i) \<notin> dep_edges S ?s" if "i \<in> set (map snd sel)" for q i
        using free sel(1) that has_iff [OF less.prems(1), of i] by auto
      then have "in_order (dep_edges S ?s) (map snd sel)"
        unfolding in_order_def by (metis in_set_conv_decomp)
      moreover have "set (map snd sel) \<subseteq> dom (ss_get S ?s)" using free sel(1) by auto
      ultimately have "gathered S inv p ga ga' xs' (map snd sel @ js)"
        using gathered_trans [OF rem _ sel(2) _ _ rest(2)] acc by (simp add: comp_def)
      then show ?thesis using unroll rest(1) by auto
    qed
  qed
qed

end

text \<open>Whether a block of the selected transactions can take another one.\<close>

definition block_has_room_for :: "constraints \<Rightarrow> storage_data list \<Rightarrow> storage_data \<Rightarrow> bool" where
  "block_has_room_for c ds d \<longleftrightarrow> minimal_gas_price c \<le> tx_max_gas_price (sd_transaction d)
     \<and> length ds < unat (maximum_txs c)
     \<and> (\<Sum>e\<leftarrow>ds @ [d]. unat (tx_max_gas (sd_transaction e))) \<le> unat (c_max_gas c)
     \<and> (\<Sum>e\<leftarrow>ds @ [d]. unat (metered_bytes_size (sd_transaction e))) \<le> unat (maximum_block_size c)
     \<and> (\<Sum>e\<leftarrow>ds. unat (metered_bytes_size (sd_transaction e))) < unat (maximum_block_size c)"

definition within_constraints :: "constraints \<Rightarrow> storage_data list \<Rightarrow> bool" where
  "within_constraints c ds \<longleftrightarrow> length ds \<le> unat (maximum_txs c)
     \<and> (\<Sum>d\<leftarrow>ds. unat (tx_max_gas (sd_transaction d))) \<le> unat (c_max_gas c)
     \<and> (\<Sum>d\<leftarrow>ds. unat (metered_bytes_size (sd_transaction d))) \<le> unat (maximum_block_size c)
     \<and> (\<forall>d\<in>set ds. minimal_gas_price c \<le> tx_max_gas_price (sd_transaction d))"

lemma gathering_limits:
  fixes ga ga' :: "('s, 'i) gathering"
  assumes "accounts (minimal_gas_price c) ga ds ga'" and ga: "ga_gas_left ga = c_max_gas c"
    "ga_space_left ga = ucast (maximum_block_size c)" "ga_nb_left ga = maximum_txs c"
  shows "within_constraints c ds"
    and "tx_max_gas (sd_transaction d) \<noteq> 0 \<Longrightarrow> block_has_room_for c ds d \<Longrightarrow>
      gather_room ga' \<and> \<not> does_not_fit (minimal_gas_price c) ga' d"
proof -
  have space: "unat (ga_space_left ga) = unat (maximum_block_size c)"
    unfolding ga by (simp add: unat_ucast_up)
  show "within_constraints c ds"
    using assms(1) space unfolding accounts_def within_constraints_def ga by simp
  assume d: "tx_max_gas (sd_transaction d) \<noteq> 0" and room: "block_has_room_for c ds d"
  have "0 < unat (tx_max_gas (sd_transaction d))"
    using d by (metis neq0_conv unat_eq_zero)
  then show "gather_room ga' \<and> \<not> does_not_fit (minimal_gas_price c) ga' d"
    using assms(1) space room
    unfolding accounts_def gather_room_def does_not_fit_def block_has_room_for_def ga
    by (simp add: word_less_nat_alt word_le_nat_alt not_less)
qed

context dependency_storage
begin

lemma gather_best_txs_spec:
  assumes "inv s" and ok: "stored_ok (ss_get S s)" and "selection_exact S xs s"
  shows "\<exists>xs' s' ds b is. gather_best_txs S c xs s = Some (xs', s', ds, b)
    \<and> inv s' \<and> selection_exact S xs' s' \<and> removed_from S s is s'
    \<and> in_order (dep_edges S s) is \<and> distinct is \<and> list_all2 (\<lambda>i d. ss_get S s i = Some d) is ds
    \<and> within_constraints c ds
    \<and> (\<forall>i d. ss_get S s' i = Some d \<longrightarrow> \<not> ss_has_dependencies S s' i \<longrightarrow> \<not> block_has_room_for c ds d)"
proof -
  define ga :: "('s, 'i) gathering" where "ga =
     \<lparr>ga_gas_left = c_max_gas c, ga_space_left = ucast (maximum_block_size c), ga_nb_left = maximum_txs c,
      ga_storage = s, ga_result = [], ga_clean_up = [], ga_to_remove = [], ga_to_promote = []\<rparr>"
  have ga: "ga_storage ga = s" "ga_result ga = []" "ga_gas_left ga = c_max_gas c"
      "ga_space_left ga = ucast (maximum_block_size c)" "ga_nb_left ga = maximum_txs c"
    by (simp_all add: ga_def)
  obtain ga' xs' b "is" where loop: "gather_loop S (minimal_gas_price c) ga xs False = Some (ga', xs', b)"
      and g: "gathered S inv (minimal_gas_price c) ga ga' xs' is"
    using gather_loop_spec [of ga xs "minimal_gas_price c" False] assms unfolding ga by blast
  let ?ds = "map (\<lambda>i. the (ss_get S s i)) is"
  have acc: "accounts (minimal_gas_price c) ga ?ds ga'" and is_dom: "set is \<subseteq> dom (ss_get S s)"
      and rem: "removed_from S s is (ga_storage ga')" and ex: "selection_exact S xs' (ga_storage ga')"
    using g unfolding gathered_def ga by blast+
  have fit: "gather_room ga' \<Longrightarrow> e \<in> set xs' \<Longrightarrow>
      does_not_fit (minimal_gas_price c) ga' (the (ss_get S (ga_storage ga') (snd e)))" for e
    using g unfolding gathered_def by blast
  have res: "ga_result ga' = ?ds" using acc ga by (simp add: accounts_def)
  have "\<not> block_has_room_for c ?ds d"
    if d: "ss_get S (ga_storage ga') i = Some d" "\<not> ss_has_dependencies S (ga_storage ga') i" for i d
  proof
    assume room: "block_has_room_for c ?ds d"
    have "stored_ok (ss_get S (ga_storage ga'))"
      using rem stored_ok_restrict [OF ok] by (simp add: removed_from_def)
    then have gas: "tx_max_gas (sd_transaction d) \<noteq> 0" by (rule stored_okD(1)) (rule d(1))
    obtain k where k: "selection_key d = Some k" using selection_key_Some [OF gas] by blast
    have "(k, i) \<in> set xs'"
      using ex d k by (simp add: selection_exact_def)
    with gathering_limits(2) [OF acc ga(3-5) gas room] fit [of "(k, i)"] d(1) show False by simp
  qed
  moreover have "list_all2 (\<lambda>i d. ss_get S s i = Some d) is ?ds"
    using is_dom by (auto simp: list_all2_conv_all_nth dom_def subset_iff)
  moreover have "within_constraints c ?ds"
    by (rule gathering_limits(1) [OF acc ga(3-5)])
  moreover have "gather_best_txs S c xs s = Some (xs', ga_storage ga', ?ds, b)"
    using loop res by (simp add: gather_best_txs_def flip: ga_def)
  ultimately show ?thesis
    using g unfolding gathered_def ga by blast
qed

end

lemma graph_dep_edges: "dep_edges (graph_selection_storage G) s = edges G (gs_graph s)"
  by (auto simp: dep_edges_def graph_selection_storage_def edges_def get_direct_dependents_def)

lemma graph_selection_simps [simp]:
  "ss_get (graph_selection_storage G) = gs_get G"
  "ss_dependents (graph_selection_storage G) = get_direct_dependents G"
  "ss_has_dependencies (graph_selection_storage G) = has_dependencies G"
  "ss_remove (graph_selection_storage G) = remove_transaction G"
  by (simp_all add: graph_selection_storage_def)

context stable_digraph
begin

lemma has_dependencies_iff: "has_dependencies G s j \<longleftrightarrow> (\<exists>q. (q, j) \<in> edges G (gs_graph s))"
  using set_incoming [of "gs_graph s" j] set_empty [of "incoming G (gs_graph s) j"]
  by (simp add: has_dependencies_def get_direct_dependencies_def) blast

end

sublocale stable_digraph \<subseteq> sel: dependency_storage "graph_selection_storage G"
  "\<lambda>s. storage_inv G s \<and> gs_max_txs_chain_count s = m" for m :: usize
proof
  fix s i j d
  assume inv: "storage_inv G s \<and> gs_max_txs_chain_count s = m"
  show "ss_has_dependencies (graph_selection_storage G) s j \<longleftrightarrow>
      (\<exists>i. (i, j) \<in> dep_edges (graph_selection_storage G) s)"
    by (simp add: has_dependencies_iff graph_dep_edges)
  show "ss_get (graph_selection_storage G) s i \<noteq> None \<and> ss_get (graph_selection_storage G) s j \<noteq> None"
    if "(i, j) \<in> dep_edges (graph_selection_storage G) s"
    using that edges_nodes [of "gs_graph s"] by (auto simp: graph_dep_edges gs_get_def)
  show "distinct (ss_dependents (graph_selection_storage G) s i)"
    using inv by (simp add: storage_inv_def graph_shape_def get_direct_dependents_def)
  show "\<exists>s'. ss_remove (graph_selection_storage G) s i = (s', Some d)
      \<and> (storage_inv G s' \<and> gs_max_txs_chain_count s' = m) \<and> removed_from (graph_selection_storage G) s [i] s'"
    if "ss_get (graph_selection_storage G) s i = Some d" "\<not> ss_has_dependencies (graph_selection_storage G) s i"
    using remove_executable_exact [of s i d] inv that
    by (auto simp: removed_from_def graph_dep_edges restrict_map_def fun_eq_iff)
qed

context stable_digraph
begin

lemma graph_selection:
  assumes "storage_inv G s" "stored_ok (gs_get G s)" "selection_exact (graph_selection_storage G) xs s"
  shows "\<exists>xs' s' ds b is. gather_best_txs (graph_selection_storage G) c xs s = Some (xs', s', ds, b)
    \<and> storage_inv G s' \<and> gs_max_txs_chain_count s' = gs_max_txs_chain_count s
    \<and> selection_exact (graph_selection_storage G) xs' s'
    \<and> gs_get G s' = gs_get G s |` (- set is)
    \<and> edges G (gs_graph s') = restrict_edges (edges G (gs_graph s)) (set is)
    \<and> in_order (edges G (gs_graph s)) is \<and> distinct is \<and> list_all2 (\<lambda>i d. gs_get G s i = Some d) is ds
    \<and> within_constraints c ds
    \<and> (\<forall>i d. gs_get G s' i = Some d \<longrightarrow> \<not> has_dependencies G s' i \<longrightarrow> \<not> block_has_room_for c ds d)"
proof -
  have "storage_inv G s \<and> gs_max_txs_chain_count s = gs_max_txs_chain_count s" using assms(1) by simp
  from sel.gather_best_txs_spec [OF this, of xs c] assms(2,3) show ?thesis
    unfolding removed_from_def graph_dep_edges graph_selection_simps by blast
qed

end

text \<open>C35: Selecting transactions for a block always returns, without a panic, from every reachable storage
  whose executable transactions are indexed exactly. The selected transactions are taken out of the
  storage, each once and after every stored transaction it depends on; together they respect the limits
  on number, gas and size, and each of them pays at least the minimal gas price; afterwards the index
  again lists exactly the executable transactions.\<close>

theorem gather_best_txs_sound:
  assumes "stable_digraph G" "storage_reachable G m s" "stored_ok (gs_get G s)"
    and "selection_exact (graph_selection_storage G) xs s"
  shows "\<exists>xs' s' ds b is. gather_best_txs (graph_selection_storage G) c xs s = Some (xs', s', ds, b)
    \<and> distinct is \<and> list_all2 (\<lambda>i d. gs_get G s i = Some d) is ds
    \<and> gs_get G s' = gs_get G s |` (- set is)
    \<and> in_order (edges G (gs_graph s)) is
    \<and> within_constraints c ds
    \<and> selection_exact (graph_selection_storage G) xs' s'"
proof -
  have "storage_inv G s"
    using stable_digraph.storage_reachable_inv [OF assms(1,2)] by blast
  from stable_digraph.graph_selection [OF assms(1) this assms(3,4), of c] show ?thesis by blast
qed

text \<open>C36: The selection leaves no opportunity behind: after it, no executable transaction that pays the
  minimal gas price would still fit into the block.\<close>

theorem gather_best_txs_maximal:
  assumes "stable_digraph G" "storage_reachable G m s" "stored_ok (gs_get G s)"
    and "selection_exact (graph_selection_storage G) xs s"
    and "gather_best_txs (graph_selection_storage G) c xs s = Some (xs', s', ds, b)"
    and "gs_get G s' i = Some d" "\<not> has_dependencies G s' i"
  shows "\<not> block_has_room_for c ds d"
proof -
  have "storage_inv G s"
    using stable_digraph.storage_reachable_inv [OF assms(1,2)] by blast
  from stable_digraph.graph_selection [OF assms(1) this assms(3,4), of c] assms(5-7) show ?thesis by auto
qed

definition sample_constraints :: constraints where
  "sample_constraints = \<lparr>minimal_gas_price = 7, c_max_gas = 15, maximum_txs = 3, maximum_block_size = 100\<rparr>"

definition sample_executables :: "nat executables" where
  "sample_executables = [(SelectKey (6 / 10) 0 1, 1)]"

lemma sample_storage2_ok: "stored_ok (gs_get adjacency_graph sample_storage2)"
  by (auto simp: stored_ok_def sample_get2 new_storage_data_def add_dependent_data_def sample_parent_def
      sample_child_def split: if_splits)

lemma sample_has_dependencies: "has_dependencies adjacency_graph sample_storage2 i \<longleftrightarrow> i = 2"
  by (simp add: has_dependencies_def get_direct_dependencies_def sample_eval)

lemma sample_parent_key:
  "selection_key (add_dependent_data sample_child (new_storage_data sample_parent 0)) = Some (SelectKey (6 / 10) 0 1)"
  by (simp add: selection_key_def ratio_new_def new_storage_data_def add_dependent_data_def sample_parent_def
      rust_eval)

lemma sample_selection_exact:
  "selection_exact (graph_selection_storage adjacency_graph) sample_executables sample_storage2"
proof -
  have "(k, i) \<in> set sample_executables \<longleftrightarrow> (\<exists>d. gs_get adjacency_graph sample_storage2 i = Some d
      \<and> \<not> has_dependencies adjacency_graph sample_storage2 i \<and> selection_key d = Some k)" for k i
    unfolding sample_has_dependencies sample_get2 sample_executables_def
    using sample_parent_key by (cases "i = 1") (auto split: if_splits)
  then show ?thesis
    by (simp add: selection_exact_def) (simp add: sample_executables_def exec_sorted_Cons)
qed

lemmas sample_selection = adj.stable_digraph_axioms sample_reachable2 sample_storage2_ok sample_selection_exact

theorem gather_best_txs_sound_witness:
  "\<exists>xs' s' ds b is. gather_best_txs (graph_selection_storage adjacency_graph) sample_constraints sample_executables
      sample_storage2 = Some (xs', s', ds, b) \<and> in_order {(1 :: nat, 2)} is
    \<and> within_constraints sample_constraints ds"
  using gather_best_txs_sound [OF sample_selection, of sample_constraints] unfolding sample_edges2 by blast

lemma sample_gather:
  "\<exists>xs s. gather_best_txs (graph_selection_storage adjacency_graph) sample_constraints sample_executables
      sample_storage2 =
    Some (xs, s, [add_dependent_data sample_child (new_storage_data sample_parent 0)], True)
    \<and> gs_get adjacency_graph s 2 = Some (new_storage_data sample_child 0)
    \<and> \<not> has_dependencies adjacency_graph s 2"
  by (simp add: gather_best_txs_def gather_loop.simps start_pass_def gather_room_def select_tx_def
      remove_transaction_def clear_cache_def sample_eval sample_executables_def sample_constraints_def
      new_executable_transaction_def selection_key_def ratio_new_def exec_remove_def
      has_dependencies_def get_direct_dependents_def get_direct_dependencies_def
      new_storage_data_def add_dependent_data_def sample_parent_def sample_child_def rust_eval
      word_less_nat_alt)

theorem gather_best_txs_maximal_witness:
  "\<not> block_has_room_for sample_constraints
     [add_dependent_data sample_child (new_storage_data sample_parent 0)] (new_storage_data sample_child 0)"
  using sample_gather gather_best_txs_maximal [OF sample_selection] by blast

end
