(* ===== verification/Tx_Pool.thy ===== *)
theory Tx_Pool
  imports Tx_Pool_Selection
begin

text \<open>
  The transaction pool (\<open>pool.rs\<close>) over the graph storage, the collision manager and the selection by
  tip per gas, as \<open>service.rs\<close> instantiates it.

  The hash map from transaction ids to storage indices is an association list. The channels to the
  observers of the pool are the last statistics that were published and the number of notifications
  about executable transactions. Metrics are left out. A panic is the result \<open>None\<close>.
\<close>

section \<open>State\<close>

(* src/crates/services/txpool_v2/src/pool.rs:54-59 TxPoolStats *)
record tx_pool_stats =
  stat_tx_count :: u64
  stat_total_size :: u64
  stat_total_gas :: u64

(* src/crates/services/txpool_v2/src/pool.rs:63-84 Pool *)
record ('g, 'n) pool =
  p_config :: pool_config
  p_storage :: "('g, 'n) graph_storage"
  p_collisions :: "'n collision_manager"
  p_selection :: "'n executables"
  tx_id_to_storage_id :: "(tx_id \<times> 'n) list"
  p_extracted :: extracted_outputs
  current_gas :: u64
  current_bytes_size :: usize
  pool_stats :: tx_pool_stats
  executable_notifications :: nat

(* src/crates/services/txpool_v2/src/pool.rs:88-108 Pool::new *)
definition pool_new :: "('g, 'n) digraph \<Rightarrow> pool_config \<Rightarrow> ('g, 'n) pool" where
  "pool_new G config =
     \<lparr>p_config = config, p_storage = graph_storage_new G (max_txs_chain_count config),
      p_collisions = collision_manager_new, p_selection = [], tx_id_to_storage_id = [],
      p_extracted = extracted_outputs_new, current_gas = 0, current_bytes_size = 0,
      pool_stats = \<lparr>stat_tx_count = 0, stat_total_size = 0, stat_total_gas = 0\<rparr>,
      executable_notifications = 0\<rparr>"

(* src/crates/services/txpool_v2/src/pool.rs:111-113 Pool::tx_count *)
definition tx_count :: "('g, 'n) pool \<Rightarrow> usize" where
  "tx_count p = of_nat (length (tx_id_to_storage_id p))"

(* src/crates/services/txpool_v2/src/pool.rs:204-210 Pool::update_stats *)
definition update_stats :: "('g, 'n) pool \<Rightarrow> ('g, 'n) pool" where
  "update_stats p =
     p\<lparr>pool_stats := \<lparr>stat_tx_count = tx_count p, stat_total_size = current_bytes_size p,
                     stat_total_gas = current_gas p\<rparr>\<rparr>"

definition notify_executable :: "('g, 'n) pool \<Rightarrow> ('g, 'n) pool" where
  "notify_executable p = p\<lparr>executable_notifications := Suc (executable_notifications p)\<rparr>"

definition remove_id :: "tx_id \<Rightarrow> (tx_id \<times> 'n) list \<Rightarrow> (tx_id \<times> 'n) list" where
  "remove_id t ids = filter (\<lambda>e. fst e \<noteq> t) ids"

(* src/crates/services/txpool_v2/src/pool.rs:351-353 Pool::get *)
definition pool_get :: "('g, 'n) digraph \<Rightarrow> ('g, 'n) pool \<Rightarrow> tx_id \<Rightarrow> storage_data option" where
  "pool_get G p t = Option.bind (map_of (tx_id_to_storage_id p) t) (gs_get G (p_storage p))"

(* src/crates/services/txpool_v2/src/pool.rs:355-357 Pool::contains *)
definition pool_contains :: "('g, 'n) pool \<Rightarrow> tx_id \<Rightarrow> bool" where
  "pool_contains p t \<longleftrightarrow> map_of (tx_id_to_storage_id p) t \<noteq> None"

(* src/crates/services/txpool_v2/src/pool.rs:359-361 Pool::iter_tx_ids *)
definition iter_tx_ids :: "('g, 'n) pool \<Rightarrow> tx_id list" where
  "iter_tx_ids p = map fst (tx_id_to_storage_id p)"

section \<open>Removal\<close>

(* src/crates/services/txpool_v2/src/pool.rs:611-621 loop body of update_components_and_caches_on_removal *)
fun on_removal :: "('g, 'n) pool \<Rightarrow> storage_data \<Rightarrow> ('g, 'n) pool option" where
  "on_removal p d =
     (let tx = sd_transaction d
      in map_option
           (\<lambda>sel. p\<lparr>current_gas := saturating_sub (current_gas p) (tx_max_gas tx),
                   current_bytes_size := saturating_sub (current_bytes_size p) (metered_bytes_size tx),
                   tx_id_to_storage_id := remove_id (tx_id tx) (tx_id_to_storage_id p),
                   p_collisions := on_removed_transaction (p_collisions p) tx,
                   p_selection := sel\<rparr>)
           (selection_on_removed (p_selection p) d))"

(* src/crates/services/txpool_v2/src/pool.rs:607-623 Pool::update_components_and_caches_on_removal *)
fun update_components_and_caches_on_removal ::
    "('g, 'n) pool \<Rightarrow> storage_data list \<Rightarrow> ('g, 'n) pool option" where
  "update_components_and_caches_on_removal p [] = Some p"
| "update_components_and_caches_on_removal p (d # ds) =
     Option.bind (on_removal p d) (\<lambda>p. update_components_and_caches_on_removal p ds)"

text \<open>Removal of subtrees from the storage, each followed by the update of the other components.\<close>

(* src/crates/services/txpool_v2/src/pool.rs:152-154 removal of one subtree in insert_inner *)
definition remove_subtree ::
    "('g, 'n) digraph \<Rightarrow> ('g, 'n) pool \<Rightarrow> 'n \<Rightarrow> (('g, 'n) pool \<times> storage_data list) option" where
  "remove_subtree G p i =
     Option.bind (remove_transaction_and_dependents_subtree G (p_storage p) i)
       (\<lambda>(s, removed). map_option (\<lambda>p. (p, removed))
          (update_components_and_caches_on_removal (p\<lparr>p_storage := s\<rparr>) removed))"

(* src/crates/services/txpool_v2/src/pool.rs:151-164 removal of subtrees in insert_inner *)
fun remove_subtrees ::
    "('g, 'n) digraph \<Rightarrow> ('g, 'n) pool \<Rightarrow> 'n list \<Rightarrow> (('g, 'n) pool \<times> storage_data list) option" where
  "remove_subtrees G p [] = Some (p, [])"
| "remove_subtrees G p (i # is) =
     Option.bind (remove_subtree G p i)
       (\<lambda>(p, removed). map_option (\<lambda>(p, more). (p, removed @ more)) (remove_subtrees G p is))"

(* src/crates/services/txpool_v2/src/pool.rs:555-565 loop of remove_transaction_and_dependents *)
fun remove_ids_and_dependents ::
    "('g, 'n) digraph \<Rightarrow> ('g, 'n) pool \<Rightarrow> tx_id list \<Rightarrow> (('g, 'n) pool \<times> storage_data list) option" where
  "remove_ids_and_dependents G p [] = Some (p, [])"
| "remove_ids_and_dependents G p (t # ts) =
     (case map_of (tx_id_to_storage_id p) t of
        None \<Rightarrow> remove_ids_and_dependents G p ts
      | Some i \<Rightarrow>
          Option.bind (remove_subtree G (p\<lparr>tx_id_to_storage_id := remove_id t (tx_id_to_storage_id p)\<rparr>) i)
            (\<lambda>(p, removed). map_option (\<lambda>(p, more). (p, removed @ more)) (remove_ids_and_dependents G p ts)))"

(* src/crates/services/txpool_v2/src/pool.rs:551-570 Pool::remove_transaction_and_dependents *)
definition remove_transaction_and_dependents ::
    "('g, 'n) digraph \<Rightarrow> ('g, 'n) pool \<Rightarrow> tx_id list \<Rightarrow> (('g, 'n) pool \<times> pool_tx list) option" where
  "remove_transaction_and_dependents G p tx_ids =
     map_option (\<lambda>(p, removed). (update_stats p, map sd_transaction removed)) (remove_ids_and_dependents G p tx_ids)"

(* src/crates/services/txpool_v2/src/pool.rs:572-587 Pool::remove_skipped_transaction *)
definition remove_skipped_transaction ::
    "('g, 'n) digraph \<Rightarrow> ('g, 'n) pool \<Rightarrow> tx_id \<Rightarrow> (('g, 'n) pool \<times> pool_tx list) option" where
  "remove_skipped_transaction G p t =
     (let p = p\<lparr>p_extracted := new_skipped_transaction (p_extracted p) t\<rparr>;
          coin_dependents = get_coins_spenders (p_collisions p) t
      in map_option (\<lambda>(p, removed). (update_stats p, map sd_transaction removed))
           (remove_subtrees G p coin_dependents))"

section \<open>Insertion\<close>

text \<open>Computations that can panic or fail; the question mark of the source.\<close>

definition and_then ::
    "('e, 'a) result option \<Rightarrow> ('a \<Rightarrow> ('e, 'b) result option) \<Rightarrow> ('e, 'b) result option" where
  "and_then m f = (case m of None \<Rightarrow> None | Some (Inl e) \<Rightarrow> Some (Inl e) | Some (Inr x) \<Rightarrow> f x)"

definition map_err :: "('e \<Rightarrow> 'f) \<Rightarrow> ('e, 'a) result \<Rightarrow> ('f, 'a) result" where
  "map_err f r = (case r of Inl e \<Rightarrow> Inl (f e) | Inr x \<Rightarrow> Inr x)"

(* src/crates/services/txpool_v2/src/pool.rs:589-605 Pool::check_blob_does_not_exist *)
definition check_blob_does_not_exist :: "pool_tx \<Rightarrow> persistent_storage \<Rightarrow> (pool_error, unit) result" where
  "check_blob_does_not_exist tx ps =
     (case blob_of tx of
        None \<Rightarrow> Inr ()
      | Some blob \<Rightarrow>
          (case ps_blob_exist ps blob of
             Inl e \<Rightarrow> Inl (DatabaseError e)
           | Inr True \<Rightarrow> Inl (InputValidation (NotInsertedBlobIdAlreadyTaken blob))
           | Inr False \<Rightarrow> Inr ()))"

(* src/crates/services/txpool_v2/src/pool.rs:642-646 NotEnoughSpace *)
record not_enough_space =
  gas_left :: u64
  bytes_left :: usize
  txs_left :: usize

(* src/crates/services/txpool_v2/src/pool.rs:648-652 SpaceCheckResult *)
datatype space_check_result = EnoughSpace | NotEnoughSpace not_enough_space

(* src/crates/services/txpool_v2/src/pool.rs:654-666 CanStoreTransaction *)
record 'n can_store =
  cs_checked_transaction :: "'n checked_transaction"
  cs_transactions_to_remove :: "'n list"
  cs_collisions :: "'n collisions"

(* src/crates/services/txpool_v2/src/pool.rs:436-439 limits check of can_fit_into_pool *)
definition within_limits :: "pool_limits \<Rightarrow> not_enough_space \<Rightarrow> bool" where
  "within_limits lims left \<longleftrightarrow>
     gas_left left \<le> pl_max_gas lims \<and> bytes_left left \<le> max_bytes_size lims \<and> txs_left left \<le> max_txs lims"

(* src/crates/services/txpool_v2/src/pool.rs:426-457 Pool::can_fit_into_pool *)
definition can_fit_into_pool ::
    "('g, 'n) pool \<Rightarrow> 'n checked_transaction \<Rightarrow> (pool_error, space_check_result) result" where
  "can_fit_into_pool p ct =
     (let left = \<lparr>gas_left = saturating_add (current_gas p) (tx_max_gas (ct_tx ct)),
                  bytes_left = saturating_add (current_bytes_size p) (metered_bytes_size (ct_tx ct)),
                  txs_left = saturating_add (tx_count p) 1\<rparr>
      in if within_limits (limits (p_config p)) left then Inr EnoughSpace
         else if all_dependencies ct \<noteq> [] then Inl NotInsertedLimitHit
         else Inr (NotEnoughSpace left))"

(* src/crates/services/txpool_v2/src/pool.rs:488-545 loop of find_free_space *)
fun free_space_loop ::
    "pool_limits \<Rightarrow> ('n \<Rightarrow> storage_data option) \<Rightarrow> 'n list \<Rightarrow> rat \<Rightarrow> not_enough_space \<Rightarrow> 'n list
      \<Rightarrow> 'n list \<Rightarrow> (pool_error, 'n list) result option" where
  "free_space_loop lims get deps new_tx_ratio left to_remove [] =
     Some (if within_limits lims left then Inr to_remove else Inl NotInsertedLimitHit)"
| "free_space_loop lims get deps new_tx_ratio left to_remove (i # sorted_txs) =
     (if within_limits lims left then Some (Inr to_remove)
      else if i \<in> set deps then free_space_loop lims get deps new_tx_ratio left to_remove sorted_txs
      else
        (case get i of
           None \<Rightarrow> free_space_loop lims get deps new_tx_ratio left to_remove sorted_txs
         | Some d \<Rightarrow>
             (case ratio_new (dependents_cumulative_tip d) (dependents_cumulative_gas d) of
                None \<Rightarrow> None
              | Some ratio \<Rightarrow>
                  (if new_tx_ratio < ratio then Some (Inl NotInsertedLimitHit)
                   else free_space_loop lims get deps new_tx_ratio
                          \<lparr>gas_left = saturating_sub (gas_left left) (dependents_cumulative_gas d),
                           bytes_left = saturating_sub (bytes_left left) (dependents_cumulative_bytes_size d),
                           txs_left = saturating_sub (txs_left left) (number_dependents_in_chain d)\<rparr>
                          (to_remove @ [i]) sorted_txs))))"

(* src/crates/services/txpool_v2/src/pool.rs:465-548 Pool::find_free_space *)
definition find_free_space ::
    "('g, 'n) digraph \<Rightarrow> ('g, 'n) pool \<Rightarrow> not_enough_space \<Rightarrow> 'n checked_transaction
      \<Rightarrow> (pool_error, 'n list) result option" where
  "find_free_space G p left ct =
     Option.bind (ratio_new (tx_tip (ct_tx ct)) (tx_max_gas (ct_tx ct)))
       (\<lambda>new_tx_ratio. free_space_loop (limits (p_config p)) (gs_get G (p_storage p)) (all_dependencies ct)
          new_tx_ratio left [] (get_less_worth_txs (p_selection p)))"

(* src/crates/services/txpool_v2/src/pool.rs:213-280 Pool::can_insert_transaction *)
definition can_insert_transaction ::
    "('g, 'n) digraph \<Rightarrow> ('g, 'n) pool \<Rightarrow> pool_tx \<Rightarrow> persistent_storage
      \<Rightarrow> (insertion_error, 'n can_store) result option" where
  "can_insert_transaction G p tx ps =
     (if tx_max_gas tx = 0 then Some (Inl (InsertionError (InputValidation MaxGasZero)))
      else if pool_contains p (tx_id tx)
        then Some (Inl (InsertionError (InputValidation (DuplicateTxId (tx_id tx)))))
      else
        and_then (Some (map_err (InsertionError \<circ> Blacklisted)
                          (check_blacklisting (pool_config.black_list (p_config p)) tx))) (\<lambda>_.
        and_then (Some (map_err InsertionError (check_blob_does_not_exist tx ps))) (\<lambda>_.
        and_then (map_option (map_err insertion_error_of)
                    (validate_inputs G (p_storage p) tx ps (p_extracted p) (utxo_validation (p_config p)))) (\<lambda>_.
        and_then (Some (map_err InsertionError (find_collisions (p_collisions p) tx))) (\<lambda>cs.
        and_then (Some (map_err InsertionError (can_store_transaction G (p_storage p) tx))) (\<lambda>ct.
        if set (map fst cs) \<inter> set (all_dependencies ct) \<noteq> {}
          then Some (Inl (InsertionError (Dependency NotInsertedCollisionIsDependency)))
        else
          and_then (map_option (map_err (InsertionError \<circ> Collided))
                      (check_collision_requirements (gs_get G (p_storage p)) cs tx (all_dependencies ct \<noteq> []))) (\<lambda>_.
          and_then (Some (map_err InsertionError (can_fit_into_pool p ct))) (\<lambda>space.
          and_then (case space of
                      EnoughSpace \<Rightarrow> Some (Inr [])
                    | NotEnoughSpace left \<Rightarrow> map_option (map_err InsertionError) (find_free_space G p left ct))
            (\<lambda>to_remove.
               Some (Inr \<lparr>cs_checked_transaction = ct, cs_transactions_to_remove = to_remove,
                          cs_collisions = cs\<rparr>))))))))))"

(* src/crates/services/txpool_v2/src/pool.rs:166-194 storing of the checked transaction in insert_inner *)
definition store_checked ::
    "('g, 'n) digraph \<Rightarrow> ('g, 'n) pool \<Rightarrow> 'n checked_transaction \<Rightarrow> instant \<Rightarrow> ('g, 'n) pool option" where
  "store_checked G p ct now =
     (case store_transaction G (p_storage p) ct now of
        None \<Rightarrow> None
      | Some (s, i) \<Rightarrow>
          (let tx = ct_tx ct;
               p = p\<lparr>p_storage := s,
                     current_gas := saturating_add (current_gas p) (tx_max_gas tx),
                     current_bytes_size := saturating_add (current_bytes_size p) (metered_bytes_size tx),
                     tx_id_to_storage_id := (tx_id tx, i) # remove_id (tx_id tx) (tx_id_to_storage_id p)\<rparr>
           in case gs_get G s i of
                None \<Rightarrow> None
              | Some d \<Rightarrow>
                  (let p = p\<lparr>p_collisions := on_stored_transaction (p_collisions p) i (sd_transaction d)\<rparr>
                   in if all_dependencies ct \<noteq> [] then Some p
                      else map_option (\<lambda>sel. notify_executable (p\<lparr>p_selection := sel\<rparr>))
                             (new_executable_transaction (p_selection p) i d))))"

(* src/crates/services/txpool_v2/src/pool.rs:136-202 Pool::insert_inner *)
definition insert_inner ::
    "('g, 'n) digraph \<Rightarrow> ('g, 'n) pool \<Rightarrow> pool_tx \<Rightarrow> persistent_storage \<Rightarrow> instant
      \<Rightarrow> (('g, 'n) pool \<times> (insertion_error, pool_tx list) result) option" where
  "insert_inner G p tx ps now =
     (case can_insert_transaction G p tx ps of
        None \<Rightarrow> None
      | Some (Inl e) \<Rightarrow> Some (p, Inl e)
      | Some (Inr cs) \<Rightarrow>
          Option.bind (remove_subtrees G p (cs_transactions_to_remove cs)) (\<lambda>(p, removed1).
          Option.bind (remove_subtrees G p (map fst (cs_collisions cs))) (\<lambda>(p, removed2).
          map_option (\<lambda>p. (update_stats p, Inr (map sd_transaction (removed1 @ removed2))))
            (store_checked G p (cs_checked_transaction cs) now))))"

(* src/crates/services/txpool_v2/src/pool.rs:126-134 Pool::insert *)
definition pool_insert ::
    "('g, 'n) digraph \<Rightarrow> ('g, 'n) pool \<Rightarrow> pool_tx \<Rightarrow> persistent_storage \<Rightarrow> instant
      \<Rightarrow> (('g, 'n) pool \<times> (insertion_error, pool_tx list) result) option" where
  "pool_insert G p tx ps now = insert_inner G p tx ps now"

section \<open>Extraction and block processing\<close>

(* src/crates/services/txpool_v2/src/pool.rs:336-344 loop of extract_transactions_for_block *)
fun extract_all :: "('g, 'n) pool \<Rightarrow> storage_data list \<Rightarrow> ('g, 'n) pool option" where
  "extract_all p [] = Some p"
| "extract_all p (d # ds) =
     Option.bind
       (update_components_and_caches_on_removal
          (p\<lparr>p_extracted := new_extracted_transaction (p_extracted p) (sd_transaction d)\<rparr>) [d])
       (\<lambda>p. extract_all p ds)"

(* src/crates/services/txpool_v2/src/pool.rs:316-349 Pool::extract_transactions_for_block *)
definition extract_transactions_for_block ::
    "('g, 'n) digraph \<Rightarrow> ('g, 'n) pool \<Rightarrow> constraints \<Rightarrow> (('g, 'n) pool \<times> pool_tx list) option" where
  "extract_transactions_for_block G p c =
     Option.bind (gather_best_txs (graph_selection_storage G) c (p_selection p) (p_storage p))
       (\<lambda>(sel, s, best_txs, add_new).
          let p = p\<lparr>p_selection := sel, p_storage := s\<rparr>;
              p = (if add_new then notify_executable p else p)
          in map_option (\<lambda>p. (update_stats p, map sd_transaction best_txs)) (extract_all p best_txs))"

(* src/crates/services/txpool_v2/src/pool.rs:367-389 first loop of process_block *)
fun process_executed ::
    "('g, 'n) digraph \<Rightarrow> ('g, 'n) pool \<Rightarrow> 'n list \<Rightarrow> tx_id list \<Rightarrow> (('g, 'n) pool \<times> 'n list) option" where
  "process_executed G p to_promote [] = Some (p, to_promote)"
| "process_executed G p to_promote (t # ts) =
     (let p = p\<lparr>p_extracted := new_executed_transaction (p_extracted p) t\<rparr>
      in case map_of (tx_id_to_storage_id p) t of
           None \<Rightarrow> process_executed G p to_promote ts
         | Some i \<Rightarrow>
             (let p = p\<lparr>tx_id_to_storage_id := remove_id t (tx_id_to_storage_id p)\<rparr>;
                  dependents = get_direct_dependents G (p_storage p) i
              in case remove_transaction G (p_storage p) i of
                   (s, None) \<Rightarrow> process_executed G (p\<lparr>p_storage := s\<rparr>) to_promote ts
                 | (s, Some d) \<Rightarrow>
                     (case update_components_and_caches_on_removal (p\<lparr>p_storage := s\<rparr>) [d] of
                        None \<Rightarrow> None
                      | Some p \<Rightarrow>
                          process_executed G p
                            (to_promote @ filter (\<lambda>j. \<not> has_dependencies G s j) dependents) ts)))"

(* src/crates/services/txpool_v2/src/pool.rs:391-408 second loop of process_block *)
fun promote_found ::
    "('g, 'n) digraph \<Rightarrow> ('g, 'n) pool \<Rightarrow> bool \<Rightarrow> 'n list \<Rightarrow> (('g, 'n) pool \<times> bool) option" where
  "promote_found G p new_executable [] = Some (p, new_executable)"
| "promote_found G p new_executable (i # is) =
     (case gs_get G (p_storage p) i of
        None \<Rightarrow> promote_found G p new_executable is
      | Some d \<Rightarrow>
          (case new_executable_transaction (p_selection p) i d of
             None \<Rightarrow> None
           | Some sel \<Rightarrow> promote_found G (p\<lparr>p_selection := sel\<rparr>) True is))"

(* src/crates/services/txpool_v2/src/pool.rs:366-415 Pool::process_block *)
definition process_block :: "('g, 'n) digraph \<Rightarrow> ('g, 'n) pool \<Rightarrow> tx_id list \<Rightarrow> ('g, 'n) pool option" where
  "process_block G p tx_ids =
     Option.bind (process_executed G p [] tx_ids) (\<lambda>(p, to_promote).
       map_option (\<lambda>(p, new_executable). update_stats (if new_executable then notify_executable p else p))
         (promote_found G p False to_promote))"

section \<open>Agreement of the components\<close>

definition stored_sum :: "('n \<rightharpoonup> storage_data) \<Rightarrow> (storage_data \<Rightarrow> u64) \<Rightarrow> nat" where
  "stored_sum w own = (\<Sum>m\<in>dom w. unat (own (the (w m))))"

definition index_exact :: "('n \<rightharpoonup> storage_data) \<Rightarrow> (tx_id \<times> 'n) list \<Rightarrow> bool" where
  "index_exact w ids \<longleftrightarrow> distinct (map fst ids)
     \<and> (\<forall>t i. (t, i) \<in> set ids \<longleftrightarrow> (\<exists>d. w i = Some d \<and> tx_id (sd_transaction d) = t))"

definition txs_of :: "('n \<rightharpoonup> storage_data) \<Rightarrow> ('n \<rightharpoonup> pool_tx)" where
  "txs_of w i = map_option sd_transaction (w i)"

text \<open>The collision manager, the index of ids, the totals and the ordered map describe the stored
  transactions, of which those with an index in \<open>I\<close> are in the ordered map.\<close>

definition agrees :: "('n \<rightharpoonup> storage_data) \<Rightarrow> 'n set \<Rightarrow> ('g, 'n) pool \<Rightarrow> bool" where
  "agrees w I p \<longleftrightarrow> cm_integrity (p_collisions p) (txs_of w) \<and> index_exact w (tx_id_to_storage_id p)
     \<and> unat (current_gas p) = stored_sum w own_gas \<and> unat (current_bytes_size p) = stored_sum w own_bytes
     \<and> covers w I (p_selection p)"

lemma view_same:
  assumes "tx_view w = tx_view w'"
  shows "txs_of w = txs_of w'" and "dom w = dom w'"
    and "\<And>i. (\<exists>d. w i = Some d \<and> tx_id (sd_transaction d) = t) \<longleftrightarrow> (\<exists>d. w' i = Some d \<and> tx_id (sd_transaction d) = t)"
    and "stored_ok w \<Longrightarrow> stored_ok w'"
    and "\<And>own. (\<And>d d'. sd_transaction d = sd_transaction d' \<Longrightarrow> own d = own d') \<Longrightarrow> stored_sum w own = stored_sum w' own"
proof -
  have pt: "map_option sd_transaction (w i) = map_option sd_transaction (w' i)" for i
    using fun_cong [OF assms, of i] by (cases "w i"; cases "w' i") (simp_all add: tx_view_def)
  then show "txs_of w = txs_of w'" by (simp add: fun_eq_iff txs_of_def)
  have none: "w i = None \<longleftrightarrow> w' i = None" for i using pt [of i] by auto
  then show dom: "dom w = dom w'" by (auto simp: dom_def)
  have some: "\<exists>d'. w' i = Some d' \<and> sd_transaction d' = sd_transaction d" if "w i = Some d" for i d
    using pt [of i] that by (cases "w' i") auto
  have some': "\<exists>d'. w i = Some d' \<and> sd_transaction d' = sd_transaction d" if "w' i = Some d" for i d
    using pt [of i] that by (cases "w i") auto
  show "(\<exists>d. w i = Some d \<and> tx_id (sd_transaction d) = t) \<longleftrightarrow> (\<exists>d. w' i = Some d \<and> tx_id (sd_transaction d) = t)" for i
  proof
    assume "\<exists>d. w i = Some d \<and> tx_id (sd_transaction d) = t"
    then obtain d where d: "w i = Some d" "tx_id (sd_transaction d) = t" by blast
    then show "\<exists>d. w' i = Some d \<and> tx_id (sd_transaction d) = t" using some [OF d(1)] by auto
  next
    assume "\<exists>d. w' i = Some d \<and> tx_id (sd_transaction d) = t"
    then obtain d where d: "w' i = Some d" "tx_id (sd_transaction d) = t" by blast
    then show "\<exists>d. w i = Some d \<and> tx_id (sd_transaction d) = t" using some' [OF d(1)] by auto
  qed
  show "stored_ok w'" if ok: "stored_ok w"
    unfolding stored_ok_def
  proof (intro conjI allI impI)
    fix i d assume "w' i = Some d"
    then obtain d' where d': "w i = Some d'" "sd_transaction d' = sd_transaction d" using some' by blast
    then show "tx_max_gas (sd_transaction d) \<noteq> 0" using stored_okD(1) [OF ok d'(1)] by simp
  next
    fix i j d e assume ij: "w' i = Some d" "w' j = Some e" "tx_id (sd_transaction d) = tx_id (sd_transaction e)"
    obtain d' e' where de: "w i = Some d'" "sd_transaction d' = sd_transaction d"
        "w j = Some e'" "sd_transaction e' = sd_transaction e"
      using some' [OF ij(1)] some' [OF ij(2)] by blast
    show "i = j" using stored_okD(2) [OF ok de(1,3)] de(2,4) ij(3) by simp
  qed
  show "stored_sum w own = stored_sum w' own"
    if own: "\<And>d d'. sd_transaction d = sd_transaction d' \<Longrightarrow> own d = own d'" for own
    unfolding stored_sum_def dom
  proof (rule sum.cong)
    fix m assume "m \<in> dom w'"
    then obtain d where d: "w' m = Some d" by blast
    then obtain d' where d': "w m = Some d'" "sd_transaction d' = sd_transaction d" using some' by blast
    from own [OF d'(2)] show "unat (own (the (w m))) = unat (own (the (w' m)))" using d d'(1) by simp
  qed simp
qed

lemma agrees_view:
  assumes "agrees w I p" "tx_view w = tx_view w'"
  shows "agrees w' I p"
proof -
  have "stored_sum w own_gas = stored_sum w' own_gas" "stored_sum w own_bytes = stored_sum w' own_bytes"
    by (rule view_same(5) [OF assms(2)], simp)+
  then show ?thesis
    using assms(1) covers_view [OF _ assms(2)] view_same(1,3) [OF assms(2)]
    unfolding agrees_def index_exact_def by simp
qed

lemma stored_sum_remove:
  "finite (dom w) \<Longrightarrow> w i = Some d \<Longrightarrow> stored_sum w own = unat (own d) + stored_sum (w(i := None)) own"
  unfolding stored_sum_def by (subst sum.remove [of _ i]) (auto intro!: sum.cong)

lemma index_exactD:
  "index_exact w ids \<Longrightarrow> (t, i) \<in> set ids \<longleftrightarrow> (\<exists>d. w i = Some d \<and> tx_id (sd_transaction d) = t)"
  by (simp add: index_exact_def)

lemma index_exact_map_of:
  "index_exact w ids \<Longrightarrow> map_of ids t = Some i \<longleftrightarrow> (\<exists>d. w i = Some d \<and> tx_id (sd_transaction d) = t)"
  by (simp add: index_exact_def)

lemma index_exact_remove:
  assumes "index_exact w ids" "stored_ok w" "w i = Some d"
  shows "index_exact (w(i := None)) (remove_id (tx_id (sd_transaction d)) ids)"
proof -
  have "(t, j) \<in> set (remove_id (tx_id (sd_transaction d)) ids) \<longleftrightarrow>
      (\<exists>e. (w(i := None)) j = Some e \<and> tx_id (sd_transaction e) = t)" for t j
  proof (cases "j = i")
    case True
    then show ?thesis
      using index_exactD [OF assms(1), of t j] assms(3) by (auto simp: remove_id_def)
  next
    case False
    then have "tx_id (sd_transaction e) \<noteq> tx_id (sd_transaction d)" if "w j = Some e" for e
      using stored_okD(2) [OF assms(2) that assms(3)] by blast
    then show ?thesis
      using index_exactD [OF assms(1), of t j] False by (auto simp: remove_id_def)
  qed
  moreover have "distinct (map fst (remove_id (tx_id (sd_transaction d)) ids))"
    using assms(1) unfolding index_exact_def remove_id_def by (simp add: distinct_map_filter)
  ultimately show ?thesis by (simp add: index_exact_def)
qed

lemma covers_remove:
  assumes "covers w I xs" "stored_ok w" "w i = Some d" "selection_key d = Some k"
  shows "covers (w(i := None)) (I - {i}) (exec_remove k xs)"
proof -
  have "l \<noteq> k \<longleftrightarrow> j \<noteq> i" if lj: "(l, j) \<in> set xs" for l j
  proof
    assume "l \<noteq> k"
    moreover obtain e where "w j = Some e" "selection_key e = Some l"
      using coversD [OF assms(1), of l j] lj by auto
    ultimately show "j \<noteq> i" using assms(3,4) by auto
  next
    assume "j \<noteq> i"
    then show "l \<noteq> k" using covers_inj [OF assms(1,2) lj assms(3)] assms(4) by auto
  qed
  then have "(l, j) \<in> set (exec_remove k xs) \<longleftrightarrow>
      j \<in> I - {i} \<and> (\<exists>e. (w(i := None)) j = Some e \<and> selection_key e = Some l)" for l j
    using coversD [OF assms(1), of l j] by (auto simp: exec_remove_def)
  then show ?thesis
    using assms(1) unfolding covers_def by (simp add: exec_remove_def exec_sorted_def sorted_wrt_filter)
qed

definition same_rest :: "('g, 'n) pool \<Rightarrow> ('g, 'n) pool \<Rightarrow> bool" where
  "same_rest p p' \<longleftrightarrow> p_config p' = p_config p \<and> p_storage p' = p_storage p \<and> p_extracted p' = p_extracted p"

lemma on_removal_agrees:
  assumes "agrees w I p" "stored_ok w" "finite (dom w)" "w i = Some d"
  shows "\<exists>p'. on_removal p d = Some p' \<and> agrees (w(i := None)) (I - {i}) p' \<and> same_rest p p'"
proof -
  obtain k where k: "selection_key d = Some k"
    using selection_key_Some [OF stored_okD(1) [OF assms(2,4)]] by blast
  have "txs_of (w(i := None)) = (txs_of w)(i := None)" by (auto simp: fun_eq_iff txs_of_def)
  then have "cm_integrity (on_removed_transaction (p_collisions p) (sd_transaction d)) (txs_of (w(i := None)))"
    using cm_integrity_removed [of "p_collisions p" "txs_of w" i "sd_transaction d"] assms(1,4)
    by (simp add: agrees_def txs_of_def)
  moreover have "unat (saturating_sub (current_gas p) (tx_max_gas (sd_transaction d))) = stored_sum (w(i := None)) own_gas"
      "unat (saturating_sub (current_bytes_size p) (metered_bytes_size (sd_transaction d))) = stored_sum (w(i := None)) own_bytes"
    using assms(1) stored_sum_remove [OF assms(3,4)] by (simp_all add: agrees_def unat_saturating_sub)
  ultimately show ?thesis
    using covers_remove [OF _ assms(2,4) k] index_exact_remove [OF _ assms(2,4)] assms(1) k
    by (simp add: agrees_def same_rest_def selection_on_removed_def Let_def)
qed

lemma same_rest_refl [simp]: "same_rest p p" and
  same_rest_trans: "same_rest p p1 \<Longrightarrow> same_rest p1 p2 \<Longrightarrow> same_rest p p2"
  by (simp_all add: same_rest_def)

declare on_removal.simps [simp del]

lemma update_components_agrees:
  "agrees w I p \<Longrightarrow> stored_ok w \<Longrightarrow> finite (dom w) \<Longrightarrow> list_all2 (\<lambda>i d. w i = Some d) is ds \<Longrightarrow> distinct is \<Longrightarrow>
   \<exists>p'. update_components_and_caches_on_removal p ds = Some p'
     \<and> agrees (w |` (- set is)) (I - set is) p' \<and> same_rest p p'"
proof (induction "is" arbitrary: w I p ds)
  case Nil
  then show ?case by (simp add: restrict_map_def)
next
  case (Cons i "is")
  then obtain d ds' where ds: "ds = d # ds'" "w i = Some d" "list_all2 (\<lambda>i d. w i = Some d) is ds'"
    by (auto simp: list_all2_Cons1)
  obtain p1 where p1: "on_removal p d = Some p1" "agrees (w(i := None)) (I - {i}) p1" "same_rest p p1"
    using on_removal_agrees [OF Cons.prems(1-3) ds(2)] by blast
  have "list_all2 (\<lambda>j d. (w(i := None)) j = Some d) is ds'"
    using ds(3) Cons.prems(5) by (auto simp: list_all2_conv_all_nth)
  moreover have "stored_ok (w(i := None))"
    using stored_ok_restrict [OF Cons.prems(2), of "- {i}"] by (simp add: restrict_complement_singleton_eq)
  moreover have "finite (dom (w(i := None)))" "distinct is" using Cons.prems by auto
  ultimately obtain p2 where p2: "update_components_and_caches_on_removal p1 ds' = Some p2"
      "agrees ((w(i := None)) |` (- set is)) (I - {i} - set is) p2" "same_rest p1 p2"
    using Cons.IH [OF p1(2)] by blast
  have "(w(i := None)) |` (- set is) = w |` (- set (i # is))" "I - {i} - set is = I - set (i # is)"
    by (auto simp: fun_eq_iff restrict_map_def)
  then show ?case
    using p1(1) p2 same_rest_trans [OF p1(3) p2(3)] ds(1) by simp
qed

section \<open>Integrity of the pool\<close>

definition pool_inv :: "('g, 'n) digraph \<Rightarrow> ('g, 'n) pool \<Rightarrow> bool" where
  "pool_inv G p \<longleftrightarrow> storage_inv G (p_storage p) \<and> stored_ok (gs_get G (p_storage p))
     \<and> agrees (gs_get G (p_storage p)) {i. \<not> has_dependencies G (p_storage p) i} p
     \<and> gs_max_txs_chain_count (p_storage p) = max_txs_chain_count (p_config p)"

lemma pool_invD:
  assumes "pool_inv G p"
  shows "storage_inv G (p_storage p)" "stored_ok (gs_get G (p_storage p))"
    "agrees (gs_get G (p_storage p)) {i. \<not> has_dependencies G (p_storage p) i} p"
    "gs_max_txs_chain_count (p_storage p) = max_txs_chain_count (p_config p)"
  using assms by (simp_all add: pool_inv_def)

text \<open>A pool from which the transactions at the indices \<open>is\<close> were removed.\<close>

definition removal ::
    "('g, 'n) digraph \<Rightarrow> ('g, 'n) pool \<Rightarrow> 'n list \<Rightarrow> pool_tx list \<Rightarrow> ('g, 'n) pool \<Rightarrow> bool" where
  "removal G p is txs p' \<longleftrightarrow> pool_inv G p'
     \<and> tx_view (gs_get G (p_storage p')) = tx_view (gs_get G (p_storage p)) |` (- set is)
     \<and> edges G (gs_graph (p_storage p')) = restrict_edges (edges G (gs_graph (p_storage p))) (set is)
     \<and> p_config p' = p_config p \<and> p_extracted p' = p_extracted p
     \<and> distinct is \<and> list_all2 (\<lambda>i tx. txs_of (gs_get G (p_storage p)) i = Some tx) is txs"

lemma agrees_cong:
  "agrees w I p \<Longrightarrow> (\<And>i d. w i = Some d \<Longrightarrow> i \<in> I \<longleftrightarrow> i \<in> J) \<Longrightarrow> agrees w J p"
  unfolding agrees_def by (blast intro: covers_cong)

lemma txs_of_view: "txs_of w i = map_option fst (tx_view w i)"
  by (simp add: txs_of_def tx_view_def option.map_comp comp_def)

lemma dom_tx_view: "dom (tx_view w) = dom w"
  by (auto simp: dom_def tx_view_def)

lemma removal_refl: "pool_inv G p \<Longrightarrow> removal G p [] [] p"
  by (simp add: removal_def restrict_map_def)

lemma removal_trans:
  assumes "removal G p is txs p1" "removal G p1 js us p2"
  shows "removal G p (is @ js) (txs @ us) p2"
proof -
  have r1: "tx_view (gs_get G (p_storage p1)) = tx_view (gs_get G (p_storage p)) |` (- set is)"
      "list_all2 (\<lambda>i tx. txs_of (gs_get G (p_storage p)) i = Some tx) is txs" "distinct is"
    using assms(1) by (simp_all add: removal_def)
  have r2: "list_all2 (\<lambda>i tx. txs_of (gs_get G (p_storage p1)) i = Some tx) js us" "distinct js"
    using assms(2) by (simp_all add: removal_def)
  have sub: "j \<notin> set is \<and> txs_of (gs_get G (p_storage p)) j = Some tx"
    if "txs_of (gs_get G (p_storage p1)) j = Some tx" for j tx
    using that r1(1) by (auto simp: txs_of_view restrict_map_def split: if_splits)
  have "list_all2 (\<lambda>i tx. txs_of (gs_get G (p_storage p)) i = Some tx) js us"
    by (rule list_all2_mono [OF r2(1)]) (use sub in blast)
  then have "list_all2 (\<lambda>i tx. txs_of (gs_get G (p_storage p)) i = Some tx) (is @ js) (txs @ us)"
    using r1(2) by (rule list_all2_appendI [rotated])
  moreover have disj: "j \<notin> set is" if j: "j \<in> set js" for j
  proof -
    obtain tx where "txs_of (gs_get G (p_storage p1)) j = Some tx"
      using r2(1) j by (auto simp: list_all2_conv_all_nth in_set_conv_nth)
    then show ?thesis using sub by blast
  qed
  have "distinct (is @ js)" using r1(3) r2(2) disj by auto
  moreover have "tx_view (gs_get G (p_storage p2)) = tx_view (gs_get G (p_storage p)) |` (- set (is @ js))"
    using assms(2) by (simp add: removal_def r1(1) Int_commute)
  moreover have "edges G (gs_graph (p_storage p2)) = restrict_edges (edges G (gs_graph (p_storage p))) (set (is @ js))"
    using assms by (simp add: removal_def restrict_edges_union)
  ultimately show ?thesis
    using assms by (simp add: removal_def)
qed

lemma removal_stored:
  assumes "removal G p is txs p'"
  shows "gs_get G (p_storage p') i \<noteq> None \<longleftrightarrow> gs_get G (p_storage p) i \<noteq> None \<and> i \<notin> set is"
proof -
  have "dom (gs_get G (p_storage p')) = dom (gs_get G (p_storage p)) - set is"
    using assms unfolding removal_def dom_tx_view [symmetric] by auto
  then show ?thesis by auto
qed

context stable_digraph
begin

lemma finite_stored: "finite (dom (gs_get G s))"
  using finite_nodes [of "gs_graph s"] by (simp add: gs_get_def [abs_def])

lemma executables_restrict:
  assumes "edges G (gs_graph s') = restrict_edges (edges G (gs_graph s)) A"
    and "\<And>a b. (a, b) \<in> edges G (gs_graph s) \<Longrightarrow> a \<in> A \<Longrightarrow> b \<in> A" "j \<notin> A"
  shows "has_dependencies G s' j \<longleftrightarrow> has_dependencies G s j"
  unfolding has_dependencies_iff assms(1) restrict_edges_def using assms(2,3) by blast

lemma remove_subtree_inv:
  assumes inv: "pool_inv G p"
  shows "\<exists>p' is ds. remove_subtree G p r = Some (p', ds) \<and> removal G p is (map sd_transaction ds) p'
    \<and> set is = (if gs_get G (p_storage p) r = None then {} else down (edges G (gs_graph (p_storage p))) r)"
proof -
  let ?s = "p_storage p"
  let ?E = "edges G (gs_graph ?s)" and ?w = "gs_get G ?s"
  obtain s' "is" ds where rem: "remove_transaction_and_dependents_subtree G ?s r = Some (s', ds)"
      and inv': "storage_inv G s'" and "is": "distinct is" "set is = (if ?w r = None then {} else down ?E r)"
      and ds: "list_all2 (\<lambda>i d. ?w i = Some d) is ds"
      and view: "tx_view (gs_get G s') = tx_view ?w |` (- set is)"
      and E': "edges G (gs_graph s') = restrict_edges ?E (set is)"
      and chain: "gs_max_txs_chain_count s' = gs_max_txs_chain_count ?s"
    using remove_subtree_exact [OF pool_invD(1) [OF inv], of r] by blast
  have view': "tx_view (?w |` (- set is)) = tx_view (gs_get G s')"
    unfolding view by (auto simp: tx_view_def restrict_map_def fun_eq_iff)
  have "agrees ?w {i. \<not> has_dependencies G ?s i} (p\<lparr>p_storage := s'\<rparr>)"
    using pool_invD(3) [OF inv] by (simp add: agrees_def)
  then obtain p' where p': "update_components_and_caches_on_removal (p\<lparr>p_storage := s'\<rparr>) ds = Some p'"
      "agrees (?w |` (- set is)) ({i. \<not> has_dependencies G ?s i} - set is) p'" "same_rest (p\<lparr>p_storage := s'\<rparr>) p'"
    using update_components_agrees [OF _ pool_invD(2) [OF inv] finite_stored ds "is"(1)] by blast
  have s': "p_storage p' = s'" "p_config p' = p_config p" "p_extracted p' = p_extracted p"
    using p'(3) by (simp_all add: same_rest_def)
  have closed: "b \<in> set is" if "(a, b) \<in> ?E" "a \<in> set is" for a b
    using that down_trans "is"(2) by (auto simp: down_def split: if_splits intro: rtrancl_into_rtrancl)
  have same: "i \<in> {i. \<not> has_dependencies G ?s i} - set is \<longleftrightarrow> i \<in> {i. \<not> has_dependencies G s' i}"
    if "(?w |` (- set is)) i = Some d" for i d
  proof -
    have "i \<notin> set is" using that by (auto simp: restrict_map_def split: if_splits)
    then show ?thesis using executables_restrict [OF E' closed] by simp
  qed
  have "agrees (?w |` (- set is)) {i. \<not> has_dependencies G s' i} p'"
    by (rule agrees_cong [OF p'(2) same])
  then have "agrees (gs_get G s') {i. \<not> has_dependencies G s' i} p'"
    using agrees_view [OF _ view'] by blast
  moreover have "stored_ok (gs_get G s')"
    using view_same(4) [OF view'] stored_ok_restrict [OF pool_invD(2) [OF inv]] by blast
  ultimately have "pool_inv G p'"
    using inv' s' chain pool_invD(4) [OF inv] by (simp add: pool_inv_def)
  moreover have "list_all2 (\<lambda>i tx. txs_of ?w i = Some tx) is (map sd_transaction ds)"
    using ds by (auto simp: list_all2_conv_all_nth txs_of_def)
  ultimately have "removal G p is (map sd_transaction ds) p'"
    using view E' s' "is"(1) by (simp add: removal_def)
  moreover have "remove_subtree G p r = Some (p', ds)"
    using rem p'(1) by (simp add: remove_subtree_def)
  ultimately show ?thesis using "is"(2) by blast
qed

lemma remove_subtrees_inv:
  "pool_inv G p \<Longrightarrow> \<exists>p' is ds. remove_subtrees G p ns = Some (p', ds) \<and> removal G p is (map sd_transaction ds) p'
    \<and> set ns \<inter> dom (gs_get G (p_storage p)) \<subseteq> set is
    \<and> set is \<subseteq> (\<Union>n\<in>set ns. down (edges G (gs_graph (p_storage p))) n)"
proof (induction ns arbitrary: p)
  case Nil
  then show ?case using removal_refl [OF Nil] by (intro exI [of _ p] exI [of _ "[]"]) simp
next
  case (Cons n ns)
  let ?E = "edges G (gs_graph (p_storage p))"
  obtain p1 is1 ds1 where r1: "remove_subtree G p n = Some (p1, ds1)" "removal G p is1 (map sd_transaction ds1) p1"
      "set is1 = (if gs_get G (p_storage p) n = None then {} else down ?E n)"
    using remove_subtree_inv [OF Cons.prems, of n] by blast
  have "pool_inv G p1" using r1(2) by (simp add: removal_def)
  then obtain p2 is2 ds2 where r2: "remove_subtrees G p1 ns = Some (p2, ds2)"
      "removal G p1 is2 (map sd_transaction ds2) p2"
      "set ns \<inter> dom (gs_get G (p_storage p1)) \<subseteq> set is2"
      "set is2 \<subseteq> (\<Union>n\<in>set ns. down (edges G (gs_graph (p_storage p1))) n)"
    using Cons.IH by blast
  have "edges G (gs_graph (p_storage p1)) \<subseteq> ?E"
    using r1(2) by (auto simp: removal_def restrict_edges_def)
  then have "set is2 \<subseteq> (\<Union>n\<in>set ns. down ?E n)"
    using r2(4) down_mono [of "edges G (gs_graph (p_storage p1))" ?E] by blast
  moreover have "set is1 \<subseteq> down ?E n" using r1(3) by simp
  ultimately have "set (is1 @ is2) \<subseteq> (\<Union>n\<in>set (n # ns). down ?E n)" by auto
  moreover have "n \<in> set is1" if "gs_get G (p_storage p) n \<noteq> None"
    using that r1(3) by (simp add: down_def)
  moreover have "m \<in> set is1 \<union> set is2" if "m \<in> set ns" "gs_get G (p_storage p) m \<noteq> None" for m
    using that removal_stored [OF r1(2), of m] r2(3) by blast
  ultimately show ?case
    using removal_trans [OF r1(2) r2(2)] r1(1) r2(1)
    by (intro exI [of _ p2] exI [of _ "is1 @ is2"] exI [of _ "ds1 @ ds2"]) auto
qed

end

section \<open>Insertion keeps the integrity\<close>

lemma room_for_sum: "room_for w own amount \<longleftrightarrow> stored_sum w own + unat amount < 2 ^ LENGTH(64)"
  by (simp add: room_for_def stored_sum_def)

lemma stored_sum_restrict: "finite (dom w) \<Longrightarrow> stored_sum (w |` A) own \<le> stored_sum w own"
proof -
  assume fin: "finite (dom w)"
  have "stored_sum (w |` A) own = (\<Sum>m\<in>dom w \<inter> A. unat (own (the (w m))))"
    unfolding stored_sum_def by (rule sum.cong) (auto simp: restrict_map_def split: if_splits)
  also have "\<dots> \<le> stored_sum w own"
    unfolding stored_sum_def using fin by (intro sum_mono2) auto
  finally show ?thesis .
qed

lemma totals_fit_view:
  assumes "totals_fit w tx" "finite (dom w)" "tx_view w' = tx_view w |` A"
  shows "totals_fit w' tx"
proof -
  have view: "tx_view (w |` A) = tx_view w'"
    unfolding assms(3) by (auto simp: tx_view_def restrict_map_def fun_eq_iff)
  have le: "stored_sum w' own \<le> stored_sum w own"
    if own: "\<And>d d'. sd_transaction d = sd_transaction d' \<Longrightarrow> own d = own d'" for own :: "storage_data \<Rightarrow> u64"
  proof -
    have "stored_sum (w |` A) own = stored_sum w' own" by (rule view_same(5) [OF view]) (rule own)
    then show ?thesis using stored_sum_restrict [OF assms(2), of A own] by simp
  qed
  have "stored_sum w' own_gas \<le> stored_sum w own_gas" "stored_sum w' own_tip \<le> stored_sum w own_tip"
      "stored_sum w' own_bytes \<le> stored_sum w own_bytes" "stored_sum w' (\<lambda>_. 1) \<le> stored_sum w (\<lambda>_. 1)"
    by (rule le, simp)+
  then show ?thesis using assms(1) unfolding totals_fit_def room_for_sum by linarith
qed

lemma stored_sum_insert:
  "finite (dom w) \<Longrightarrow> w i = None \<Longrightarrow> stored_sum (w(i \<mapsto> d)) own = stored_sum w own + unat (own d)"
  by (subst stored_sum_remove [of _ i d]) (simp_all add: fun_upd_idem)

lemma resources_contract: "creates_contract tx c \<Longrightarrow> RContract c \<in> resources tx"
  by (simp add: resources_def)

definition fresh_id :: "('n \<rightharpoonup> storage_data) \<Rightarrow> tx_id \<Rightarrow> bool" where
  "fresh_id w t \<longleftrightarrow> (\<forall>i d. w i = Some d \<longrightarrow> tx_id (sd_transaction d) \<noteq> t)"

lemma index_exact_fresh: "index_exact w ids \<Longrightarrow> map_of ids t = None \<longleftrightarrow> fresh_id w t"
proof -
  assume ex: "index_exact w ids"
  have "map_of ids t = None \<longleftrightarrow> (\<nexists>i. map_of ids t = Some i)" by simp
  also have "\<dots> \<longleftrightarrow> fresh_id w t"
    unfolding index_exact_map_of [OF ex] fresh_id_def by blast
  finally show ?thesis .
qed

lemma index_exact_insert:
  assumes "index_exact w ids" "w i = None" "fresh_id w (tx_id (sd_transaction d))"
  shows "index_exact (w(i \<mapsto> d)) ((tx_id (sd_transaction d), i) # remove_id (tx_id (sd_transaction d)) ids)"
proof -
  have "tx_id (sd_transaction d) \<notin> fst ` set ids"
    using index_exact_fresh [OF assms(1)] assms(3) by (simp add: map_of_eq_None_iff)
  then have "remove_id (tx_id (sd_transaction d)) ids = ids"
    unfolding remove_id_def by (intro filter_True) force
  moreover have "(t, j) \<in> set ((tx_id (sd_transaction d), i) # ids) \<longleftrightarrow>
      (\<exists>e. (w(i \<mapsto> d)) j = Some e \<and> tx_id (sd_transaction e) = t)" for t j
    using index_exactD [OF assms(1), of t j] assms(2) by auto
  ultimately show ?thesis
    using assms(1) \<open>tx_id (sd_transaction d) \<notin> fst ` set ids\<close> unfolding index_exact_def by simp
qed

lemma stored_ok_insert:
  assumes "stored_ok w" "fresh_id w (tx_id (sd_transaction d))" "tx_max_gas (sd_transaction d) \<noteq> 0"
  shows "stored_ok (w(i \<mapsto> d))"
proof -
  have new: "tx_id (sd_transaction e) \<noteq> tx_id (sd_transaction d)" if "w j = Some e" for j e
    using assms(2) that unfolding fresh_id_def by blast
  have "a = b" if ab: "(w(i \<mapsto> d)) a = Some x" "(w(i \<mapsto> d)) b = Some y"
      "tx_id (sd_transaction x) = tx_id (sd_transaction y)" for a b x y
    using ab new [of a x] new [of b y] stored_okD(2) [OF assms(1), of a x b y] by (auto split: if_splits)
  moreover have "tx_max_gas (sd_transaction x) \<noteq> 0" if "(w(i \<mapsto> d)) a = Some x" for a x
    using that assms(3) stored_okD(1) [OF assms(1), of a x] by (auto split: if_splits)
  ultimately show ?thesis unfolding stored_ok_def by blast
qed

lemma covers_other:
  assumes "covers w I xs" "w i = None"
  shows "covers (w(i \<mapsto> d)) (I - {i}) xs"
proof -
  have "(k, j) \<in> set xs \<longleftrightarrow> j \<in> I - {i} \<and> (\<exists>e. (w(i \<mapsto> d)) j = Some e \<and> selection_key e = Some k)" for k j
    using coversD [OF assms(1), of k j] assms(2) by auto
  then show ?thesis using assms(1) by (simp add: covers_def)
qed

context stable_digraph
begin

lemma store_fresh:
  assumes inv: "storage_inv G s" and ok: "checked_ok G s ct" and wf: "wf_tx (ct_tx ct)"
    and fits: "totals_fit (gs_get G s) (ct_tx ct)" and fresh: "fresh_id (gs_get G s) (tx_id (ct_tx ct))"
    and free: "conflicting (txs_of (gs_get G s)) (ct_tx ct) = {}"
  shows "\<exists>s' n. store_transaction G s ct now = Some (s', n) \<and> storage_inv G s' \<and> gs_get G s n = None
    \<and> gs_get G s' n = Some (new_storage_data (ct_tx ct) now)
    \<and> tx_view (gs_get G s') = (tx_view (gs_get G s))(n \<mapsto> (ct_tx ct, now))
    \<and> edges G (gs_graph s') = with_sink (edges G (gs_graph s)) (set (direct_dependencies ct)) n
    \<and> gs_max_txs_chain_count s' = gs_max_txs_chain_count s"
proof (rule store_transaction_inserts [OF inv ok wf fits])
  fix n d u assume d: "gs_get G s n = Some d" "creates_coin (ct_tx ct) u \<noteq> None"
  show "creates_coin (sd_transaction d) u = None"
  proof (rule ccontr)
    assume "creates_coin (sd_transaction d) u \<noteq> None"
    then have "tx_id (sd_transaction d) = tx_id (ct_tx ct)"
      using creates_coin_id [OF d(2)] creates_coin_id [of "sd_transaction d" u] by simp
    then show False using fresh d(1) by (simp add: fresh_id_def)
  qed
next
  fix n d c assume d: "gs_get G s n = Some d" "creates_contract (ct_tx ct) c"
  show "\<not> creates_contract (sd_transaction d) c"
  proof
    assume "creates_contract (sd_transaction d) c"
    then have "RContract c \<in> resources (sd_transaction d) \<inter> resources (ct_tx ct)"
      using d(2) resources_contract by blast
    then have "n \<in> conflicting (txs_of (gs_get G s)) (ct_tx ct)"
      using d(1) by (auto simp: conflicting_def txs_of_def)
    then show False using free by simp
  qed
qed

lemma store_checked_inv:
  assumes inv: "pool_inv G p" and ok: "checked_ok G (p_storage p) ct" and wf: "wf_tx (ct_tx ct)"
    and fits: "totals_fit (gs_get G (p_storage p)) (ct_tx ct)"
    and gas: "tx_max_gas (ct_tx ct) \<noteq> 0" and fresh: "fresh_id (gs_get G (p_storage p)) (tx_id (ct_tx ct))"
    and free: "conflicting (txs_of (gs_get G (p_storage p))) (ct_tx ct) = {}"
  shows "\<exists>p' i. store_checked G p ct now = Some p' \<and> pool_inv G p' \<and> gs_get G (p_storage p) i = None
    \<and> tx_view (gs_get G (p_storage p')) = (tx_view (gs_get G (p_storage p)))(i \<mapsto> (ct_tx ct, now))
    \<and> edges G (gs_graph (p_storage p')) = with_sink (edges G (gs_graph (p_storage p))) (set (direct_dependencies ct)) i
    \<and> p_config p' = p_config p \<and> p_extracted p' = p_extracted p"
proof -
  let ?w = "gs_get G (p_storage p)" and ?tx = "ct_tx ct"
  let ?d = "new_storage_data ?tx now"
  have tx: "sd_transaction ?d = ?tx" by (simp add: new_storage_data_def)
  obtain s' i where st: "store_transaction G (p_storage p) ct now = Some (s', i)" "storage_inv G s'" "?w i = None"
      "gs_get G s' i = Some ?d" "tx_view (gs_get G s') = (tx_view ?w)(i \<mapsto> (?tx, now))"
      "edges G (gs_graph s') = with_sink (edges G (gs_graph (p_storage p))) (set (direct_dependencies ct)) i"
      "gs_max_txs_chain_count s' = gs_max_txs_chain_count (p_storage p)"
    using store_fresh [OF pool_invD(1) [OF inv] ok wf fits fresh free, of now] by blast
  have view: "tx_view (?w(i \<mapsto> ?d)) = tx_view (gs_get G s')"
    unfolding st(5) by (auto simp: tx_view_def new_storage_data_def)
  have agr: "cm_integrity (p_collisions p) (txs_of ?w)" "index_exact ?w (tx_id_to_storage_id p)"
      "unat (current_gas p) = stored_sum ?w own_gas" "unat (current_bytes_size p) = stored_sum ?w own_bytes"
      "covers ?w {i. \<not> has_dependencies G (p_storage p) i} (p_selection p)"
    using pool_invD(3) [OF inv] by (simp_all add: agrees_def)
  have ok': "stored_ok (?w(i \<mapsto> ?d))"
    using stored_ok_insert [OF pool_invD(2) [OF inv]] fresh gas by (simp add: tx)
  have "txs_of (?w(i \<mapsto> ?d)) = (txs_of ?w)(i \<mapsto> ?tx)" by (auto simp: txs_of_def tx fun_eq_iff)
  then have cm: "cm_integrity (on_stored_transaction (p_collisions p) i ?tx) (txs_of (?w(i \<mapsto> ?d)))"
    using cm_integrity_stored [OF agr(1) _ free, of i] st(3) by (simp add: txs_of_def)
  have ids: "index_exact (?w(i \<mapsto> ?d)) ((tx_id ?tx, i) # remove_id (tx_id ?tx) (tx_id_to_storage_id p))"
    using index_exact_insert [OF agr(2) st(3), of ?d] fresh by (simp add: tx)
  have room: "stored_sum ?w own_gas + unat (tx_max_gas ?tx) < 2 ^ LENGTH(64)"
      "stored_sum ?w own_bytes + unat (metered_bytes_size ?tx) < 2 ^ LENGTH(64)"
    using fits by (simp_all add: totals_fit_def room_for_sum)
  have sums: "unat (saturating_add (current_gas p) (tx_max_gas ?tx)) = stored_sum (?w(i \<mapsto> ?d)) own_gas"
      "unat (saturating_add (current_bytes_size p) (metered_bytes_size ?tx)) = stored_sum (?w(i \<mapsto> ?d)) own_bytes"
    using room agr(3,4) unfolding stored_sum_insert [OF finite_stored st(3)] tx
    by (simp_all add: unat_saturating_add_exact)
  define I where "I = {i. \<not> has_dependencies G (p_storage p) i} - {i}"
  have cov: "covers (?w(i \<mapsto> ?d)) I (p_selection p)"
    unfolding I_def by (rule covers_other [OF agr(5) st(3)])
  have deps: "all_dependencies ct = [] \<longleftrightarrow> set (direct_dependencies ct) = {}"
  proof -
    have "set (all_dependencies ct) = (\<Union>q\<in>set (direct_dependencies ct). up (edges G (gs_graph (p_storage p))) q)"
      using ok by (simp add: checked_ok_def)
    moreover have "q \<in> up (edges G (gs_graph (p_storage p))) q" for q by (rule up_refl)
    ultimately show ?thesis by (metis (no_types, lifting) SUP_bot_conv(2) empty_iff set_empty all_not_in_conv)
  qed
  have exec: "\<not> has_dependencies G s' j \<longleftrightarrow> j \<in> (if all_dependencies ct = [] then insert i I else I)" for j
    unfolding has_dependencies_iff st(6) with_sink_def deps I_def
    using st(3) edges_nodes [of "gs_graph (p_storage p)"] by (auto simp: gs_get_def neq_Nil_conv)
  have agr': "agrees (?w(i \<mapsto> ?d)) {j. \<not> has_dependencies G s' j}
      (p\<lparr>p_storage := s', current_gas := saturating_add (current_gas p) (tx_max_gas ?tx),
         current_bytes_size := saturating_add (current_bytes_size p) (metered_bytes_size ?tx),
         tx_id_to_storage_id := (tx_id ?tx, i) # remove_id (tx_id ?tx) (tx_id_to_storage_id p),
         p_collisions := on_stored_transaction (p_collisions p) i ?tx, p_selection := xs\<rparr>)"
    if "covers (?w(i \<mapsto> ?d)) (if all_dependencies ct = [] then insert i I else I) xs" for xs
    using covers_cong [OF that, of "{j. \<not> has_dependencies G s' j}"] exec cm ids sums by (simp add: agrees_def)
  obtain xs where xs: "covers (?w(i \<mapsto> ?d)) (if all_dependencies ct = [] then insert i I else I) xs"
      "if all_dependencies ct = [] then new_executable_transaction (p_selection p) i ?d = Some xs else xs = p_selection p"
  proof (cases "all_dependencies ct = []")
    case True
    have "i \<notin> I" by (simp add: I_def)
    then obtain xs where "new_executable_transaction (p_selection p) i ?d = Some xs"
        "covers (?w(i \<mapsto> ?d)) (insert i I) xs"
      using covers_insert [OF cov ok', of i ?d] by auto
    then show thesis using that [of xs] True by simp
  next
    case False
    then show thesis using that [of "p_selection p"] cov by simp
  qed
  have "agrees (gs_get G s') {j. \<not> has_dependencies G s' j}
      (p\<lparr>p_storage := s', current_gas := saturating_add (current_gas p) (tx_max_gas ?tx),
         current_bytes_size := saturating_add (current_bytes_size p) (metered_bytes_size ?tx),
         tx_id_to_storage_id := (tx_id ?tx, i) # remove_id (tx_id ?tx) (tx_id_to_storage_id p),
         p_collisions := on_stored_transaction (p_collisions p) i ?tx, p_selection := xs\<rparr>)"
    by (rule agrees_view [OF agr' [OF xs(1)] view])
  moreover have "stored_ok (gs_get G s')" by (rule view_same(4) [OF view ok'])
  ultimately show ?thesis
    using st xs(2) pool_invD(4) [OF inv]
    by (intro exI [of _ "the (store_checked G p ct now)"] exI [of _ i])
      (simp add: store_checked_def pool_inv_def agrees_def notify_executable_def Let_def tx split: if_splits)
qed

end

subsection \<open>Checks of an insertion\<close>

lemma and_then_Inr: "and_then m f = Some (Inr y) \<longleftrightarrow> (\<exists>x. m = Some (Inr x) \<and> f x = Some (Inr y))"
  by (auto simp: and_then_def split: option.splits sum.splits)

lemma and_then_None: "and_then m f = None \<longleftrightarrow> m = None \<or> (\<exists>x. m = Some (Inr x) \<and> f x = None)"
  by (auto simp: and_then_def split: option.splits sum.splits)

lemma map_err_Inr [simp]: "map_err g r = Inr x \<longleftrightarrow> r = Inr x"
  by (cases r) (simp_all add: map_err_def)

lemma map_option_map_err_Inr [simp]: "map_option (map_err g) m = Some (Inr x) \<longleftrightarrow> m = Some (Inr x)"
  by (cases m) simp_all

lemma validate_inputs_loop_returns:
  "\<forall>inp. v inp \<noteq> None \<Longrightarrow> validate_inputs_loop v missing inps \<noteq> None"
proof (induction inps arbitrary: missing)
  case (Cons inp inps)
  then obtain r where r: "v inp = Some r" by fastforce
  note rest = Cons.IH [OF Cons.prems]
  show ?case
  proof (cases r)
    case (Inr m)
    then show ?thesis using r rest by (cases m) simp_all
  qed (simp add: r)
qed simp

lemma validate_inputs_returns:
  assumes "storage_inv G s"
  shows "validate_inputs G s tx ps eo uv \<noteq> None"
  unfolding validate_inputs_def
proof (intro validate_inputs_loop_returns allI)
  fix inp
  have found: "output_at (sd_transaction d) (snd u) \<noteq> None"
    if "gs_coins_creators s u = Some n" "node_weight G (gs_graph s) n = Some d" for u n d
  proof -
    have "creators_exact (gs_coins_creators s) (\<lambda>tx u. creates_coin tx u \<noteq> None) (gs_get G s)"
      using assms by (simp add: storage_inv_def)
    then have "creates_coin (sd_transaction d) u \<noteq> None"
      using that unfolding creators_exact_def gs_get_def by (metis option.sel)
    then show ?thesis
      by (cases "output_at (sd_transaction d) (snd u)") (auto simp: creates_coin_def split: if_splits)
  qed
  show "validate_input G s ps eo uv inp \<noteq> None"
    by (auto dest: found simp: validate_input_def validate_coin_def validate_message_def validate_contract_def
        coin_matches_input_def message_matches_input_def
        split: input_kind.splits option.splits sum.splits bool.splits)
qed

lemma find_space_None:
  "(case space of EnoughSpace \<Rightarrow> Some (Inr []) | NotEnoughSpace left \<Rightarrow> map_option g (f left)) = None \<longleftrightarrow>
     (\<exists>left. space = NotEnoughSpace left \<and> f left = None)"
  by (cases space) simp_all

lemma free_space_loop_returns:
  assumes "\<forall>i d. get i = Some d \<longrightarrow> dependents_cumulative_gas d \<noteq> 0"
  shows "free_space_loop lims get deps r left rs sorted_txs \<noteq> None"
proof (induction sorted_txs arbitrary: left rs)
  case (Cons i sorted_txs)
  show ?case
  proof (cases "get i")
    case None
    then show ?thesis using Cons.IH by simp
  next
    case (Some d)
    then have "dependents_cumulative_gas d \<noteq> 0" using assms by blast
    then show ?thesis using Cons.IH Some by (simp add: ratio_new_def)
  qed
qed simp

lemma free_space_loop_set:
  "free_space_loop lims get deps r left rs sorted_txs = Some (Inr rs') \<Longrightarrow>
     set rs' \<subseteq> set rs \<union> (set sorted_txs - set deps)"
proof (induction lims get deps r left rs sorted_txs rule: free_space_loop.induct)
  case (2 lims get deps r left rs i sorted_txs)
  then show ?case
    by (auto split: if_splits option.splits simp del: not_less)
qed (auto split: if_splits)

context stable_digraph
begin

lemma cumulative_gas_positive:
  assumes "storage_inv G s" "stored_ok (gs_get G s)" "gs_get G s n = Some d"
  shows "dependents_cumulative_gas d \<noteq> 0"
proof -
  let ?E = "edges G (gs_graph s)"
  have "exact_total (gs_get G s) ?E own_gas dependents_cumulative_gas"
    using assms(1) by (simp add: storage_inv_def totals_exact_def)
  then have "unat (dependents_cumulative_gas d) = (\<Sum>m\<in>down ?E n. unat (own_gas (the (gs_get G s m))))"
    by (rule exact_totalD) (rule assms(3))
  also have "\<dots> \<ge> unat (own_gas (the (gs_get G s n)))"
    using finite_down_node [of "gs_graph s" n] by (intro member_le_sum) (auto simp: down_def)
  finally show ?thesis
    using stored_okD(1) [OF assms(2,3)] assms(3) by (metis le_zero_eq option.sel unat_0 unat_eq_zero)
qed

lemma check_collisions_returns:
  assumes "pool_inv G p" "find_collisions (p_collisions p) tx = Inr cs" "tx_max_gas tx \<noteq> 0"
  shows "check_collision_requirements (gs_get G (p_storage p)) cs tx deps \<noteq> None"
proof -
  have "cm_integrity (p_collisions p) (txs_of (gs_get G (p_storage p)))"
    using pool_invD(3) [OF assms(1)] by (simp add: agrees_def)
  then have "fst ` set cs = conflicting (txs_of (gs_get G (p_storage p))) tx"
    by (rule find_collisions_conflicting) (rule assms(2))
  then have "\<exists>d. gs_get G (p_storage p) i = Some d" if "i \<in> fst ` set cs" for i
    using that by (auto simp: conflicting_def txs_of_def)
  then have "\<forall>i\<in>fst ` set cs. \<exists>d. gs_get G (p_storage p) i = Some d \<and> dependents_cumulative_gas d \<noteq> 0"
    using cumulative_gas_positive [OF pool_invD(1,2) [OF assms(1)]] by blast
  from check_collisions_better_iff [OF assms(3) this] show ?thesis
    by (simp add: check_collision_requirements_def)
qed

lemma can_insert_returns:
  assumes "pool_inv G p"
  shows "can_insert_transaction G p tx ps \<noteq> None"
proof (cases "tx_max_gas tx = 0 \<or> pool_contains p (tx_id tx)")
  case True
  then show ?thesis by (auto simp: can_insert_transaction_def)
next
  case False
  have space: "find_free_space G p left ct \<noteq> None" if "ct_tx ct = tx" for left ct
  proof -
    obtain r where "ratio_new (tx_tip tx) (tx_max_gas tx) = Some r" using False by (simp add: ratio_new_def)
    moreover have "\<forall>i d. gs_get G (p_storage p) i = Some d \<longrightarrow> dependents_cumulative_gas d \<noteq> 0"
      using cumulative_gas_positive [OF pool_invD(1,2) [OF assms]] by blast
    note free_space_loop_returns [OF this, of "limits (p_config p)" "all_dependencies ct" r left "[]"]
    ultimately show ?thesis using that by (simp add: find_free_space_def)
  qed
  have ct: "ct_tx ct = tx" if "can_store_transaction G (p_storage p) tx = Inr ct" for ct
    using can_store_checked [OF pool_invD(1) [OF assms] that] by simp
  show ?thesis
  proof
    assume "can_insert_transaction G p tx ps = None"
    then have "validate_inputs G (p_storage p) tx ps (p_extracted p) (utxo_validation (p_config p)) = None
        \<or> (\<exists>cs deps. find_collisions (p_collisions p) tx = Inr cs
             \<and> check_collision_requirements (gs_get G (p_storage p)) cs tx deps = None)
        \<or> (\<exists>ct left. can_store_transaction G (p_storage p) tx = Inr ct \<and> find_free_space G p left ct = None)"
      using False unfolding can_insert_transaction_def
      by (simp add: and_then_None find_space_None split: if_splits) blast
    then show False
      using False validate_inputs_returns [OF pool_invD(1) [OF assms]] check_collisions_returns [OF assms]
        space ct by blast
  qed
qed

end

subsection \<open>The insertion itself\<close>

lemma update_stats_simps [simp]:
  "p_storage (update_stats p) = p_storage p" "p_config (update_stats p) = p_config p"
  "p_extracted (update_stats p) = p_extracted p" "tx_id_to_storage_id (update_stats p) = tx_id_to_storage_id p"
  "agrees w I (update_stats p) = agrees w I p" "pool_inv G (update_stats p) = pool_inv G p"
  by (simp_all add: update_stats_def agrees_def pool_inv_def)

lemma notify_executable_simps [simp]:
  "p_storage (notify_executable p) = p_storage p" "p_config (notify_executable p) = p_config p"
  "p_extracted (notify_executable p) = p_extracted p" "tx_id_to_storage_id (notify_executable p) = tx_id_to_storage_id p"
  "agrees w I (notify_executable p) = agrees w I p" "pool_inv G (notify_executable p) = pool_inv G p"
  by (simp_all add: notify_executable_def agrees_def pool_inv_def)

lemma find_free_space_set:
  "find_free_space G p left ct = Some (Inr rs) \<Longrightarrow> set rs \<inter> set (all_dependencies ct) = {}"
  unfolding find_free_space_def
  by (auto simp: bind_eq_Some_conv dest!: free_space_loop_set)

lemma can_insert_Inr:
  assumes "can_insert_transaction G p tx ps = Some (Inr cs)"
  shows "tx_max_gas tx \<noteq> 0" "\<not> pool_contains p (tx_id tx)"
    "check_blacklisting (pool_config.black_list (p_config p)) tx = Inr ()"
    "find_collisions (p_collisions p) tx = Inr (cs_collisions cs)"
    "can_store_transaction G (p_storage p) tx = Inr (cs_checked_transaction cs)"
    "fst ` set (cs_collisions cs) \<inter> set (all_dependencies (cs_checked_transaction cs)) = {}"
    "set (cs_transactions_to_remove cs) \<inter> set (all_dependencies (cs_checked_transaction cs)) = {}"
    "check_collision_requirements (gs_get G (p_storage p)) (cs_collisions cs) tx
       (all_dependencies (cs_checked_transaction cs) \<noteq> []) = Some (Inr ())"
proof -
  have space: "set rs \<inter> set (all_dependencies ct) = {}"
    if "(case space of EnoughSpace \<Rightarrow> Some (Inr [])
         | NotEnoughSpace left \<Rightarrow> map_option (map_err InsertionError) (find_free_space G p left ct)) = Some (Inr rs)"
    for space ct rs
    using that by (cases space) (simp_all add: find_free_space_set)
  obtain ct space where ct: "tx_max_gas tx \<noteq> 0" "\<not> pool_contains p (tx_id tx)"
      "check_blacklisting (pool_config.black_list (p_config p)) tx = Inr ()"
      "find_collisions (p_collisions p) tx = Inr (cs_collisions cs)"
      "can_store_transaction G (p_storage p) tx = Inr ct" "ct = cs_checked_transaction cs"
      "fst ` set (cs_collisions cs) \<inter> set (all_dependencies ct) = {}"
      "(case space of EnoughSpace \<Rightarrow> Some (Inr [])
         | NotEnoughSpace left \<Rightarrow> map_option (map_err InsertionError) (find_free_space G p left ct)) =
         Some (Inr (cs_transactions_to_remove cs))"
      "check_collision_requirements (gs_get G (p_storage p)) (cs_collisions cs) tx (all_dependencies ct \<noteq> []) =
         Some (Inr ())"
    using assms unfolding can_insert_transaction_def
    by (simp add: and_then_Inr split: if_splits) auto
  note space [OF ct(8)]
  with ct show "tx_max_gas tx \<noteq> 0" "\<not> pool_contains p (tx_id tx)"
    "check_blacklisting (pool_config.black_list (p_config p)) tx = Inr ()"
    "find_collisions (p_collisions p) tx = Inr (cs_collisions cs)"
    "can_store_transaction G (p_storage p) tx = Inr (cs_checked_transaction cs)"
    "fst ` set (cs_collisions cs) \<inter> set (all_dependencies (cs_checked_transaction cs)) = {}"
    "set (cs_transactions_to_remove cs) \<inter> set (all_dependencies (cs_checked_transaction cs)) = {}"
    "check_collision_requirements (gs_get G (p_storage p)) (cs_collisions cs) tx
       (all_dependencies (cs_checked_transaction cs) \<noteq> []) = Some (Inr ())"
    by blast+
qed

lemma up_closed:
  assumes "x \<in> down E n" "x \<in> up E q"
  shows "n \<in> up E q"
  using assms unfolding up_def down_def by (auto intro: rtrancl_trans)

lemma removed_dependencies:
  assumes "checked_ok G s ct" "A \<subseteq> (\<Union>n\<in>N. down (edges G (gs_graph s)) n)" "N \<inter> set (all_dependencies ct) = {}"
  shows "set (all_dependencies ct) \<inter> A = {}"
proof -
  have all: "set (all_dependencies ct) = (\<Union>q\<in>set (direct_dependencies ct). up (edges G (gs_graph s)) q)"
    using assms(1) by (simp add: checked_ok_def)
  have "n \<in> set (all_dependencies ct)" if "x \<in> set (all_dependencies ct)" "x \<in> down (edges G (gs_graph s)) n" for x n
    using that up_closed [of x "edges G (gs_graph s)" n] unfolding all by blast
  then show ?thesis using assms(2,3) by blast
qed

lemma fresh_id_restrict: "fresh_id w t \<Longrightarrow> txs_of w' = txs_of w |` A \<Longrightarrow> fresh_id w' t"
proof -
  assume fresh: "fresh_id w t" and txs: "txs_of w' = txs_of w |` A"
  have "tx_id (sd_transaction d) \<noteq> t" if "w' i = Some d" for i d
  proof -
    have "txs_of w i = Some (sd_transaction d)"
      using that fun_cong [OF txs, of i] by (simp add: txs_of_def restrict_map_def split: if_splits)
    then obtain e where e: "w i = Some e" "sd_transaction e = sd_transaction d" by (auto simp: txs_of_def)
    have "tx_id (sd_transaction e) \<noteq> t" using fresh e(1) by (simp add: fresh_id_def)
    then show ?thesis using e(2) by simp
  qed
  then show ?thesis by (simp add: fresh_id_def)
qed

definition inserted ::
    "('g, 'n) digraph \<Rightarrow> ('g, 'n) pool \<Rightarrow> pool_tx \<Rightarrow> instant \<Rightarrow> pool_tx list \<Rightarrow> ('g, 'n) pool \<Rightarrow> bool" where
  "inserted G p tx now removed p' \<longleftrightarrow>
     (\<exists>is i. distinct is \<and> list_all2 (\<lambda>i t. txs_of (gs_get G (p_storage p)) i = Some t) is removed
        \<and> (gs_get G (p_storage p) i = None \<or> i \<in> set is)
        \<and> tx_view (gs_get G (p_storage p')) = (tx_view (gs_get G (p_storage p)) |` (- set is))(i \<mapsto> (tx, now))
        \<and> conflicting (txs_of (gs_get G (p_storage p))) tx \<subseteq> set is)"

context stable_digraph
begin

text \<open>The removals before the new transaction is stored: what it conflicts with is gone, and what it
  depends on is still there.\<close>

lemma removals_before_insertion:
  assumes inv: "pool_inv G p" and can: "can_insert_transaction G p tx ps = Some (Inr cs)"
  shows "\<exists>p1 ds1 p2 ds2 is. remove_subtrees G p (cs_transactions_to_remove cs) = Some (p1, ds1)
    \<and> remove_subtrees G p1 (map fst (cs_collisions cs)) = Some (p2, ds2)
    \<and> removal G p is (map sd_transaction (ds1 @ ds2)) p2
    \<and> conflicting (txs_of (gs_get G (p_storage p))) tx \<subseteq> set is
    \<and> set is \<subseteq> (\<Union>n\<in>set (cs_transactions_to_remove cs) \<union> fst ` set (cs_collisions cs).
         down (edges G (gs_graph (p_storage p))) n)"
proof -
  let ?w = "gs_get G (p_storage p)" and ?E = "edges G (gs_graph (p_storage p))"
  have "cm_integrity (p_collisions p) (txs_of ?w)"
    using pool_invD(3) [OF inv] by (simp add: agrees_def)
  then have conf: "fst ` set (cs_collisions cs) = conflicting (txs_of ?w) tx"
    by (rule find_collisions_conflicting [OF _ can_insert_Inr(4) [OF can]])
  obtain p1 is1 ds1 where r1: "remove_subtrees G p (cs_transactions_to_remove cs) = Some (p1, ds1)"
      "removal G p is1 (map sd_transaction ds1) p1" "set is1 \<subseteq> (\<Union>n\<in>set (cs_transactions_to_remove cs). down ?E n)"
    using remove_subtrees_inv [OF inv] by blast
  have inv1: "pool_inv G p1" using r1(2) by (simp add: removal_def)
  obtain p2 is2 ds2 where r2: "remove_subtrees G p1 (map fst (cs_collisions cs)) = Some (p2, ds2)"
      "removal G p1 is2 (map sd_transaction ds2) p2"
      "set (map fst (cs_collisions cs)) \<inter> dom (gs_get G (p_storage p1)) \<subseteq> set is2"
      "set is2 \<subseteq> (\<Union>n\<in>set (map fst (cs_collisions cs)). down (edges G (gs_graph (p_storage p1))) n)"
    using remove_subtrees_inv [OF inv1] by blast
  have "edges G (gs_graph (p_storage p1)) \<subseteq> ?E" using r1(2) by (auto simp: removal_def restrict_edges_def)
  from down_mono [OF this] have "set is2 \<subseteq> (\<Union>n\<in>fst ` set (cs_collisions cs). down ?E n)"
    using r2(4) by fastforce
  then have "set (is1 @ is2) \<subseteq> (\<Union>n\<in>set (cs_transactions_to_remove cs) \<union> fst ` set (cs_collisions cs). down ?E n)"
    using r1(3) by auto
  moreover have "i \<in> set (is1 @ is2)" if i: "i \<in> conflicting (txs_of ?w) tx" for i
  proof -
    have "i \<in> dom ?w" using i by (auto simp: conflicting_def txs_of_def)
    then show ?thesis using i r2(3) removal_stored [OF r1(2), of i] unfolding conf [symmetric] by auto
  qed
  ultimately show ?thesis
    using r1(1) r2(1) removal_trans [OF r1(2) r2(2)]
    by (intro exI [of _ p1] exI [of _ ds1] exI [of _ p2] exI [of _ ds2] exI [of _ "is1 @ is2"]) (simp add: subsetI)
qed

lemma insert_inner_inv:
  assumes inv: "pool_inv G p" and wf: "wf_tx tx" and fits: "totals_fit (gs_get G (p_storage p)) tx"
  shows "\<exists>p' r. insert_inner G p tx ps now = Some (p', r) \<and> pool_inv G p' \<and> p_config p' = p_config p
    \<and> (case r of Inl e \<Rightarrow> p' = p | Inr removed \<Rightarrow> inserted G p tx now removed p')"
proof -
  obtain r where r: "can_insert_transaction G p tx ps = Some r"
    using can_insert_returns [OF inv, of tx ps] by blast
  show ?thesis
  proof (cases r)
    case (Inl e)
    then show ?thesis using r inv by (simp add: insert_inner_def)
  next
    case (Inr cs)
    let ?w = "gs_get G (p_storage p)" and ?ct = "cs_checked_transaction cs"
    note can = can_insert_Inr [OF r [unfolded Inr]]
    have ct: "checked_ok G (p_storage p) ?ct" "ct_tx ?ct = tx"
      using can_store_checked [OF pool_invD(1) [OF inv] can(5)] by simp_all
    obtain p1 ds1 p2 ds2 "is" where rm: "remove_subtrees G p (cs_transactions_to_remove cs) = Some (p1, ds1)"
        "remove_subtrees G p1 (map fst (cs_collisions cs)) = Some (p2, ds2)"
        "removal G p is (map sd_transaction (ds1 @ ds2)) p2" "conflicting (txs_of ?w) tx \<subseteq> set is"
        "set is \<subseteq> (\<Union>n\<in>set (cs_transactions_to_remove cs) \<union> fst ` set (cs_collisions cs).
           down (edges G (gs_graph (p_storage p))) n)"
      using removals_before_insertion [OF inv r [unfolded Inr]] by blast
    let ?w2 = "gs_get G (p_storage p2)"
    have inv2: "pool_inv G p2" and view: "tx_view ?w2 = tx_view ?w |` (- set is)"
        and E2: "edges G (gs_graph (p_storage p2)) = restrict_edges (edges G (gs_graph (p_storage p))) (set is)"
        and conf2: "p_config p2 = p_config p"
      using rm(3) by (simp_all add: removal_def)
    have txs2: "txs_of ?w2 = txs_of ?w |` (- set is)"
      by (auto simp: fun_eq_iff txs_of_view view restrict_map_def)
    have deps: "set (all_dependencies ?ct) \<inter> set is = {}"
      by (rule removed_dependencies [OF ct(1) rm(5)]) (use can(6,7) in blast)
    have ok2: "checked_ok G (p_storage p2) ?ct"
      by (rule checked_ok_removal [OF ct(1) deps E2])
        (use removal_stored [OF rm(3)] pool_invD(4) [OF inv] pool_invD(4) [OF inv2] conf2 in auto)
    have ids: "index_exact ?w (tx_id_to_storage_id p)" using pool_invD(3) [OF inv] by (simp add: agrees_def)
    have fresh: "fresh_id ?w2 (tx_id tx)"
      using can(2) index_exact_fresh [OF ids] fresh_id_restrict [OF _ txs2] by (simp add: pool_contains_def)
    have free: "conflicting (txs_of ?w2) tx = {}"
      unfolding txs2 basic.conflicting_restrict using rm(4) by blast
    obtain p3 i where p3: "store_checked G p2 ?ct now = Some p3" "pool_inv G p3" "?w2 i = None"
        "tx_view (gs_get G (p_storage p3)) = (tx_view ?w2)(i \<mapsto> (tx, now))" "p_config p3 = p_config p2"
      using store_checked_inv [OF inv2 ok2, of now] wf totals_fit_view [OF fits finite_stored view] can(1) fresh free
      unfolding ct(2) by blast
    have "inserted G p tx now (map sd_transaction (ds1 @ ds2)) (update_stats p3)"
      unfolding inserted_def
      by (intro exI [of _ "is"] exI [of _ i])
        (use rm(3,4) p3(3,4) view removal_stored [OF rm(3), of i] in \<open>auto simp: removal_def\<close>)
    then show ?thesis
      using r Inr rm(1,2) p3(1,2,5) conf2 by (simp add: insert_inner_def)
  qed
qed

end

section \<open>Removal by id, extraction\<close>

text \<open>Dropping an id from the index ahead of the removal of its transaction changes nothing else.\<close>

definition drop_id :: "tx_id \<Rightarrow> ('g, 'n) pool \<Rightarrow> ('g, 'n) pool" where
  "drop_id t p = p\<lparr>tx_id_to_storage_id := remove_id t (tx_id_to_storage_id p)\<rparr>"

lemma remove_id_commute: "remove_id t (remove_id u ids) = remove_id u (remove_id t ids)"
  by (simp add: remove_id_def conj_commute)

lemma on_removal_drop: "on_removal (drop_id t p) d = map_option (drop_id t) (on_removal p d)"
  by (cases "selection_on_removed (p_selection p) d")
    (simp_all add: on_removal.simps drop_id_def Let_def remove_id_commute [of "tx_id (sd_transaction d)"])

lemma update_components_drop:
  "update_components_and_caches_on_removal (drop_id t p) ds =
     map_option (drop_id t) (update_components_and_caches_on_removal p ds)"
proof (induction ds arbitrary: p)
  case (Cons d ds)
  then show ?case by (cases "on_removal p d") (simp_all add: on_removal_drop)
qed simp

lemma remove_subtree_drop:
  "remove_subtree G (drop_id t p) i = map_option (\<lambda>(p, ds). (drop_id t p, ds)) (remove_subtree G p i)"
proof (cases "remove_transaction_and_dependents_subtree G (p_storage p) i")
  case (Some r)
  obtain s ds where r: "r = (s, ds)" by (cases r)
  have swap: "(drop_id t p)\<lparr>p_storage := s\<rparr> = drop_id t (p\<lparr>p_storage := s\<rparr>)" by (simp add: drop_id_def)
  have "p_storage (drop_id t p) = p_storage p" by (simp add: drop_id_def)
  then show ?thesis
    using Some r by (simp add: remove_subtree_def swap update_components_drop option.map_comp comp_def)
qed (simp add: remove_subtree_def drop_id_def)

lemma drop_id_absent: "index_exact w (tx_id_to_storage_id p) \<Longrightarrow> fresh_id w t \<Longrightarrow> drop_id t p = p"
proof -
  assume ids: "index_exact w (tx_id_to_storage_id p)" and fresh: "fresh_id w t"
  have "t \<notin> fst ` set (tx_id_to_storage_id p)"
    using index_exact_fresh [OF ids] fresh by (simp add: map_of_eq_None_iff)
  then have "remove_id t (tx_id_to_storage_id p) = tx_id_to_storage_id p"
    unfolding remove_id_def by (intro filter_True) force
  then show ?thesis by (simp add: drop_id_def)
qed

lemma pool_inv_index: "pool_inv G p \<Longrightarrow> index_exact (gs_get G (p_storage p)) (tx_id_to_storage_id p)"
  by (simp add: pool_inv_def agrees_def)

lemma removal_fresh:
  assumes "removal G p is txs p'" "pool_inv G p" "gs_get G (p_storage p) i = Some d" "i \<in> set is"
  shows "fresh_id (gs_get G (p_storage p')) (tx_id (sd_transaction d))"
  unfolding fresh_id_def
proof (intro allI impI notI)
  fix j e
  assume e: "gs_get G (p_storage p') j = Some e" "tx_id (sd_transaction e) = tx_id (sd_transaction d)"
  have view: "tx_view (gs_get G (p_storage p')) = tx_view (gs_get G (p_storage p)) |` (- set is)"
    using assms(1) by (simp add: removal_def)
  obtain e' where e': "gs_get G (p_storage p) j = Some e'" "sd_transaction e' = sd_transaction e" "j \<notin> set is"
    using fun_cong [OF view, of j] e(1)
    by (cases "gs_get G (p_storage p) j") (auto simp: tx_view_def restrict_map_def split: if_splits)
  have "j = i"
    using stored_okD(2) [OF pool_invD(2) [OF assms(2)] e'(1) assms(3)] e(2) e'(2) by simp
  then show False using e'(3) assms(4) by simp
qed

context stable_digraph
begin

lemma remove_ids_inv:
  "pool_inv G p \<Longrightarrow> \<exists>p' is ds. remove_ids_and_dependents G p ts = Some (p', ds)
    \<and> removal G p is (map sd_transaction ds) p' \<and> (\<forall>t\<in>set ts. \<not> pool_contains p' t)"
proof (induction ts arbitrary: p)
  case Nil
  then show ?case using removal_refl [OF Nil] by (intro exI [of _ p] exI [of _ "[]"]) simp
next
  case (Cons t ts)
  note ids = pool_inv_index [OF Cons.prems]
  obtain p1 is1 ds1 where r1: "removal G p is1 (map sd_transaction ds1) p1"
      "fresh_id (gs_get G (p_storage p1)) t"
      "remove_ids_and_dependents G p (t # ts) =
         map_option (\<lambda>(p, more). (p, ds1 @ more)) (remove_ids_and_dependents G p1 ts)"
  proof (cases "map_of (tx_id_to_storage_id p) t")
    case None
    then have "fresh_id (gs_get G (p_storage p)) t" using index_exact_fresh [OF ids] by simp
    then show thesis
      using that [of "[]" "[]" p] removal_refl [OF Cons.prems] None by (simp add: option.map_ident_strong prod.case_eq_if)
  next
    case (Some i)
    then obtain d where d: "gs_get G (p_storage p) i = Some d" "tx_id (sd_transaction d) = t"
      using index_exact_map_of [OF ids] by blast
    obtain p1 is1 ds1 where rm: "remove_subtree G p i = Some (p1, ds1)" "removal G p is1 (map sd_transaction ds1) p1"
        "set is1 = down (edges G (gs_graph (p_storage p))) i"
      using remove_subtree_inv [OF Cons.prems, of i] d(1) by auto
    have "i \<in> set is1" using rm(3) by (simp add: down_def)
    then have fresh: "fresh_id (gs_get G (p_storage p1)) t"
      using removal_fresh [OF rm(2) Cons.prems d(1)] d(2) by simp
    have "pool_inv G p1" using rm(2) by (simp add: removal_def)
    then have "drop_id t p1 = p1" by (rule drop_id_absent [OF pool_inv_index fresh])
    then have "remove_subtree G (drop_id t p) i = Some (p1, ds1)"
      using remove_subtree_drop [of G t p i] rm(1) by simp
    then show thesis using that [OF rm(2) fresh] Some by (simp add: drop_id_def)
  qed
  have "pool_inv G p1" using r1(1) by (simp add: removal_def)
  then obtain p2 is2 ds2 where r2: "remove_ids_and_dependents G p1 ts = Some (p2, ds2)"
      "removal G p1 is2 (map sd_transaction ds2) p2" "\<forall>t\<in>set ts. \<not> pool_contains p2 t"
    using Cons.IH by blast
  have "txs_of (gs_get G (p_storage p2)) = txs_of (gs_get G (p_storage p1)) |` (- set is2)"
    using r2(2) by (auto simp: removal_def fun_eq_iff txs_of_view restrict_map_def)
  then have fresh2: "fresh_id (gs_get G (p_storage p2)) t" by (rule fresh_id_restrict [OF r1(2)])
  have inv2: "pool_inv G p2" using r2(2) by (simp add: removal_def)
  have "\<not> pool_contains p2 t"
    using index_exact_fresh [OF pool_inv_index [OF inv2], of t] fresh2 by (simp add: pool_contains_def)
  then show ?case
    using r1(3) r2(1,3) removal_trans [OF r1(1) r2(2)]
    by (intro exI [of _ p2] exI [of _ "is1 @ is2"] exI [of _ "ds1 @ ds2"]) simp
qed

end

definition set_extracted :: "extracted_outputs \<Rightarrow> ('g, 'n) pool \<Rightarrow> ('g, 'n) pool" where
  "set_extracted eo p = p\<lparr>p_extracted := eo\<rparr>"

lemma set_extracted_agrees [simp]: "agrees w I (set_extracted eo p) = agrees w I p"
  "p_storage (set_extracted eo p) = p_storage p" "p_config (set_extracted eo p) = p_config p"
  "p_extracted (set_extracted eo p) = eo" "set_extracted eo' (set_extracted eo p) = set_extracted eo' p"
  by (simp_all add: set_extracted_def agrees_def)

lemma on_removal_extracted: "on_removal (set_extracted eo p) d = map_option (set_extracted eo) (on_removal p d)"
  by (cases "selection_on_removed (p_selection p) d") (simp_all add: on_removal.simps set_extracted_def Let_def)

lemma extract_all_eq:
  "p_extracted p = eo \<Longrightarrow>
   extract_all p ds =
     map_option (set_extracted (foldl new_extracted_transaction eo (map sd_transaction ds)))
       (update_components_and_caches_on_removal p ds)"
proof (induction ds arbitrary: p eo)
  case Nil
  then show ?case by (simp add: set_extracted_def)
next
  case (Cons d ds)
  let ?eo = "new_extracted_transaction eo (sd_transaction d)"
  show ?case
  proof (cases "on_removal p d")
    case None
    then show ?thesis
      using Cons.prems on_removal_extracted [of ?eo p d] by (simp add: set_extracted_def)
  next
    case (Some p1)
    have "update_components_and_caches_on_removal (set_extracted ?eo p1) ds =
        map_option (set_extracted ?eo) (update_components_and_caches_on_removal p1 ds)"
    proof (induction ds arbitrary: p1)
      case (Cons d ds)
      then show ?case by (cases "on_removal p1 d") (simp_all add: on_removal_extracted)
    qed simp
    then show ?thesis
      using Some Cons.prems on_removal_extracted [of ?eo p d] Cons.IH [of "set_extracted ?eo p1" ?eo]
      by (simp add: option.map_comp comp_def) (simp add: set_extracted_def [abs_def])
  qed
qed

context stable_digraph
begin

lemma extract_inv:
  assumes inv: "pool_inv G p"
  shows "\<exists>p' ds is. extract_transactions_for_block G p c = Some (p', map sd_transaction ds) \<and> pool_inv G p'
    \<and> distinct is \<and> list_all2 (\<lambda>i d. gs_get G (p_storage p) i = Some d) is ds
    \<and> gs_get G (p_storage p') = gs_get G (p_storage p) |` (- set is)
    \<and> in_order (edges G (gs_graph (p_storage p))) is \<and> within_constraints c ds
    \<and> (\<forall>i d. gs_get G (p_storage p') i = Some d \<longrightarrow> \<not> has_dependencies G (p_storage p') i \<longrightarrow>
          \<not> block_has_room_for c ds d)
    \<and> p_config p' = p_config p
    \<and> p_extracted p' = foldl new_extracted_transaction (p_extracted p) (map sd_transaction ds)"
proof -
  let ?s = "p_storage p" and ?w = "gs_get G (p_storage p)"
  have "selection_exact (graph_selection_storage G) (p_selection p) ?s"
    using pool_invD(3) [OF inv] by (simp add: selection_exact_covers agrees_def)
  then obtain xs' s' ds b "is" where g: "gather_best_txs (graph_selection_storage G) c (p_selection p) ?s = Some (xs', s', ds, b)"
      "storage_inv G s'" "selection_exact (graph_selection_storage G) xs' s'" "gs_get G s' = ?w |` (- set is)"
      "in_order (edges G (gs_graph ?s)) is" "distinct is" "list_all2 (\<lambda>i d. ?w i = Some d) is ds"
      "within_constraints c ds" "gs_max_txs_chain_count s' = gs_max_txs_chain_count ?s"
      "\<forall>i d. gs_get G s' i = Some d \<longrightarrow> \<not> has_dependencies G s' i \<longrightarrow> \<not> block_has_room_for c ds d"
    using graph_selection [OF pool_invD(1,2) [OF inv], of "p_selection p" c] by blast
  define p1 where "p1 = (if b then notify_executable (p\<lparr>p_selection := xs', p_storage := s'\<rparr>)
      else p\<lparr>p_selection := xs', p_storage := s'\<rparr>)"
  have p1: "p_storage p1 = s'" "p_config p1 = p_config p" "p_extracted p1 = p_extracted p"
    by (simp_all add: p1_def)
  let ?I = "{i. \<not> has_dependencies G s' i}"
  have "covers ?w (?I - set is) xs'"
  proof -
    have cov: "covers (?w |` (- set is)) ?I xs'" using g(3,4) by (simp add: selection_exact_covers)
    have "(k, i) \<in> set xs' \<longleftrightarrow> i \<in> ?I - set is \<and> (\<exists>d. ?w i = Some d \<and> selection_key d = Some k)" for k i
      using coversD [OF cov, of k i] by (auto simp: restrict_map_def split: if_splits)
    then show ?thesis using cov by (simp add: covers_def)
  qed
  then have "agrees ?w (?I - set is) p1"
    using pool_invD(3) [OF inv] by (simp add: p1_def agrees_def notify_executable_def)
  then obtain p2 where p2: "update_components_and_caches_on_removal p1 ds = Some p2"
      "agrees (?w |` (- set is)) (?I - set is - set is) p2" "same_rest p1 p2"
    using update_components_agrees [OF _ pool_invD(2) [OF inv] finite_stored g(7,6)] by blast
  have "agrees (gs_get G s') ?I p2"
    unfolding g(4) by (rule agrees_cong [OF p2(2)]) (auto simp: restrict_map_def split: if_splits)
  moreover have "stored_ok (gs_get G s')" unfolding g(4) by (rule stored_ok_restrict [OF pool_invD(2) [OF inv]])
  ultimately have inv2: "pool_inv G p2"
    using g(2,9) pool_invD(4) [OF inv] p2(3) p1 by (simp add: pool_inv_def same_rest_def)
  define p3 where "p3 = update_stats (set_extracted (foldl new_extracted_transaction (p_extracted p) (map sd_transaction ds)) p2)"
  have "extract_transactions_for_block G p c = Some (p3, map sd_transaction ds)"
    using g(1) extract_all_eq [OF p1(3), of ds] p2(1)
    by (simp add: extract_transactions_for_block_def Let_def p3_def flip: p1_def)
  moreover have "pool_inv G p3" using inv2 by (simp add: p3_def pool_inv_def)
  moreover have "p_storage p3 = s'" "p_config p3 = p_config p"
      "p_extracted p3 = foldl new_extracted_transaction (p_extracted p) (map sd_transaction ds)"
    using p2(3) p1 by (simp_all add: p3_def same_rest_def)
  ultimately show ?thesis
    using g(4-8,10) by (intro exI [of _ p3] exI [of _ ds] exI [of _ "is"]) simp
qed

end

section \<open>Blocks\<close>

text \<open>The transactions of a block come after the stored transactions they depend on.\<close>

definition block_in_order :: "('g, 'n) digraph \<Rightarrow> ('g, 'n) pool \<Rightarrow> tx_id list \<Rightarrow> bool" where
  "block_in_order G p ts \<longleftrightarrow>
     (\<forall>before t after i j d. ts = before @ t # after \<longrightarrow> map_of (tx_id_to_storage_id p) t = Some i \<longrightarrow>
        (j, i) \<in> edges G (gs_graph (p_storage p)) \<longrightarrow> gs_get G (p_storage p) j = Some d \<longrightarrow>
        tx_id (sd_transaction d) \<in> set before)"

definition without_ids :: "tx_id list \<Rightarrow> ('n \<rightharpoonup> storage_data) \<Rightarrow> ('n \<rightharpoonup> storage_data)" where
  "without_ids ts w i = (case w i of Some d \<Rightarrow> if tx_id (sd_transaction d) \<in> set ts then None else Some d | None \<Rightarrow> None)"

text \<open>The state while the transactions of a block are taken out: those that lost their last dependency
  are still to be promoted.\<close>

definition executed_state :: "('g, 'n) digraph \<Rightarrow> ('g, 'n) pool \<Rightarrow> 'n list \<Rightarrow> bool" where
  "executed_state G p js \<longleftrightarrow> storage_inv G (p_storage p) \<and> stored_ok (gs_get G (p_storage p))
     \<and> gs_max_txs_chain_count (p_storage p) = max_txs_chain_count (p_config p)
     \<and> agrees (gs_get G (p_storage p)) ({i. \<not> has_dependencies G (p_storage p) i} - set js) p
     \<and> distinct js \<and> (\<forall>j\<in>set js. gs_get G (p_storage p) j \<noteq> None \<longrightarrow> \<not> has_dependencies G (p_storage p) j)"

lemma executed_state_start: "pool_inv G p \<Longrightarrow> executed_state G p []"
  by (simp add: pool_inv_def executed_state_def)

lemma executed_state_extracted: "executed_state G (p\<lparr>p_extracted := eo\<rparr>) js = executed_state G p js"
  by (simp add: executed_state_def agrees_def)

context stable_digraph
begin

lemma promote_found_agrees:
  "agrees w J p \<Longrightarrow> gs_get G (p_storage p) = w \<Longrightarrow> stored_ok w \<Longrightarrow> distinct js \<Longrightarrow> set js \<inter> J = {} \<Longrightarrow>
   \<exists>p' b'. promote_found G p b js = Some (p', b') \<and> agrees w (J \<union> set js) p' \<and> same_rest p p'"
proof (induction js arbitrary: p J b)
  case (Cons j js)
  show ?case
  proof (cases "w j")
    case None
    then have "agrees w (insert j J) p"
      by (intro agrees_cong [OF Cons.prems(1)]) auto
    from Cons.IH [OF this Cons.prems(2,3)] Cons.prems(4,5) show ?thesis
      using None Cons.prems(2) by auto
  next
    case (Some d)
    have cov: "covers w J (p_selection p)" using Cons.prems(1) by (simp add: agrees_def)
    obtain xs where xs: "new_executable_transaction (p_selection p) j d = Some xs" "covers w (insert j J) xs"
      using covers_insert [OF cov Cons.prems(3) Some] Cons.prems(5) by auto
    have "agrees w (insert j J) (p\<lparr>p_selection := xs\<rparr>)"
      using Cons.prems(1) xs(2) by (simp add: agrees_def)
    then obtain p' b' where "promote_found G (p\<lparr>p_selection := xs\<rparr>) True js = Some (p', b')"
        "agrees w (insert j J \<union> set js) p'" "same_rest (p\<lparr>p_selection := xs\<rparr>) p'"
      using Cons.IH [of "insert j J" "p\<lparr>p_selection := xs\<rparr>" True] Cons.prems(2-5) by auto
    then show ?thesis using Some xs(1) Cons.prems(2) by (simp add: same_rest_def)
  qed
qed simp

lemma execute_one:
  assumes st: "executed_state G p js" and t: "map_of (tx_id_to_storage_id p) t = Some i"
    and free: "\<not> has_dependencies G (p_storage p) i"
  shows "\<exists>s' d p'. remove_transaction G (p_storage p) i = (s', Some d)
    \<and> update_components_and_caches_on_removal ((drop_id t p)\<lparr>p_storage := s'\<rparr>) [d] = Some p'
    \<and> executed_state G p' (js @ filter (\<lambda>j. \<not> has_dependencies G s' j) (get_direct_dependents G (p_storage p) i))
    \<and> p_storage p' = s' \<and> p_config p' = p_config p \<and> p_extracted p' = p_extracted p
    \<and> gs_get G s' = (gs_get G (p_storage p))(i := None) \<and> tx_id (sd_transaction d) = t
    \<and> gs_get G (p_storage p) i = Some d \<and> edges G (gs_graph s') = restrict_edges (edges G (gs_graph (p_storage p))) {i}"
proof -
  let ?s = "p_storage p" and ?w = "gs_get G (p_storage p)" and ?E = "edges G (gs_graph (p_storage p))"
  let ?I = "{i. \<not> has_dependencies G ?s i} - set js"
  have inv: "storage_inv G ?s" "stored_ok ?w" "gs_max_txs_chain_count ?s = max_txs_chain_count (p_config p)"
      "agrees ?w ?I p" "distinct js"
      and js: "\<And>j. j \<in> set js \<Longrightarrow> ?w j \<noteq> None \<Longrightarrow> \<not> has_dependencies G ?s j"
    using st by (auto simp: executed_state_def)
  have ids: "index_exact ?w (tx_id_to_storage_id p)" using inv(4) by (simp add: agrees_def)
  obtain d where d: "?w i = Some d" "tx_id (sd_transaction d) = t"
    using index_exact_map_of [OF ids] t by blast
  obtain s' where s': "remove_transaction G ?s i = (s', Some d)" "storage_inv G s'"
      "gs_get G s' = ?w(i := None)" "edges G (gs_graph s') = restrict_edges ?E {i}"
      "gs_max_txs_chain_count s' = gs_max_txs_chain_count ?s"
    using remove_executable_exact [OF inv(1) d(1) free] by blast
  have "agrees ?w ?I (p\<lparr>p_storage := s'\<rparr>)" using inv(4) by (simp add: agrees_def)
  then obtain p' where p': "on_removal (p\<lparr>p_storage := s'\<rparr>) d = Some p'" "agrees (?w(i := None)) (?I - {i}) p'"
      "same_rest (p\<lparr>p_storage := s'\<rparr>) p'"
    using on_removal_agrees [OF _ inv(2) finite_stored d(1)] by blast
  have ok': "stored_ok (?w(i := None))"
    using stored_ok_restrict [OF inv(2), of "- {i}"] by (simp add: restrict_complement_singleton_eq)
  have "fresh_id (?w(i := None)) t"
    unfolding fresh_id_def using stored_okD(2) [OF inv(2) d(1)] d(2) by (auto split: if_splits)
  moreover have "index_exact (?w(i := None)) (tx_id_to_storage_id p')" using p'(2) by (simp add: agrees_def)
  ultimately have "drop_id t p' = p'" by (intro drop_id_absent)
  moreover have "(drop_id t p)\<lparr>p_storage := s'\<rparr> = drop_id t (p\<lparr>p_storage := s'\<rparr>)" by (simp add: drop_id_def)
  ultimately have upd: "update_components_and_caches_on_removal ((drop_id t p)\<lparr>p_storage := s'\<rparr>) [d] = Some p'"
    using p'(1) by (simp add: on_removal_drop)
  define new where "new = filter (\<lambda>j. \<not> has_dependencies G s' j) (get_direct_dependents G ?s i)"
  have set_new: "set new = {j. (i, j) \<in> ?E \<and> \<not> has_dependencies G s' j}"
    by (auto simp: new_def get_direct_dependents_def set_outgoing)
  have has: "has_dependencies G ?s j \<longleftrightarrow> has_dependencies G s' j \<or> (i, j) \<in> ?E" if "j \<noteq> i" for j
    unfolding has_dependencies_iff s'(4) restrict_edges_def using that by blast
  have "agrees (?w(i := None)) ({j. \<not> has_dependencies G s' j} - set (js @ new)) p'"
  proof (rule agrees_cong [OF p'(2)])
    fix j e assume "(?w(i := None)) j = Some e"
    then have "j \<noteq> i" by auto
    then show "j \<in> ?I - {i} \<longleftrightarrow> j \<in> {j. \<not> has_dependencies G s' j} - set (js @ new)"
      using has [of j] unfolding set_append set_new by blast
  qed
  moreover have "distinct (js @ new)"
  proof -
    have "distinct new"
      using inv(1) by (simp add: new_def get_direct_dependents_def storage_inv_def graph_shape_def)
    moreover have "j \<notin> set new" if "j \<in> set js" for j
    proof
      assume "j \<in> set new"
      then have e: "(i, j) \<in> ?E" by (simp add: set_new)
      then have "?w j \<noteq> None" using edges_nodes [of "gs_graph ?s"] by (auto simp: gs_get_def)
      then show False using js [OF that] e by (auto simp: has_dependencies_iff)
    qed
    ultimately show ?thesis using inv(5) by auto
  qed
  moreover have "\<not> has_dependencies G s' j" if "j \<in> set (js @ new)" "(?w(i := None)) j \<noteq> None" for j
    using that js [of j] has [of j] by (auto simp: set_new split: if_splits)
  ultimately have "executed_state G p' (js @ new)"
    using s' ok' inv(3) p'(3) by (simp add: executed_state_def same_rest_def)
  then show ?thesis
    using s' upd p'(3) d unfolding new_def by (auto simp: same_rest_def)
qed

lemma block_in_order_head:
  assumes "block_in_order G p (t # ts)" "map_of (tx_id_to_storage_id p) t = Some i"
  shows "\<not> has_dependencies G (p_storage p) i"
proof
  assume "has_dependencies G (p_storage p) i"
  then obtain j where j: "(j, i) \<in> edges G (gs_graph (p_storage p))" by (auto simp: has_dependencies_iff)
  then obtain d where "gs_get G (p_storage p) j = Some d"
    using edges_nodes [of "gs_graph (p_storage p)"] by (auto simp: gs_get_def)
  then have "tx_id (sd_transaction d) \<in> set []"
    using assms j unfolding block_in_order_def by blast
  then show False by simp
qed

lemma block_in_order_tail:
  assumes "block_in_order G p (t # ts)"
    and ids: "index_exact (gs_get G (p_storage p)) (tx_id_to_storage_id p)"
      "index_exact (gs_get G (p_storage p')) (tx_id_to_storage_id p')"
    and w': "gs_get G (p_storage p') = without_ids [t] (gs_get G (p_storage p))"
    and E': "edges G (gs_graph (p_storage p')) \<subseteq> edges G (gs_graph (p_storage p))"
  shows "block_in_order G p' ts"
  unfolding block_in_order_def
proof (intro allI impI)
  fix before u after i j d
  assume u: "ts = before @ u # after" "map_of (tx_id_to_storage_id p') u = Some i"
    and j: "(j, i) \<in> edges G (gs_graph (p_storage p'))" "gs_get G (p_storage p') j = Some d"
  have stored: "gs_get G (p_storage p) k = Some e \<and> tx_id (sd_transaction e) \<noteq> t"
    if "gs_get G (p_storage p') k = Some e" for k e
    using that unfolding w' without_ids_def by (auto split: option.splits if_splits)
  obtain e where e: "gs_get G (p_storage p') i = Some e" "tx_id (sd_transaction e) = u"
    using index_exact_map_of [OF ids(2)] u(2) by blast
  then have "map_of (tx_id_to_storage_id p) u = Some i"
    using stored index_exact_map_of [OF ids(1)] by blast
  moreover have "t # ts = (t # before) @ u # after" using u(1) by simp
  ultimately have "tx_id (sd_transaction d) \<in> set (t # before)"
    using assms(1) j E' stored [OF j(2)] unfolding block_in_order_def by blast
  then show "tx_id (sd_transaction d) \<in> set before" using stored [OF j(2)] by simp
qed

lemma without_ids_Cons: "without_ids ts (without_ids [t] w) = without_ids (t # ts) w"
  by (auto simp: without_ids_def fun_eq_iff split: option.splits)

lemma process_executed_inv:
  "executed_state G p js \<Longrightarrow> block_in_order G p ts \<Longrightarrow>
   \<exists>p' js'. process_executed G p js ts = Some (p', js') \<and> executed_state G p' js'
     \<and> gs_get G (p_storage p') = without_ids ts (gs_get G (p_storage p))
     \<and> p_config p' = p_config p \<and> p_extracted p' = foldl new_executed_transaction (p_extracted p) ts"
proof (induction ts arbitrary: p js)
  case Nil
  then show ?case by (auto simp: without_ids_def fun_eq_iff split: option.splits)
next
  case (Cons t ts)
  let ?w = "gs_get G (p_storage p)"
  define p0 where "p0 = p\<lparr>p_extracted := new_executed_transaction (p_extracted p) t\<rparr>"
  have p0: "p_storage p0 = p_storage p" "p_config p0 = p_config p" "tx_id_to_storage_id p0 = tx_id_to_storage_id p"
      "p_extracted p0 = new_executed_transaction (p_extracted p) t" by (simp_all add: p0_def)
  have st0: "executed_state G p0 js" using Cons.prems(1) by (simp add: p0_def executed_state_extracted)
  have ids: "index_exact ?w (tx_id_to_storage_id p)" using Cons.prems(1) by (simp add: executed_state_def agrees_def)
  obtain p1 js1 where p1: "process_executed G p js (t # ts) = process_executed G p1 js1 ts" "executed_state G p1 js1"
      "gs_get G (p_storage p1) = without_ids [t] ?w" "p_config p1 = p_config p"
      "p_extracted p1 = new_executed_transaction (p_extracted p) t"
      "edges G (gs_graph (p_storage p1)) \<subseteq> edges G (gs_graph (p_storage p))"
  proof (cases "map_of (tx_id_to_storage_id p) t")
    case None
    then have "fresh_id ?w t" using index_exact_fresh [OF ids] by simp
    then have "?w = without_ids [t] ?w"
      by (auto simp: fresh_id_def without_ids_def fun_eq_iff split: option.splits)
    then show thesis using that [of p0 js] None st0 p0 by (simp add: p0_def)
  next
    case (Some i)
    have free: "\<not> has_dependencies G (p_storage p) i"
      by (rule block_in_order_head [OF Cons.prems(2) Some])
    obtain s' d p1 where e: "remove_transaction G (p_storage p0) i = (s', Some d)"
        "update_components_and_caches_on_removal ((drop_id t p0)\<lparr>p_storage := s'\<rparr>) [d] = Some p1"
        "executed_state G p1 (js @ filter (\<lambda>j. \<not> has_dependencies G s' j) (get_direct_dependents G (p_storage p0) i))"
        "p_storage p1 = s'" "p_config p1 = p_config p0" "p_extracted p1 = p_extracted p0"
        "gs_get G s' = (gs_get G (p_storage p0))(i := None)" "tx_id (sd_transaction d) = t" "gs_get G (p_storage p0) i = Some d"
        "edges G (gs_graph s') = restrict_edges (edges G (gs_graph (p_storage p0))) {i}"
      using execute_one [OF st0, of t i] Some free unfolding p0 by blast
    have ok: "stored_ok ?w" using Cons.prems(1) by (simp add: executed_state_def)
    have "(?w(i := None)) k = without_ids [t] ?w k" for k
    proof (cases "?w k")
      case (Some x)
      have "k = i" if "tx_id (sd_transaction x) = t"
        using stored_okD(2) [OF ok Some e(9) [unfolded p0]] that e(8) by simp
      then show ?thesis using Some e(8,9) unfolding p0 by (auto simp: without_ids_def)
    qed (simp add: without_ids_def)
    then have "gs_get G s' = without_ids [t] ?w" unfolding e(7) p0 by blast
    then show thesis
      using that [OF _ e(3)] Some e p0 unfolding restrict_edges_def
      by (auto simp: p0_def drop_id_def simp del: update_components_and_caches_on_removal.simps)
  qed
  have ids1: "index_exact (gs_get G (p_storage p1)) (tx_id_to_storage_id p1)"
    using p1(2) by (simp add: executed_state_def agrees_def)
  have "block_in_order G p1 ts"
    by (rule block_in_order_tail [OF Cons.prems(2) ids ids1 p1(3,6)])
  from Cons.IH [OF p1(2) this] show ?case
    using p1(1,3,4,5) without_ids_Cons [of ts t ?w] by auto
qed

lemma process_block_inv:
  assumes inv: "pool_inv G p" and ord: "block_in_order G p ts"
  shows "\<exists>p'. process_block G p ts = Some p' \<and> pool_inv G p'
    \<and> gs_get G (p_storage p') = without_ids ts (gs_get G (p_storage p))
    \<and> p_config p' = p_config p \<and> p_extracted p' = foldl new_executed_transaction (p_extracted p) ts"
proof -
  obtain p1 js where p1: "process_executed G p [] ts = Some (p1, js)" "executed_state G p1 js"
      "gs_get G (p_storage p1) = without_ids ts (gs_get G (p_storage p))" "p_config p1 = p_config p"
      "p_extracted p1 = foldl new_executed_transaction (p_extracted p) ts"
    using process_executed_inv [OF executed_state_start [OF inv] ord] by blast
  let ?w = "gs_get G (p_storage p1)" and ?J = "{i. \<not> has_dependencies G (p_storage p1) i} - set js"
  have st: "agrees ?w ?J p1" "stored_ok ?w" "distinct js"
      "\<forall>j\<in>set js. ?w j \<noteq> None \<longrightarrow> \<not> has_dependencies G (p_storage p1) j"
    using p1(2) by (simp_all add: executed_state_def)
  obtain p2 b where p2: "promote_found G p1 False js = Some (p2, b)" "agrees ?w (?J \<union> set js) p2" "same_rest p1 p2"
    using promote_found_agrees [OF st(1) refl st(2,3), of False] by blast
  have "agrees ?w {i. \<not> has_dependencies G (p_storage p1) i} p2"
    by (rule agrees_cong [OF p2(2)]) (use st(4) in auto)
  then have "pool_inv G p2"
    using p1(2) p2(3) by (simp add: pool_inv_def executed_state_def same_rest_def)
  then show ?thesis
    using p1 p2(1,3) by (simp add: process_block_def same_rest_def)
qed

end

end
