(* ===== verification/Tx_Pool_Integrity.thy ===== *)
theory Tx_Pool_Integrity
  imports Tx_Pool
begin

text \<open>The pools that the transaction pool can reach through its operations, and what holds of every one of
  them: the indices describe the stored transactions exactly, no two stored transactions use the same
  resource, the totals are exact, no operation panics, and each operation has the effect on the set of
  transaction ids that a client sees.\<close>

section \<open>Reachable pools\<close>

text \<open>The pools the service can reach: transactions come with at most \<open>2 ^ 16\<close> outputs, the totals of the
  pool fit into 64 bits, and blocks list transactions after those they depend on.\<close>

inductive pool_reachable :: "('g, 'n) digraph \<Rightarrow> pool_config \<Rightarrow> ('g, 'n) pool \<Rightarrow> bool"
  for G :: "('g, 'n) digraph" and config :: pool_config where
  start: "pool_reachable G config (pool_new G config)"
| insertion: "pool_reachable G config p \<Longrightarrow> wf_tx tx \<Longrightarrow> totals_fit (gs_get G (p_storage p)) tx \<Longrightarrow>
    pool_insert G p tx ps now = Some (p', r) \<Longrightarrow> pool_reachable G config p'"
| extraction: "pool_reachable G config p \<Longrightarrow> extract_transactions_for_block G p c = Some (p', txs) \<Longrightarrow>
    pool_reachable G config p'"
| block: "pool_reachable G config p \<Longrightarrow> block_in_order G p ts \<Longrightarrow> process_block G p ts = Some p' \<Longrightarrow>
    pool_reachable G config p'"
| removal_by_id: "pool_reachable G config p \<Longrightarrow> remove_transaction_and_dependents G p ts = Some (p', txs) \<Longrightarrow>
    pool_reachable G config p'"
| skipping: "pool_reachable G config p \<Longrightarrow> remove_skipped_transaction G p t = Some (p', txs) \<Longrightarrow>
    pool_reachable G config p'"

definition all_allowed :: "pool_config \<Rightarrow> ('n \<rightharpoonup> pool_tx) \<Rightarrow> bool" where
  "all_allowed config stored \<longleftrightarrow>
     (\<forall>i tx. stored i = Some tx \<longrightarrow> check_blacklisting (pool_config.black_list config) tx = Inr ())"

lemma txs_of_empty [simp]: "txs_of Map.empty = Map.empty"
  by (simp add: txs_of_def fun_eq_iff)

lemma all_allowed_subset:
  "all_allowed config stored \<Longrightarrow> (\<And>i tx. stored' i = Some tx \<Longrightarrow> stored i = Some tx) \<Longrightarrow> all_allowed config stored'"
  unfolding all_allowed_def by blast

lemma txs_of_restrict: "tx_view w' = tx_view w |` A \<Longrightarrow> txs_of w' i = Some tx \<Longrightarrow> txs_of w i = Some tx"
  by (auto simp: txs_of_view restrict_map_def split: if_splits)

lemma all_allowed_removal:
  "removal G p is txs p' \<Longrightarrow> all_allowed config (txs_of (gs_get G (p_storage p))) \<Longrightarrow>
     all_allowed config (txs_of (gs_get G (p_storage p')))"
  by (rule all_allowed_subset [of _ "txs_of (gs_get G (p_storage p))"]) (auto simp: removal_def intro: txs_of_restrict)

lemma insert_allowed:
  assumes "insert_inner G p tx ps now = Some (p', Inr removed)"
  shows "check_blacklisting (pool_config.black_list (p_config p)) tx = Inr ()"
  using assms can_insert_Inr(3) [of G p tx ps]
  by (auto simp: insert_inner_def split: option.splits sum.splits)

lemma all_allowed_inserted:
  assumes "inserted G p tx now removed p'" "all_allowed config (txs_of (gs_get G (p_storage p)))"
    and "check_blacklisting (pool_config.black_list config) tx = Inr ()"
  shows "all_allowed config (txs_of (gs_get G (p_storage p')))"
proof -
  obtain "is" i where v: "tx_view (gs_get G (p_storage p')) = (tx_view (gs_get G (p_storage p)) |` (- set is))(i \<mapsto> (tx, now))"
    using assms(1) unfolding inserted_def by blast
  have "check_blacklisting (pool_config.black_list config) a = Inr ()"
    if "txs_of (gs_get G (p_storage p')) j = Some a" for j a
  proof (cases "j = i")
    case True
    then show ?thesis using that assms(3) by (simp add: txs_of_view v)
  next
    case False
    then have "txs_of (gs_get G (p_storage p)) j = Some a"
      using that by (auto simp: txs_of_view v restrict_map_def split: if_splits)
    then show ?thesis using assms(2) by (simp add: all_allowed_def)
  qed
  then show ?thesis by (simp add: all_allowed_def)
qed

context stable_digraph
begin

lemma gs_get_new: "gs_get G (graph_storage_new G m) = Map.empty"
  by (auto simp: gs_get_def graph_storage_new_def weight_new)

lemma pool_inv_new: "pool_inv G (pool_new G config)"
proof -
  have sto: "p_storage (pool_new G config) = graph_storage_new G (max_txs_chain_count config)"
    and cfg: "p_config (pool_new G config) = config"
    and chain: "gs_max_txs_chain_count (graph_storage_new G m) = m" for m
    by (simp_all add: pool_new_def graph_storage_new_def)
  have "agrees Map.empty I (pool_new G config)" for I
    by (simp add: agrees_def pool_new_def cm_integrity_new index_exact_def stored_sum_def covers_def)
  then show ?thesis
    using storage_inv_new [of "max_txs_chain_count config"]
    by (simp add: pool_inv_def sto cfg chain gs_get_new stored_ok_def)
qed

lemma remove_transaction_and_dependents_inv:
  assumes "pool_inv G p"
  shows "\<exists>p' is txs. remove_transaction_and_dependents G p ts = Some (update_stats p', txs) \<and> removal G p is txs p'
    \<and> (\<forall>t\<in>set ts. \<not> pool_contains p' t)"
  using remove_ids_inv [OF assms, of ts] by (fastforce simp: remove_transaction_and_dependents_def)

lemma remove_skipped_inv:
  assumes inv: "pool_inv G p"
  shows "\<exists>p' is txs. remove_skipped_transaction G p t = Some (update_stats p', txs)
    \<and> removal G (p\<lparr>p_extracted := new_skipped_transaction (p_extracted p) t\<rparr>) is txs p'
    \<and> set (get_coins_spenders (p_collisions p) t) \<inter> dom (gs_get G (p_storage p)) \<subseteq> set is"
proof -
  let ?p = "p\<lparr>p_extracted := new_skipped_transaction (p_extracted p) t\<rparr>"
  have "pool_inv G ?p" using inv by (simp add: pool_inv_def agrees_def)
  from remove_subtrees_inv [OF this, of "get_coins_spenders (p_collisions p) t"] obtain p' ds "is"
    where "remove_subtrees G ?p (get_coins_spenders (p_collisions p) t) = Some (p', ds)"
      "removal G ?p is (map sd_transaction ds) p'"
      "set (get_coins_spenders (p_collisions p) t) \<inter> dom (gs_get G (p_storage p)) \<subseteq> set is"
    by auto
  then show ?thesis
    by (intro exI [of _ p'] exI [of _ "is"] exI [of _ "map sd_transaction ds"])
      (simp add: remove_skipped_transaction_def)
qed

lemma pool_reachable_inv:
  assumes "pool_reachable G config p"
  shows "pool_inv G p \<and> p_config p = config \<and> all_allowed config (txs_of (gs_get G (p_storage p)))"
  using assms
proof induction
  case start
  have "gs_get G (p_storage (pool_new G config)) = Map.empty" "p_config (pool_new G config) = config"
    by (simp add: pool_new_def gs_get_new) (simp add: pool_new_def)
  then show ?case using pool_inv_new by (simp add: all_allowed_def)
next
  case (insertion p tx ps now p' r)
  have "pool_inv G p' \<and> p_config p' = p_config p
      \<and> (case r of Inl e \<Rightarrow> p' = p | Inr removed \<Rightarrow> inserted G p tx now removed p')"
    using insert_inner_inv [of p tx ps now] insertion by (auto simp: pool_insert_def)
  then show ?case
    using insertion insert_allowed [of G p tx ps now p'] all_allowed_inserted [of G p tx now _ p' config]
    by (auto simp: pool_insert_def split: sum.splits)
next
  case (extraction p c p' txs)
  obtain ds "is" where e: "pool_inv G p'" "gs_get G (p_storage p') = gs_get G (p_storage p) |` (- set is)" "p_config p' = p_config p"
    using extract_inv [of p c] extraction by auto
  have "all_allowed config (txs_of (gs_get G (p_storage p')))"
    by (rule all_allowed_subset [of _ "txs_of (gs_get G (p_storage p))"], simp add: extraction.IH)
      (auto simp: e(2) txs_of_def restrict_map_def split: if_splits)
  then show ?case using e extraction.IH by simp
next
  case (block p ts p')
  have b: "pool_inv G p'" "gs_get G (p_storage p') = without_ids ts (gs_get G (p_storage p))" "p_config p' = p_config p"
    using process_block_inv [of p ts] block by auto
  have "all_allowed config (txs_of (gs_get G (p_storage p')))"
    by (rule all_allowed_subset [of _ "txs_of (gs_get G (p_storage p))"], simp add: block.IH)
      (auto simp: b(2) txs_of_def without_ids_def split: if_splits option.splits)
  then show ?case using b block.IH by simp
next
  case (removal_by_id p ts p' txs)
  obtain q "is" where q: "p' = update_stats q" "removal G p is txs q"
    using remove_transaction_and_dependents_inv [of p ts] removal_by_id by auto
  then show ?case
    using removal_by_id.IH all_allowed_removal [OF q(2)] by (auto simp: removal_def)
next
  case (skipping p t p' txs)
  obtain q "is" where q: "p' = update_stats q"
      "removal G (p\<lparr>p_extracted := new_skipped_transaction (p_extracted p) t\<rparr>) is txs q"
    using remove_skipped_inv [of p t] skipping by auto
  then show ?case
    using skipping.IH all_allowed_removal [OF q(2)] by (auto simp: removal_def)
qed

end

section \<open>What a client sees\<close>

lemma pool_contains_iff:
  "pool_inv G p \<Longrightarrow> pool_contains p t \<longleftrightarrow> (\<exists>i tx. txs_of (gs_get G (p_storage p)) i = Some tx \<and> tx_id tx = t)"
  using index_exact_fresh [of "gs_get G (p_storage p)" "tx_id_to_storage_id p" t]
  by (auto simp: pool_inv_def agrees_def pool_contains_def fresh_id_def txs_of_def)

lemma stored_same_id:
  "pool_inv G p \<Longrightarrow> txs_of (gs_get G (p_storage p)) i = Some a \<Longrightarrow> txs_of (gs_get G (p_storage p)) j = Some b \<Longrightarrow>
     tx_id a = tx_id b \<Longrightarrow> i = j"
  by (auto simp: pool_inv_def stored_ok_def txs_of_def)

lemma listed_at:
  assumes "list_all2 (\<lambda>i tx. W i = Some tx) is txs"
  shows "(\<exists>i\<in>set is. W i = Some tx) \<longleftrightarrow> tx \<in> set txs"
  using assms by (induction rule: list_all2_induct) auto

lemma listed_back:
  assumes "list_all2 (\<lambda>i tx. W i = Some tx) is txs" "i \<in> set is"
  obtains tx where "W i = Some tx" "tx \<in> set txs"
  using assms by (induction rule: list_all2_induct) auto

lemma kept_iff:
  assumes inv: "pool_inv G p"
    and at: "list_all2 (\<lambda>i tx. txs_of (gs_get G (p_storage p)) i = Some tx) is txs"
  shows "(\<exists>i a. i \<notin> set is \<and> txs_of (gs_get G (p_storage p)) i = Some a \<and> tx_id a = t) \<longleftrightarrow>
    pool_contains p t \<and> t \<notin> tx_id ` set txs"
proof -
  let ?W = "txs_of (gs_get G (p_storage p))"
  have "t \<notin> tx_id ` set txs" if "i \<notin> set is" "?W i = Some a" "tx_id a = t" for i a
  proof
    assume "t \<in> tx_id ` set txs"
    then obtain b j where "j \<in> set is" "?W j = Some b" "tx_id b = t"
      using listed_at [OF at] by blast
    with that show False using stored_same_id [OF inv] by metis
  qed
  moreover have "i \<notin> set is" if "?W i = Some a" "tx_id a = t" "t \<notin> tx_id ` set txs" for i a
  proof
    assume "i \<in> set is"
    with at obtain b where "?W i = Some b" "b \<in> set txs" by (rule listed_back)
    with that show False by auto
  qed
  ultimately show ?thesis unfolding pool_contains_iff [OF inv] by blast
qed

lemma listed_distinct:
  assumes inv: "pool_inv G p" and "distinct is"
    and "list_all2 (\<lambda>i tx. txs_of (gs_get G (p_storage p)) i = Some tx) is txs"
  shows "distinct (map tx_id txs)"
  using assms(3,2)
proof (induction rule: list_all2_induct)
  case (Cons k ks r rs)
  have "tx_id r \<noteq> tx_id b" if "b \<in> set rs" for b
    using that listed_at [OF Cons(2), of b] Cons(1,4) stored_same_id [OF inv, of k r _ b] by auto
  with Cons show ?case by auto
qed simp

lemma removal_contains:
  assumes "pool_inv G p" "removal G p is txs p'"
  shows "pool_contains p' t \<longleftrightarrow> pool_contains p t \<and> t \<notin> tx_id ` set txs"
proof -
  have "txs_of (gs_get G (p_storage p')) i = (if i \<in> set is then None else txs_of (gs_get G (p_storage p)) i)" for i
    using assms(2) by (simp add: removal_def txs_of_view restrict_map_def)
  then show ?thesis
    using assms kept_iff [OF assms(1), of "is" txs t] pool_contains_iff [of G p' t]
    by (auto simp: removal_def)
qed

lemma inserted_contains:
  assumes inv: "pool_inv G p" and inv': "pool_inv G p'" and ins: "inserted G p tx now removed p'"
  shows "pool_contains p' t \<longleftrightarrow> t = tx_id tx \<or> pool_contains p t \<and> t \<notin> tx_id ` set removed"
    and "txs_of (gs_get G (p_storage p)) j = Some a \<Longrightarrow> resources a \<inter> resources tx \<noteq> {} \<Longrightarrow> a \<in> set removed"
    and "distinct (map tx_id removed)"
proof -
  let ?W = "txs_of (gs_get G (p_storage p))" and ?W' = "txs_of (gs_get G (p_storage p'))"
  obtain "is" i where i: "distinct is" "list_all2 (\<lambda>i t. ?W i = Some t) is removed" "?W i = None \<or> i \<in> set is"
      "tx_view (gs_get G (p_storage p')) = (tx_view (gs_get G (p_storage p)) |` (- set is))(i \<mapsto> (tx, now))"
      "conflicting ?W tx \<subseteq> set is"
    using ins by (auto simp: inserted_def txs_of_def)
  have W': "?W' j = (if j = i then Some tx else if j \<in> set is then None else ?W j)" for j
    using i(4) by (simp add: txs_of_view restrict_map_def)
  have "(\<exists>j a. ?W' j = Some a \<and> tx_id a = t) \<longleftrightarrow>
      t = tx_id tx \<or> (\<exists>j a. j \<notin> set is \<and> ?W j = Some a \<and> tx_id a = t)"
    (is "?L \<longleftrightarrow> ?R")
  proof
    assume ?L
    then obtain j a where "?W' j = Some a" "tx_id a = t" by blast
    then show ?R by (cases "j = i") (auto simp: W' split: if_splits)
  next
    assume ?R
    then consider "t = tx_id tx" | j a where "j \<notin> set is" "?W j = Some a" "tx_id a = t" by blast
    then show ?L
    proof cases
      case 1
      then show ?thesis using W' [of i] by auto
    next
      case 2
      then have "?W' j = Some a" using i(3) by (auto simp: W')
      with 2 show ?thesis by blast
    qed
  qed
  then show "pool_contains p' t \<longleftrightarrow> t = tx_id tx \<or> pool_contains p t \<and> t \<notin> tx_id ` set removed"
    unfolding pool_contains_iff [OF inv'] kept_iff [OF inv i(2)] .
  show "a \<in> set removed" if "?W j = Some a" "resources a \<inter> resources tx \<noteq> {}"
  proof -
    have "j \<in> set is" using that i(5) by (auto simp: conflicting_def)
    with i(2) obtain b where "?W j = Some b" "b \<in> set removed" by (rule listed_back)
    with that show ?thesis by simp
  qed
  show "distinct (map tx_id removed)" using listed_distinct [OF inv i(1,2)] .
qed

lemma without_ids_contains:
  assumes "pool_inv G p" "pool_inv G p'" "gs_get G (p_storage p') = without_ids ts (gs_get G (p_storage p))"
  shows "pool_contains p' t \<longleftrightarrow> pool_contains p t \<and> t \<notin> set ts"
  unfolding pool_contains_iff [OF assms(1)] pool_contains_iff [OF assms(2)] assms(3) txs_of_def without_ids_def
  by (auto split: option.splits if_splits)

lemma executable_iff:
  assumes "pool_inv G p"
  shows "(\<exists>k. (k, i) \<in> set (p_selection p)) \<longleftrightarrow>
    (\<exists>d. gs_get G (p_storage p) i = Some d) \<and> \<not> has_dependencies G (p_storage p) i"
proof -
  have "covers (gs_get G (p_storage p)) {i. \<not> has_dependencies G (p_storage p) i} (p_selection p)"
    using assms by (simp add: pool_inv_def agrees_def)
  moreover have "\<exists>k. selection_key d = Some k" if "gs_get G (p_storage p) i = Some d" for d
    using selection_key_Some [of d] that assms by (auto simp: pool_inv_def stored_ok_def)
  ultimately show ?thesis by (auto simp: coversD)
qed

section \<open>Properties of the pool\<close>

text \<open>C18: The indices of every reachable pool are well formed. The index of transaction ids lists exactly
  the stored transactions, each id once; the ordered map of executable transactions is sorted and lists
  exactly the stored transactions that depend on no stored transaction.\<close>

theorem pool_indices_well_formed:
  assumes "stable_digraph G" "pool_reachable G config p"
  shows "distinct (iter_tx_ids p)
    \<and> (\<forall>t i. (t, i) \<in> set (tx_id_to_storage_id p) \<longleftrightarrow>
          (\<exists>d. gs_get G (p_storage p) i = Some d \<and> tx_id (sd_transaction d) = t))
    \<and> exec_sorted (p_selection p)
    \<and> (\<forall>i. (\<exists>k. (k, i) \<in> set (p_selection p)) \<longleftrightarrow>
          (\<exists>d. gs_get G (p_storage p) i = Some d) \<and> \<not> has_dependencies G (p_storage p) i)"
proof -
  have inv: "pool_inv G p" using stable_digraph.pool_reachable_inv [OF assms] by blast
  then have "index_exact (gs_get G (p_storage p)) (tx_id_to_storage_id p)" "exec_sorted (p_selection p)"
    by (simp_all add: pool_inv_def agrees_def covers_def)
  then show ?thesis
    using executable_iff [OF inv] unfolding iter_tx_ids_def index_exact_def by blast
qed






text \<open>C21: Removing transactions by id always returns from a reachable pool; none of the given ids is in the
  pool afterwards, and whatever left the pool is reported.\<close>

theorem pool_removal_outcome:
  assumes "stable_digraph G" "pool_reachable G config p"
  shows "\<exists>p' txs. remove_transaction_and_dependents G p ts = Some (p', txs)
    \<and> (\<forall>t. pool_contains p' t \<longleftrightarrow> pool_contains p t \<and> t \<notin> tx_id ` set txs) \<and> (\<forall>t\<in>set ts. \<not> pool_contains p' t)"
proof -
  have inv: "pool_inv G p" using stable_digraph.pool_reachable_inv [OF assms] by blast
  obtain q "is" txs where q: "remove_transaction_and_dependents G p ts = Some (update_stats q, txs)"
      "removal G p is txs q" "\<forall>t\<in>set ts. \<not> pool_contains q t"
    using stable_digraph.remove_transaction_and_dependents_inv [OF assms(1) inv, of ts] by blast
  have "pool_contains (update_stats q) t = pool_contains q t" for t by (simp add: pool_contains_def)
  then show ?thesis using q removal_contains [OF inv q(2)] by auto
qed

section \<open>A pool with two transactions\<close>

definition sample_pool_config :: pool_config where
  "sample_pool_config =
     \<lparr>utxo_validation = False, max_txs_chain_count = 10,
      limits = \<lparr>max_txs = 5, pl_max_gas = 100, max_bytes_size = 1000\<rparr>,
      black_list = \<lparr>bl_owners = {9}, bl_coins = {}, bl_messages = {}, bl_contracts = {}\<rparr>,
      pending_pool_tx_ttl = 3, max_pending_pool_size_percentage = 50\<rparr>"

definition sample_chain :: persistent_storage where
  "sample_chain = \<lparr>ps_utxo = \<lambda>_. Inr None, ps_contract_exist = \<lambda>_. Inr False, ps_blob_exist = \<lambda>_. Inr False,
     ps_message = \<lambda>_. Inr None\<rparr>"

lemma sample_txs [simp]:
  "tx_id sample_parent = 1" "tx_max_gas sample_parent = 10" "metered_bytes_size sample_parent = 20" "tx_tip sample_parent = 5"
  "tx_inputs sample_parent = []" "tx_outputs sample_parent = [OutCoin 3 4 5, OutCoin 3 4 5]" "blob_of sample_parent = None"
  "tx_id sample_child = 2" "tx_max_gas sample_child = 10" "metered_bytes_size sample_child = 20" "tx_tip sample_child = 5"
  "tx_inputs sample_child = [sample_coin (1, 0)]" "tx_outputs sample_child = [OutCoin 3 4 5]" "blob_of sample_child = None"
  by (simp_all add: sample_parent_def sample_child_def)

definition sample_pool0 :: "(adjacency, nat) pool" where
  "sample_pool0 = pool_new adjacency_graph sample_pool_config"

definition sample_pool1 :: "(adjacency, nat) pool" where
  "sample_pool1 =
     \<lparr>p_config = sample_pool_config, p_storage = sample_storage1,
      p_collisions = on_stored_transaction collision_manager_new 1 sample_parent,
      p_selection = [(SelectKey (6 / 10) 0 1, 1)], tx_id_to_storage_id = [(1, 1)],
      p_extracted = extracted_outputs_new, current_gas = 10, current_bytes_size = 20,
      pool_stats = \<lparr>stat_tx_count = 1, stat_total_size = 20, stat_total_gas = 10\<rparr>,
      executable_notifications = 1\<rparr>"

definition sample_pool2 :: "(adjacency, nat) pool" where
  "sample_pool2 =
     \<lparr>p_config = sample_pool_config, p_storage = sample_storage2,
      p_collisions = on_stored_transaction (on_stored_transaction collision_manager_new 1 sample_parent) 2 sample_child,
      p_selection = [(SelectKey (6 / 10) 0 1, 1)], tx_id_to_storage_id = [(2, 2), (1, 1)],
      p_extracted = extracted_outputs_new, current_gas = 20, current_bytes_size = 40,
      pool_stats = \<lparr>stat_tx_count = 2, stat_total_size = 40, stat_total_gas = 20\<rparr>,
      executable_notifications = 1\<rparr>"

lemmas sample_insert_eval = can_insert_transaction_def pool_contains_def check_blob_does_not_exist_def and_then_def
  map_err_def check_collision_requirements_def can_fit_into_pool_def
  within_limits_def tx_count_def rust_eval Let_def

lemma sample_can_insert1:
  "can_insert_transaction adjacency_graph sample_pool0 sample_parent sample_chain =
     Some (Inr \<lparr>cs_checked_transaction = \<lparr>ct_tx = sample_parent, direct_dependencies = [], all_dependencies = []\<rparr>,
                cs_transactions_to_remove = [], cs_collisions = []\<rparr>)"
  by (simp add: sample_insert_eval sample_pool0_def pool_new_def sample_pool_config_def sample_can_store1
      collision_manager_new_def check_blacklisting_def find_collisions_def validate_inputs_def)

lemma sample_checks2:
  "check_blacklisting (pool_config.black_list sample_pool_config) sample_child = Inr ()"
  "validate_inputs adjacency_graph sample_storage1 sample_child sample_chain eo False = Some (Inr ())"
  "find_collisions (on_stored_transaction collision_manager_new 1 sample_parent) sample_child = Inr []"
  subgoal by (simp add: check_blacklisting_def sample_pool_config_def blacklist_input_def)
  subgoal by (simp add: validate_inputs_def validate_input_def validate_coin_def check_if_coin_input_can_spend_output_def
        sample_eval new_storage_data_def output_at_def)
  subgoal by (simp add: find_collisions_def on_stored_transaction_def store_output_def collision_manager_new_def
        find_input_collision_def push_found_def)
  done

lemma sample_can_insert2:
  "can_insert_transaction adjacency_graph sample_pool1 sample_child sample_chain =
     Some (Inr \<lparr>cs_checked_transaction = \<lparr>ct_tx = sample_child, direct_dependencies = [1], all_dependencies = [1]\<rparr>,
                cs_transactions_to_remove = [], cs_collisions = []\<rparr>)"
  by (simp add: sample_insert_eval sample_pool1_def sample_pool_config_def sample_can_store2
      sample_checks2 [unfolded sample_pool_config_def, simplified] del: One_nat_def)

lemma sample_get1: "gs_get adjacency_graph sample_storage1 = [1 \<mapsto> new_storage_data sample_parent 0]"
  by (auto simp: sample_eval fun_eq_iff)

lemma sample_executable1:
  "new_executable_transaction [] 1 (new_storage_data sample_parent 0) = Some [(SelectKey (6 / 10) 0 1, 1)]"
  by (simp add: new_executable_transaction_def selection_key_def ratio_new_def new_storage_data_def rust_eval)

lemma sample_data_tx: "sd_transaction (new_storage_data tx now) = tx"
  by (simp add: new_storage_data_def)

lemma sample_insert1: "pool_insert adjacency_graph sample_pool0 sample_parent sample_chain 0 = Some (sample_pool1, Inr [])"
proof -
  have "store_checked adjacency_graph sample_pool0 \<lparr>ct_tx = sample_parent, direct_dependencies = [], all_dependencies = []\<rparr> 0 =
      Some (sample_pool1\<lparr>pool_stats := pool_stats sample_pool0\<rparr>)"
    using sample_executable1 sample_get1 
    by (simp add: store_checked_def sample_pool0_def pool_new_def sample_store1 Let_def sample_pool1_def remove_id_def rust_eval sample_data_tx
       notify_executable_def sample_pool_config_def del: One_nat_def)
  then show ?thesis
    by (simp add: pool_insert_def insert_inner_def sample_can_insert1 update_stats_def tx_count_def sample_pool1_def)
qed

lemma sample_insert2: "pool_insert adjacency_graph sample_pool1 sample_child sample_chain 0 = Some (sample_pool2, Inr [])"
proof -
  have "store_checked adjacency_graph sample_pool1 \<lparr>ct_tx = sample_child, direct_dependencies = [1], all_dependencies = [1]\<rparr> 0 =
      Some (sample_pool2\<lparr>pool_stats := pool_stats sample_pool1\<rparr>)"
    by (simp add: store_checked_def sample_pool1_def sample_store2 sample_get2 Let_def sample_pool2_def remove_id_def rust_eval sample_data_tx
       del: One_nat_def)
  then show ?thesis
    by (simp add: pool_insert_def insert_inner_def sample_can_insert2 update_stats_def tx_count_def sample_pool2_def)
qed

lemma sample_fits: "totals_fit (gs_get adjacency_graph sample_storage1) sample_child"
  by (simp add: sample_get1 totals_fit_def room_for_def new_storage_data_def)

lemma sample_pool_reachable0: "pool_reachable adjacency_graph sample_pool_config sample_pool0"
  unfolding sample_pool0_def by (rule pool_reachable.start)

lemma sample_pool_reachable1: "pool_reachable adjacency_graph sample_pool_config sample_pool1"
proof (rule pool_reachable.insertion [OF sample_pool_reachable0 _ _ sample_insert1])
  have "gs_get adjacency_graph (p_storage sample_pool0) = Map.empty"
    by (simp add: sample_pool0_def pool_new_def adj.gs_get_new)
  then show "totals_fit (gs_get adjacency_graph (p_storage sample_pool0)) sample_parent"
    by (simp add: totals_fit_def room_for_def)
qed (simp add: wf_tx_def)

lemma sample_pool_reachable2: "pool_reachable adjacency_graph sample_pool_config sample_pool2"
  by (rule pool_reachable.insertion [OF sample_pool_reachable1 _ _ sample_insert2])
    (simp_all add: wf_tx_def sample_pool1_def sample_fits)

lemmas sample_pool = adj.stable_digraph_axioms sample_pool_reachable2

lemma sample_pool_storage [simp]: "p_storage sample_pool1 = sample_storage1" "p_storage sample_pool2 = sample_storage2"
  by (simp_all add: sample_pool1_def sample_pool2_def)

lemma sample_contains: "pool_contains sample_pool2 t \<longleftrightarrow> t = 1 \<or> t = 2"
  by (simp add: pool_contains_def sample_pool2_def)

theorem pool_indices_well_formed_witness:
  "exec_sorted (p_selection sample_pool2) \<and> \<not> (\<exists>k. (k, 2) \<in> set (p_selection sample_pool2))"
  using pool_indices_well_formed [OF sample_pool] sample_has_dependencies [of 2] by simp






theorem pool_removal_outcome_witness:
  "\<exists>p' txs. remove_transaction_and_dependents adjacency_graph sample_pool2 [1] = Some (p', txs) \<and> \<not> pool_contains p' 1"
  using pool_removal_outcome [OF sample_pool, of "[1]"] by auto

end
