(* ===== verification/Tx_Pending_Pool.thy ===== *)
theory Tx_Pending_Pool
  imports Tx_Pool_Types
begin

text \<open>The pending pool (\<open>txpool_v2/src/pending_pool.rs\<close>): transactions that wait for coins or contracts
  which are not known yet. Times are nanoseconds. A hash set of ids is a list without duplicates; the
  notifications that an operation tries to send are part of its result.\<close>

section \<open>State\<close>

(* src/crates/services/txpool_v2/src/pool_worker.rs:177-184 InsertionSource *)
datatype insertion_source =
    P2P (from_peer_info: string)
  | RPC (response_channel: "nat option")

(* src/crates/services/txpool_v2/src/pool_worker.rs:228-235 ExtendedInsertionSource *)
datatype extended_insertion_source =
    ExtP2P string
  | ExtRPC pool_tx "nat option"

(* src/crates/services/txpool_v2/src/pool_worker.rs:237-253 PoolNotification *)
datatype pool_notification =
    NotifyInserted tx_id nat u32 extended_insertion_source
  | NotifyErrorInsertion tx_id pool_error insertion_source
  | NotifyRemoved tx_id pool_error

(* src/crates/services/txpool_v2/src/pending_pool.rs:57-62 PendingTx *)
record pending_tx =
  pt_tx :: pool_tx
  pt_insertion_source :: insertion_source
  pt_missing_inputs :: "missing_input list"

(* src/crates/services/txpool_v2/src/pending_pool.rs:47-55 PendingPool *)
record pending_pool =
  pp_ttl :: nat
  pending_txs_by_inputs :: "missing_input \<rightharpoonup> tx_id list"
  pending_inputs_by_tx :: "tx_id \<rightharpoonup> pending_tx"
  ttl_check :: "(nat \<times> tx_id) list"
  pp_current_bytes :: usize
  pp_current_txs :: usize
  pp_current_gas :: u64

type_synonym resolved_txs = "(pool_tx \<times> insertion_source) list"

section \<open>Operations\<close>

(* src/crates/services/txpool_v2/src/pending_pool.rs:97-107 PendingPool::new *)
definition pending_pool_new :: "nat \<Rightarrow> pending_pool" where
  "pending_pool_new ttl =
     \<lparr>pp_ttl = ttl, pending_txs_by_inputs = Map.empty, pending_inputs_by_tx = Map.empty, ttl_check = [],
      pp_current_bytes = 0, pp_current_txs = 0, pp_current_gas = 0\<rparr>"

text \<open>A system time that does not fit into the seconds of the platform is refused.\<close>

definition system_time_add :: "nat \<Rightarrow> nat \<Rightarrow> nat option" where
  "system_time_add t d = (if t + d < 2 ^ 63 * 1000000000 then Some (t + d) else None)"

definition hash_insert :: "'a \<Rightarrow> 'a list \<Rightarrow> 'a list" where
  "hash_insert x xs = (if x \<in> set xs then xs else xs @ [x])"

(* src/crates/services/txpool_v2/src/pending_pool.rs:121-126 loop of insert_transaction *)
fun add_waiting :: "tx_id \<Rightarrow> missing_input list \<Rightarrow> (missing_input \<rightharpoonup> tx_id list) \<Rightarrow> (missing_input \<rightharpoonup> tx_id list)" where
  "add_waiting t [] by_inputs = by_inputs"
| "add_waiting t (m # ms) by_inputs =
     add_waiting t ms
       (by_inputs(m \<mapsto> hash_insert t (case by_inputs m of None \<Rightarrow> [] | Some ts \<Rightarrow> ts)))"

(* src/crates/services/txpool_v2/src/pending_pool.rs:109-141 PendingPool::insert_transaction *)
definition insert_pending ::
    "pending_pool \<Rightarrow> pool_tx \<Rightarrow> insertion_source \<Rightarrow> missing_input list \<Rightarrow> nat \<Rightarrow> pending_pool option" where
  "insert_pending pp tx source missing now =
     map_option
       (\<lambda>deadline. pp
          \<lparr>pp_current_bytes := saturating_add (pp_current_bytes pp) (metered_bytes_size tx),
           pp_current_gas := saturating_add (pp_current_gas pp) (tx_max_gas tx),
           pp_current_txs := saturating_add (pp_current_txs pp) 1,
           pending_txs_by_inputs := add_waiting (tx_id tx) missing (pending_txs_by_inputs pp),
           pending_inputs_by_tx := (pending_inputs_by_tx pp)
             (tx_id tx \<mapsto> \<lparr>pt_tx = tx, pt_insertion_source = source, pt_missing_inputs = missing\<rparr>),
           ttl_check := (deadline, tx_id tx) # ttl_check pp\<rparr>)
       (system_time_add now (pp_ttl pp))"

(* src/crates/services/txpool_v2/src/pending_pool.rs:225-229 PendingPool::decrease_pool_size *)
definition decrease_pool_size :: "pending_pool \<Rightarrow> pool_tx \<Rightarrow> pending_pool" where
  "decrease_pool_size pp tx = pp
     \<lparr>pp_current_bytes := saturating_sub (pp_current_bytes pp) (metered_bytes_size tx),
      pp_current_gas := saturating_sub (pp_current_gas pp) (tx_max_gas tx),
      pp_current_txs := saturating_sub (pp_current_txs pp) 1\<rparr>"

(* src/crates/services/txpool_v2/src/pending_pool.rs:149-157 missing_input of new_known_input_from_output *)
fun input_from_output :: "utxo_id \<Rightarrow> tx_output \<Rightarrow> missing_input option" where
  "input_from_output utxo (OutCoin _ _ _) = Some (MissingUtxo utxo)"
| "input_from_output utxo (OutContractCreated c) = Some (MissingContract c)"
| "input_from_output utxo OutContract = None"
| "input_from_output utxo OutChange = None"
| "input_from_output utxo OutVariable = None"

(* src/crates/services/txpool_v2/src/pending_pool.rs:161-176 loop body of new_known_input_from_output *)
definition resolve_tx :: "missing_input \<Rightarrow> pending_pool \<Rightarrow> tx_id \<Rightarrow> pending_pool \<times> resolved_txs" where
  "resolve_tx m pp t =
     (case pending_inputs_by_tx pp t of
        None \<Rightarrow> (pp, [])
      | Some p \<Rightarrow>
          (let missing = filter (\<lambda>input. input \<noteq> m) (pt_missing_inputs p)
           in if missing = []
              then (decrease_pool_size (pp\<lparr>pending_inputs_by_tx := (pending_inputs_by_tx pp)(t := None)\<rparr>) (pt_tx p),
                    [(pt_tx p, pt_insertion_source p)])
              else (pp\<lparr>pending_inputs_by_tx := (pending_inputs_by_tx pp)(t \<mapsto> p\<lparr>pt_missing_inputs := missing\<rparr>)\<rparr>, [])))"

(* src/crates/services/txpool_v2/src/pending_pool.rs:160-177 loop of new_known_input_from_output *)
fun resolve_txs :: "missing_input \<Rightarrow> pending_pool \<Rightarrow> tx_id list \<Rightarrow> pending_pool \<times> resolved_txs" where
  "resolve_txs m pp [] = (pp, [])"
| "resolve_txs m pp (t # ts) =
     (let (pp, resolved) = resolve_tx m pp t;
          (pp, more) = resolve_txs m pp ts
      in (pp, resolved @ more))"

(* src/crates/services/txpool_v2/src/pending_pool.rs:143-179 PendingPool::new_known_input_from_output *)
definition new_known_input_from_output :: "pending_pool \<Rightarrow> utxo_id \<Rightarrow> tx_output \<Rightarrow> pending_pool \<times> resolved_txs" where
  "new_known_input_from_output pp utxo out =
     (case input_from_output utxo out of
        None \<Rightarrow> (pp, [])
      | Some m \<Rightarrow>
          (case pending_txs_by_inputs pp m of
             None \<Rightarrow> (pp, [])
           | Some ts \<Rightarrow> resolve_txs m (pp\<lparr>pending_txs_by_inputs := (pending_txs_by_inputs pp)(m := None)\<rparr>) ts))"

(* src/crates/services/txpool_v2/src/pending_pool.rs:264-271 loop of new_known_tx_inner *)
fun known_outputs :: "pending_pool \<Rightarrow> tx_id \<Rightarrow> (u16 \<times> tx_output) list \<Rightarrow> pending_pool \<times> resolved_txs" where
  "known_outputs pp t [] = (pp, [])"
| "known_outputs pp t ((index, out) # outs) =
     (let (pp, resolved) = new_known_input_from_output pp (t, index) out;
          (pp, more) = known_outputs pp t outs
      in (pp, resolved @ more))"

(* src/crates/services/txpool_v2/src/pending_pool.rs:258-272 PendingPool::new_known_tx_inner *)
definition new_known_tx_inner :: "pending_pool \<Rightarrow> tx_output list \<Rightarrow> tx_id \<Rightarrow> (pending_pool \<times> resolved_txs) option" where
  "new_known_tx_inner pp outs t =
     (if length outs \<le> 2 ^ 16 then Some (known_outputs pp t (enumerate_from 0 outs)) else None)"

(* src/crates/services/txpool_v2/src/pending_pool.rs:232-243 PendingPool::new_known_tx *)
definition new_known_tx :: "pending_pool \<Rightarrow> pool_tx \<Rightarrow> (pending_pool \<times> resolved_txs) option" where
  "new_known_tx pp tx = new_known_tx_inner pp (tx_outputs tx) (tx_id tx)"

(* src/crates/services/txpool_v2/src/pending_pool.rs:246-256 PendingPool::new_known_txs *)
fun new_known_txs :: "pending_pool \<Rightarrow> (tx_output list \<times> tx_id) list \<Rightarrow> (pending_pool \<times> resolved_txs) option" where
  "new_known_txs pp [] = Some (pp, [])"
| "new_known_txs pp ((outs, t) # txs) =
     Option.bind (new_known_tx_inner pp outs t) (\<lambda>(pp, resolved).
       map_option (\<lambda>(pp, more). (pp, resolved @ more)) (new_known_txs pp txs))"

(* src/crates/services/txpool_v2/src/pending_pool.rs:194-205 loop over the missing inputs in expire_transactions *)
fun remove_waiting :: "tx_id \<Rightarrow> missing_input list \<Rightarrow> (missing_input \<rightharpoonup> tx_id list) \<Rightarrow> (missing_input \<rightharpoonup> tx_id list)" where
  "remove_waiting t [] by_inputs = by_inputs"
| "remove_waiting t (m # ms) by_inputs =
     remove_waiting t ms
       (case by_inputs m of
          None \<Rightarrow> by_inputs
        | Some ts \<Rightarrow>
            (let ts = removeAll t ts in by_inputs(m := (if ts = [] then None else Some ts))))"

(* src/crates/services/txpool_v2/src/pending_pool.rs:187-220 loop body of expire_transactions *)
definition expire_tx :: "pending_pool \<Rightarrow> tx_id \<Rightarrow> pending_pool \<times> pool_notification list" where
  "expire_tx pp t =
     (case pending_inputs_by_tx pp t of
        None \<Rightarrow> (pp, [])
      | Some p \<Rightarrow>
          (let pp = decrease_pool_size (pp\<lparr>pending_inputs_by_tx := (pending_inputs_by_tx pp)(t := None)\<rparr>) (pt_tx p);
               pp = pp\<lparr>pending_txs_by_inputs := remove_waiting t (pt_missing_inputs p) (pending_txs_by_inputs pp)\<rparr>
           in (pp, case pt_missing_inputs p of
                     [] \<Rightarrow> []
                   | m # _ \<Rightarrow> [NotifyErrorInsertion (tx_id (pt_tx p)) (missing_input_error m) (pt_insertion_source p)])))"

lemma decrease_simps [simp]:
  "ttl_check (decrease_pool_size pp tx) = ttl_check pp" "pp_ttl (decrease_pool_size pp tx) = pp_ttl pp"
  "pending_txs_by_inputs (decrease_pool_size pp tx) = pending_txs_by_inputs pp"
  "pending_inputs_by_tx (decrease_pool_size pp tx) = pending_inputs_by_tx pp"
  by (simp_all add: decrease_pool_size_def)

lemma ttl_check_expire_tx [simp]: "ttl_check (fst (expire_tx pp t)) = ttl_check pp"
  by (simp add: expire_tx_def Let_def split: option.split)

(* src/crates/services/txpool_v2/src/pending_pool.rs:181-223 PendingPool::expire_transactions *)
function expire_transactions :: "nat \<Rightarrow> pending_pool \<Rightarrow> pending_pool \<times> pool_notification list" where
  "expire_transactions now pp =
     (if ttl_check pp = [] \<or> now < fst (last (ttl_check pp)) then (pp, [])
      else
        (let expired = expire_tx pp (snd (last (ttl_check pp)));
             rest = expire_transactions now ((fst expired)\<lparr>ttl_check := butlast (ttl_check pp)\<rparr>)
         in (fst rest, snd expired @ snd rest)))"
  by pat_completeness auto
termination by (relation "measure (\<lambda>(now, pp). length (ttl_check pp))") auto

declare expire_transactions.simps [simp del]

section \<open>Invariant\<close>

definition waiting :: "(missing_input \<rightharpoonup> tx_id list) \<Rightarrow> missing_input \<Rightarrow> tx_id \<Rightarrow> bool" where
  "waiting by_inputs m t \<longleftrightarrow> (case by_inputs m of None \<Rightarrow> False | Some ts \<Rightarrow> t \<in> set ts)"

definition wf_waiting :: "(missing_input \<rightharpoonup> tx_id list) \<Rightarrow> bool" where
  "wf_waiting by_inputs \<longleftrightarrow> (\<forall>m ts. by_inputs m = Some ts \<longrightarrow> ts \<noteq> [] \<and> distinct ts)"

definition pending_sum :: "(tx_id \<rightharpoonup> pending_tx) \<Rightarrow> (pool_tx \<Rightarrow> 'a::len word) \<Rightarrow> nat" where
  "pending_sum by_tx own = (\<Sum>t\<in>dom by_tx. unat (own (pt_tx (the (by_tx t)))))"

definition pending_totals :: "pending_pool \<Rightarrow> bool" where
  "pending_totals pp \<longleftrightarrow>
     unat (pp_current_bytes pp) = pending_sum (pending_inputs_by_tx pp) metered_bytes_size
     \<and> unat (pp_current_gas pp) = pending_sum (pending_inputs_by_tx pp) tx_max_gas
     \<and> unat (pp_current_txs pp) = card (dom (pending_inputs_by_tx pp))"

text \<open>Each pending transaction misses an input and has a deadline; it waits for exactly its missing inputs
  according to the relation \<open>W\<close>.\<close>

definition pending_ok :: "(missing_input \<Rightarrow> tx_id \<Rightarrow> bool) \<Rightarrow> pending_pool \<Rightarrow> bool" where
  "pending_ok W pp \<longleftrightarrow> finite (dom (pending_inputs_by_tx pp)) \<and> pending_totals pp
     \<and> (\<forall>m t. W m t \<longleftrightarrow> (\<exists>p. pending_inputs_by_tx pp t = Some p \<and> m \<in> set (pt_missing_inputs p)))
     \<and> (\<forall>t p. pending_inputs_by_tx pp t = Some p \<longrightarrow>
          tx_id (pt_tx p) = t \<and> pt_missing_inputs p \<noteq> [] \<and> t \<in> snd ` set (ttl_check pp))"

definition pending_inv :: "pending_pool \<Rightarrow> bool" where
  "pending_inv pp \<longleftrightarrow> wf_waiting (pending_txs_by_inputs pp) \<and> pending_ok (waiting (pending_txs_by_inputs pp)) pp"

lemma pending_okD:
  assumes "pending_ok W pp"
  shows "finite (dom (pending_inputs_by_tx pp))" "pending_totals pp"
    "W m t \<longleftrightarrow> (\<exists>p. pending_inputs_by_tx pp t = Some p \<and> m \<in> set (pt_missing_inputs p))"
    "pending_inputs_by_tx pp t = Some p \<Longrightarrow> tx_id (pt_tx p) = t"
    "pending_inputs_by_tx pp t = Some p \<Longrightarrow> pt_missing_inputs p \<noteq> []"
    "pending_inputs_by_tx pp t = Some p \<Longrightarrow> t \<in> snd ` set (ttl_check pp)"
  using assms unfolding pending_ok_def by blast+

lemma pending_okI:
  assumes "finite (dom (pending_inputs_by_tx pp))" "pending_totals pp"
    and "\<And>m t. W m t \<longleftrightarrow> (\<exists>p. pending_inputs_by_tx pp t = Some p \<and> m \<in> set (pt_missing_inputs p))"
    and "\<And>t p. pending_inputs_by_tx pp t = Some p \<Longrightarrow>
      tx_id (pt_tx p) = t \<and> pt_missing_inputs p \<noteq> [] \<and> t \<in> snd ` set (ttl_check pp)"
  shows "pending_ok W pp"
  using assms unfolding pending_ok_def by blast

lemma pending_inv_new: "pending_inv (pending_pool_new ttl)"
  by (simp add: pending_inv_def pending_ok_def wf_waiting_def waiting_def pending_totals_def pending_sum_def
      pending_pool_new_def fun_eq_iff)

lemma pending_sum_insert:
  "finite (dom by_tx) \<Longrightarrow> t \<notin> dom by_tx \<Longrightarrow> pending_sum (by_tx(t \<mapsto> p)) own = pending_sum by_tx own + unat (own (pt_tx p))"
  by (auto simp: pending_sum_def intro!: sum.cong)

lemma pending_sum_change:
  assumes "by_tx t = Some p" "pt_tx p' = pt_tx p"
  shows "pending_sum (by_tx(t \<mapsto> p')) own = pending_sum by_tx own"
proof -
  have "dom (by_tx(t \<mapsto> p')) = dom by_tx" using assms by auto
  then show ?thesis unfolding pending_sum_def by (auto intro!: sum.cong simp: assms)
qed

lemma pending_sum_remove:
  assumes "finite (dom by_tx)" "by_tx t = Some p"
  shows "pending_sum by_tx own = pending_sum (by_tx(t := None)) own + unat (own (pt_tx p))"
proof -
  have "by_tx = (by_tx(t := None))(t \<mapsto> p)" using assms(2) by auto
  moreover have "finite (dom (by_tx(t := None)))" using assms(1) by simp
  ultimately show ?thesis using pending_sum_insert [of "by_tx(t := None)" t p own] by simp
qed

lemma totals_removed:
  assumes "finite (dom (pending_inputs_by_tx pp))" "pending_totals pp" "pending_inputs_by_tx pp t = Some p"
  shows "pending_totals (decrease_pool_size (pp\<lparr>pending_inputs_by_tx := (pending_inputs_by_tx pp)(t := None)\<rparr>) (pt_tx p))"
proof -
  have "card (dom (pending_inputs_by_tx pp)) = card (dom ((pending_inputs_by_tx pp)(t := None))) + 1"
    using card.remove [OF assms(1), of t] assms(3) by (simp add: domI)
  then show ?thesis
    using assms pending_sum_remove [OF assms(1,3), of metered_bytes_size] pending_sum_remove [OF assms(1,3), of tx_max_gas]
    by (simp add: pending_totals_def decrease_pool_size_def unat_saturating_sub)
qed

section \<open>Insertion\<close>

lemma waiting_add:
  "waiting (add_waiting t ms by_inputs) m u \<longleftrightarrow> waiting by_inputs m u \<or> u = t \<and> m \<in> set ms"
proof (induction t ms by_inputs rule: add_waiting.induct)
  case (2 t m' ms by_inputs)
  have "waiting (by_inputs(m' \<mapsto> hash_insert t (case by_inputs m' of None \<Rightarrow> [] | Some ts \<Rightarrow> ts))) m u \<longleftrightarrow>
      waiting by_inputs m u \<or> u = t \<and> m = m'"
    by (cases "by_inputs m'") (auto simp: waiting_def hash_insert_def)
  with 2 show ?case by (simp only: add_waiting.simps) auto
qed simp

lemma wf_waiting_add: "wf_waiting by_inputs \<Longrightarrow> wf_waiting (add_waiting t ms by_inputs)"
proof (induction t ms by_inputs rule: add_waiting.induct)
  case (2 t m ms by_inputs)
  have "wf_waiting (by_inputs(m \<mapsto> hash_insert t (case by_inputs m of None \<Rightarrow> [] | Some ts \<Rightarrow> ts)))"
    using 2(2) by (auto simp: wf_waiting_def hash_insert_def split: option.splits)
  from 2(1) [OF this] show ?case by (simp only: add_waiting.simps)
qed simp

lemma insert_pending_inv:
  assumes inv: "pending_inv pp" and fresh: "pending_inputs_by_tx pp (tx_id tx) = None" and ms: "missing \<noteq> []"
    and fits: "unat (pp_current_bytes pp) + unat (metered_bytes_size tx) < 2 ^ 64"
      "unat (pp_current_gas pp) + unat (tx_max_gas tx) < 2 ^ 64" "unat (pp_current_txs pp) + 1 < 2 ^ 64"
    and ins: "insert_pending pp tx source missing now = Some pp'"
  shows "pending_inv pp'"
proof -
  let ?by = "pending_inputs_by_tx pp"
  have ok: "pending_ok (waiting (pending_txs_by_inputs pp)) pp" and wf: "wf_waiting (pending_txs_by_inputs pp)"
    using inv by (simp_all add: pending_inv_def)
  note ok = pending_okD [OF ok]
  have pp': "pending_inputs_by_tx pp' = ?by(tx_id tx \<mapsto> \<lparr>pt_tx = tx, pt_insertion_source = source, pt_missing_inputs = missing\<rparr>)"
    "pending_txs_by_inputs pp' = add_waiting (tx_id tx) missing (pending_txs_by_inputs pp)"
    "pp_current_bytes pp' = saturating_add (pp_current_bytes pp) (metered_bytes_size tx)"
    "pp_current_gas pp' = saturating_add (pp_current_gas pp) (tx_max_gas tx)"
    "pp_current_txs pp' = saturating_add (pp_current_txs pp) 1"
    "set (ttl_check pp) \<subseteq> set (ttl_check pp')" "tx_id tx \<in> snd ` set (ttl_check pp')"
    using ins by (auto simp: insert_pending_def)
  have "pending_ok (waiting (pending_txs_by_inputs pp')) pp'"
  proof (rule pending_okI)
    show "finite (dom (pending_inputs_by_tx pp'))" using ok(1) by (simp add: pp'(1))
    show "pending_totals pp'"
      using ok(1,2) fresh fits
      by (simp add: pending_totals_def pp' pending_sum_insert unat_saturating_add min_def domIff)
    show "waiting (pending_txs_by_inputs pp') m t \<longleftrightarrow>
        (\<exists>p. pending_inputs_by_tx pp' t = Some p \<and> m \<in> set (pt_missing_inputs p))" for m t
      unfolding pp' waiting_add using ok(3) [of m t] fresh by auto
    show "tx_id (pt_tx p) = t \<and> pt_missing_inputs p \<noteq> [] \<and> t \<in> snd ` set (ttl_check pp')"
      if "pending_inputs_by_tx pp' t = Some p" for t p
      using that ok(4-6) [of t p] pp'(6,7) ms unfolding pp'(1) by (auto split: if_splits)
  qed
  with wf_waiting_add [OF wf] show ?thesis by (simp add: pending_inv_def pp'(2))
qed

section \<open>Resolution\<close>

text \<open>The pending transactions once the inputs in \<open>K\<close> are known, and those that miss nothing any more.\<close>

definition without_inputs :: "missing_input set \<Rightarrow> (tx_id \<rightharpoonup> pending_tx) \<Rightarrow> (tx_id \<rightharpoonup> pending_tx)" where
  "without_inputs K by_tx t =
     (case by_tx t of
        None \<Rightarrow> None
      | Some p \<Rightarrow>
          (let left = filter (\<lambda>input. input \<notin> K) (pt_missing_inputs p)
           in if left = [] then None else Some (p\<lparr>pt_missing_inputs := left\<rparr>)))"

definition satisfied :: "missing_input set \<Rightarrow> (tx_id \<rightharpoonup> pending_tx) \<Rightarrow> (pool_tx \<times> insertion_source) set" where
  "satisfied K by_tx =
     {(pt_tx p, pt_insertion_source p) | t p. by_tx t = Some p \<and> set (pt_missing_inputs p) \<subseteq> K}"

definition resolves :: "missing_input set \<Rightarrow> pending_pool \<Rightarrow> pending_pool \<times> resolved_txs \<Rightarrow> bool" where
  "resolves K pp r \<longleftrightarrow> pending_inv (fst r)
     \<and> pending_inputs_by_tx (fst r) = without_inputs K (pending_inputs_by_tx pp)
     \<and> set (snd r) = satisfied K (pending_inputs_by_tx pp) \<and> distinct (map (tx_id \<circ> fst) (snd r))
     \<and> ttl_check (fst r) = ttl_check pp \<and> pp_ttl (fst r) = pp_ttl pp"

lemma without_inputs_twice: "without_inputs L (without_inputs K by_tx) = without_inputs (K \<union> L) by_tx"
proof
  fix t
  show "without_inputs L (without_inputs K by_tx) t = without_inputs (K \<union> L) by_tx t"
  proof (cases "by_tx t")
    case (Some p)
    have "filter (\<lambda>i. i \<notin> L) (filter (\<lambda>i. i \<notin> K) (pt_missing_inputs p)) =
        filter (\<lambda>i. i \<notin> K \<union> L) (pt_missing_inputs p)"
      by (simp add: conj_commute)
    with Some show ?thesis
      by (cases "filter (\<lambda>i. i \<notin> K) (pt_missing_inputs p) = []") (auto simp: without_inputs_def Let_def)
  qed (simp add: without_inputs_def)
qed

lemma in_satisfied:
  "x \<in> satisfied K by_tx \<longleftrightarrow>
     (\<exists>t p. by_tx t = Some p \<and> x = (pt_tx p, pt_insertion_source p) \<and> filter (\<lambda>i. i \<notin> K) (pt_missing_inputs p) = [])"
  unfolding satisfied_def filter_empty_conv by blast

lemma without_inputs_Some:
  "without_inputs K by_tx t = Some q \<longleftrightarrow>
     (\<exists>p. by_tx t = Some p \<and> filter (\<lambda>i. i \<notin> K) (pt_missing_inputs p) \<noteq> []
        \<and> q = p\<lparr>pt_missing_inputs := filter (\<lambda>i. i \<notin> K) (pt_missing_inputs p)\<rparr>)"
  by (cases "by_tx t") (auto simp: without_inputs_def Let_def)

lemma satisfied_twice:
  "satisfied (K \<union> L) by_tx = satisfied K by_tx \<union> satisfied L (without_inputs K by_tx)"
proof -
  have split: "filter (\<lambda>i. i \<notin> K \<union> L) (pt_missing_inputs p) = [] \<longleftrightarrow>
      filter (\<lambda>i. i \<notin> K) (pt_missing_inputs p) = []
      \<or> filter (\<lambda>i. i \<notin> K) (pt_missing_inputs p) \<noteq> []
          \<and> filter (\<lambda>i. i \<notin> L) (filter (\<lambda>i. i \<notin> K) (pt_missing_inputs p)) = []" for p
    by (auto simp: filter_empty_conv)
  have left: "x \<in> satisfied L (without_inputs K by_tx) \<longleftrightarrow>
      (\<exists>t p. by_tx t = Some p \<and> x = (pt_tx p, pt_insertion_source p) \<and> filter (\<lambda>i. i \<notin> K) (pt_missing_inputs p) \<noteq> []
         \<and> filter (\<lambda>i. i \<notin> L) (filter (\<lambda>i. i \<notin> K) (pt_missing_inputs p)) = [])" for x
    unfolding in_satisfied without_inputs_Some by fastforce
  have "x \<in> satisfied (K \<union> L) by_tx \<longleftrightarrow> x \<in> satisfied K by_tx \<union> satisfied L (without_inputs K by_tx)" for x
    unfolding Un_iff [of x] left in_satisfied [of x K] in_satisfied [of x "K \<union> L"] split by blast
  then show ?thesis by blast
qed

lemma satisfied_ids:
  assumes "pending_ok W pp" "(tx, src) \<in> satisfied K (pending_inputs_by_tx pp)"
  shows "tx_id tx \<in> dom (pending_inputs_by_tx pp)" "tx_id tx \<notin> dom (without_inputs K (pending_inputs_by_tx pp))"
proof -
  obtain t p where p: "pending_inputs_by_tx pp t = Some p" "set (pt_missing_inputs p) \<subseteq> K" "tx = pt_tx p"
    using assms(2) by (auto simp: satisfied_def)
  then have "tx_id tx = t" using pending_okD(4) [OF assms(1)] by blast
  moreover have "filter (\<lambda>i. i \<notin> K) (pt_missing_inputs p) = []" using p(2) by (auto simp: filter_empty_conv)
  ultimately show "tx_id tx \<in> dom (pending_inputs_by_tx pp)" "tx_id tx \<notin> dom (without_inputs K (pending_inputs_by_tx pp))"
    using p(1) by (auto simp: without_inputs_def)
qed

lemma resolves_trans:
  assumes inv: "pending_inv pp" and "resolves K pp (pp1, r1)" "resolves L pp1 (pp2, r2)"
  shows "resolves (K \<union> L) pp (pp2, r1 @ r2)"
proof -
  have "tx_id (fst x) \<noteq> tx_id (fst y)" if "x \<in> set r1" "y \<in> set r2" for x y
  proof -
    have "pending_ok (waiting (pending_txs_by_inputs pp)) pp" "pending_ok (waiting (pending_txs_by_inputs pp1)) pp1"
      using inv assms(2) by (simp_all add: pending_inv_def resolves_def)
    then have "tx_id (fst x) \<notin> dom (pending_inputs_by_tx pp1)" "tx_id (fst y) \<in> dom (pending_inputs_by_tx pp1)"
      using satisfied_ids(2) [of _ pp "fst x" "snd x" K] satisfied_ids(1) [of _ pp1 "fst y" "snd y" L] that assms(2,3)
      by (auto simp: resolves_def)
    then show ?thesis by auto
  qed
  then show ?thesis
    using assms(2,3) by (auto simp: resolves_def without_inputs_twice satisfied_twice)
qed

lemma resolves_nothing:
  assumes "pending_inv pp" "\<forall>t p. pending_inputs_by_tx pp t = Some p \<longrightarrow> set (pt_missing_inputs p) \<inter> K = {}"
  shows "resolves K pp (pp, [])"
proof -
  have ok: "pending_ok (waiting (pending_txs_by_inputs pp)) pp" using assms(1) by (simp add: pending_inv_def)
  have "without_inputs K (pending_inputs_by_tx pp) t = pending_inputs_by_tx pp t" for t
  proof (cases "pending_inputs_by_tx pp t")
    case (Some p)
    then have "filter (\<lambda>i. i \<notin> K) (pt_missing_inputs p) = pt_missing_inputs p"
      using assms(2) by (auto simp: filter_id_conv)
    then show ?thesis using Some pending_okD(5) [OF ok Some] by (simp add: without_inputs_def)
  qed (simp add: without_inputs_def)
  moreover have "satisfied K (pending_inputs_by_tx pp) = {}"
  proof -
    have False if "pending_inputs_by_tx pp t = Some p" "set (pt_missing_inputs p) \<subseteq> K" for t p
      using that(2) assms(2) [rule_format, OF that(1)] pending_okD(5) [OF ok that(1)]
      by (cases "pt_missing_inputs p") auto
    then show ?thesis unfolding satisfied_def by blast
  qed
  ultimately show ?thesis using assms(1) by (simp add: resolves_def fun_eq_iff)
qed

lemma resolve_tx_ok:
  assumes ok: "pending_ok W pp" and p: "pending_inputs_by_tx pp t = Some p" and r: "resolve_tx m pp t = (pp', rs)"
  shows "pending_ok (\<lambda>m' t'. W m' t' \<and> (m', t') \<noteq> (m, t)) pp'"
    and "pending_inputs_by_tx pp' = (pending_inputs_by_tx pp)(t := without_inputs {m} (pending_inputs_by_tx pp) t)"
    and "rs = (if set (pt_missing_inputs p) \<subseteq> {m} then [(pt_tx p, pt_insertion_source p)] else [])"
    and "ttl_check pp' = ttl_check pp" "pp_ttl pp' = pp_ttl pp" "pending_txs_by_inputs pp' = pending_txs_by_inputs pp"
proof -
  let ?left = "filter (\<lambda>input. input \<noteq> m) (pt_missing_inputs p)" and ?by = "pending_inputs_by_tx pp"
  note D = pending_okD [OF ok]
  have left: "?left = [] \<longleftrightarrow> set (pt_missing_inputs p) \<subseteq> {m}" by (auto simp: filter_empty_conv)
  show by': "pending_inputs_by_tx pp' = ?by(t := without_inputs {m} ?by t)"
    using r p by (auto simp: resolve_tx_def without_inputs_def Let_def split: if_splits)
  show "rs = (if set (pt_missing_inputs p) \<subseteq> {m} then [(pt_tx p, pt_insertion_source p)] else [])"
    using r p left by (auto simp: resolve_tx_def Let_def split: if_splits)
  show ttl: "ttl_check pp' = ttl_check pp" and "pp_ttl pp' = pp_ttl pp" "pending_txs_by_inputs pp' = pending_txs_by_inputs pp"
    using r p by (auto simp: resolve_tx_def Let_def split: if_splits)
  have tot: "pending_totals pp'"
  proof (cases "?left = []")
    case True
    then show ?thesis using r p totals_removed [OF D(1,2) p] by (auto simp: resolve_tx_def)
  next
    case False
    then have pp': "pp' = pp\<lparr>pending_inputs_by_tx := ?by(t \<mapsto> p\<lparr>pt_missing_inputs := ?left\<rparr>)\<rparr>"
      using r p by (simp add: resolve_tx_def)
    have "dom (?by(t \<mapsto> p\<lparr>pt_missing_inputs := ?left\<rparr>)) = dom ?by" using p by auto
    then show ?thesis using D(2) p by (simp add: pp' pending_totals_def pending_sum_change)
  qed
  have at: "without_inputs {m} ?by t = (if ?left = [] then None else Some (p\<lparr>pt_missing_inputs := ?left\<rparr>))"
    using p by (simp add: without_inputs_def Let_def)
  show "pending_ok (\<lambda>m' t'. W m' t' \<and> (m', t') \<noteq> (m, t)) pp'"
  proof (rule pending_okI [OF _ tot])
    show "finite (dom (pending_inputs_by_tx pp'))"
      using D(1) by (rule finite_subset [rotated]) (auto simp: by' p)
    show "W m' t' \<and> (m', t') \<noteq> (m, t) \<longleftrightarrow>
        (\<exists>q. pending_inputs_by_tx pp' t' = Some q \<and> m' \<in> set (pt_missing_inputs q))" for m' t'
    proof (cases "t' = t")
      case True
      then show ?thesis using D(3) [of m' t] p by (auto simp: by' at filter_empty_conv)
    next
      case False
      then show ?thesis using D(3) [of m' t'] by (simp add: by')
    qed
    show "tx_id (pt_tx q) = t' \<and> pt_missing_inputs q \<noteq> [] \<and> t' \<in> snd ` set (ttl_check pp')"
      if "pending_inputs_by_tx pp' t' = Some q" for t' q
    proof (cases "t' = t")
      case True
      then show ?thesis using that D(4,6) [OF p] by (auto simp: by' at ttl split: if_splits)
    next
      case False
      then show ?thesis using that D(4-6) [of t' q] by (simp add: by' ttl)
    qed
  qed
qed

definition resolved_of :: "missing_input \<Rightarrow> (tx_id \<rightharpoonup> pending_tx) \<Rightarrow> tx_id \<Rightarrow> resolved_txs" where
  "resolved_of m by_tx t =
     (case by_tx t of
        None \<Rightarrow> []
      | Some p \<Rightarrow> if set (pt_missing_inputs p) \<subseteq> {m} then [(pt_tx p, pt_insertion_source p)] else [])"

lemma in_resolved_of:
  "x \<in> set (resolved_of m by_tx t) \<longleftrightarrow>
     (\<exists>p. by_tx t = Some p \<and> set (pt_missing_inputs p) \<subseteq> {m} \<and> x = (pt_tx p, pt_insertion_source p))"
  by (cases "by_tx t") (auto simp: resolved_of_def)

definition resolved_state ::
    "missing_input \<Rightarrow> tx_id list \<Rightarrow> (missing_input \<Rightarrow> tx_id \<Rightarrow> bool) \<Rightarrow> pending_pool \<Rightarrow> pending_pool \<times> resolved_txs \<Rightarrow> bool" where
  "resolved_state m ts W pp r \<longleftrightarrow> pending_ok (\<lambda>m' t'. W m' t' \<and> \<not> (m' = m \<and> t' \<in> set ts)) (fst r)
     \<and> (\<forall>u. pending_inputs_by_tx (fst r) u =
          (if u \<in> set ts then without_inputs {m} (pending_inputs_by_tx pp) u else pending_inputs_by_tx pp u))
     \<and> snd r = concat (map (resolved_of m (pending_inputs_by_tx pp)) ts)
     \<and> ttl_check (fst r) = ttl_check pp \<and> pp_ttl (fst r) = pp_ttl pp
     \<and> pending_txs_by_inputs (fst r) = pending_txs_by_inputs pp"

lemma resolve_txs_ok:
  "pending_ok W pp \<Longrightarrow> distinct ts \<Longrightarrow> \<forall>t\<in>set ts. pending_inputs_by_tx pp t \<noteq> None \<Longrightarrow>
     resolved_state m ts W pp (resolve_txs m pp ts)"
proof (induction ts arbitrary: W pp)
  case (Cons t ts)
  obtain p where p: "pending_inputs_by_tx pp t = Some p" using Cons.prems(3) by auto
  obtain pp1 r1 where r1: "resolve_tx m pp t = (pp1, r1)" by fastforce
  note s = resolve_tx_ok [OF Cons.prems(1) p r1]
  have same: "pending_inputs_by_tx pp1 u = pending_inputs_by_tx pp u" if "u \<in> set ts" for u
    using that Cons.prems(2) by (auto simp: s(2))
  then have "\<forall>t\<in>set ts. pending_inputs_by_tx pp1 t \<noteq> None" using Cons.prems(3) by auto
  with Cons.IH [OF s(1)] Cons.prems(2) have IH: "resolved_state m ts (\<lambda>m' t'. W m' t' \<and> (m', t') \<noteq> (m, t)) pp1 (resolve_txs m pp1 ts)"
    by simp
  have "resolved_of m (pending_inputs_by_tx pp1) u = resolved_of m (pending_inputs_by_tx pp) u" if "u \<in> set ts" for u
    using same [OF that] by (simp add: resolved_of_def)
  then have "concat (map (resolved_of m (pending_inputs_by_tx pp1)) ts) = concat (map (resolved_of m (pending_inputs_by_tx pp)) ts)"
    by (simp cong: map_cong)
  moreover have "r1 = resolved_of m (pending_inputs_by_tx pp) t" using s(3) p by (simp add: resolved_of_def)
  moreover have "without_inputs {m} (pending_inputs_by_tx pp1) u = without_inputs {m} (pending_inputs_by_tx pp) u" if "u \<in> set ts" for u
    using same [OF that] by (simp add: without_inputs_def)
  moreover have "(\<lambda>m' t'. (W m' t' \<and> (m', t') \<noteq> (m, t)) \<and> \<not> (m' = m \<and> t' \<in> set ts)) =
      (\<lambda>m' t'. W m' t' \<and> \<not> (m' = m \<and> t' \<in> set (t # ts)))"
    by (auto simp: fun_eq_iff)
  ultimately show ?case
    using IH s(2,4-6) Cons.prems(2) by (simp add: resolved_state_def r1 split_def)
qed (simp add: resolved_state_def)

lemma resolved_of_ids:
  assumes "pending_ok W pp" "distinct ts"
  shows "distinct (map (tx_id \<circ> fst) (concat (map (resolved_of m (pending_inputs_by_tx pp)) ts)))"
proof -
  have one: "tx_id (fst x) = t" if "x \<in> set (resolved_of m (pending_inputs_by_tx pp) t)" for x t
    using that pending_okD(4) [OF assms(1), of t] by (auto simp: in_resolved_of)
  have "distinct (map (tx_id \<circ> fst) (resolved_of m (pending_inputs_by_tx pp) t))" for t
    by (simp add: resolved_of_def split: option.splits)
  with assms(2) show ?thesis
  proof (induction ts)
    case (Cons t ts)
    have "(tx_id \<circ> fst) ` set (resolved_of m (pending_inputs_by_tx pp) t) \<subseteq> {t}"
        "(tx_id \<circ> fst) ` set (concat (map (resolved_of m (pending_inputs_by_tx pp)) ts)) \<subseteq> set ts"
      using one by auto
    then have "(tx_id \<circ> fst) ` set (resolved_of m (pending_inputs_by_tx pp) t)
        \<inter> (tx_id \<circ> fst) ` set (concat (map (resolved_of m (pending_inputs_by_tx pp)) ts)) = {}"
      using Cons.prems(1) by (simp only: distinct.simps) blast
    moreover have "distinct (map (tx_id \<circ> fst) (concat (map (resolved_of m (pending_inputs_by_tx pp)) ts)))"
      by (rule Cons.IH) (use Cons.prems in simp_all)
    ultimately show ?case
      using Cons.prems(2) [of t] unfolding list.map concat.simps map_append distinct_append set_map by blast
  qed simp
qed

lemma known_input_resolves:
  assumes inv: "pending_inv pp"
  shows "resolves (set_option (input_from_output utxo out)) pp (new_known_input_from_output pp utxo out)"
proof (cases "input_from_output utxo out")
  case None
  then show ?thesis
    using resolves_nothing [OF inv, of "{}"] by (simp add: new_known_input_from_output_def)
next
  case (Some m)
  let ?by = "pending_inputs_by_tx pp" and ?W = "waiting (pending_txs_by_inputs pp)"
  have ok: "pending_ok ?W pp" and wf: "wf_waiting (pending_txs_by_inputs pp)" using inv by (simp_all add: pending_inv_def)
  note D = pending_okD [OF ok]
  show ?thesis
  proof (cases "pending_txs_by_inputs pp m")
    case None
    then have "set (pt_missing_inputs p) \<inter> {m} = {}" if "?by t = Some p" for t p
      using D(3) [of m t] that by (simp add: waiting_def)
    then show ?thesis
      using resolves_nothing [OF inv, of "{m}"] Some None by (simp add: new_known_input_from_output_def)
  next
    case (Some ts)
    let ?pp = "pp\<lparr>pending_txs_by_inputs := (pending_txs_by_inputs pp)(m := None)\<rparr>"
    have ts: "t \<in> set ts \<longleftrightarrow> (\<exists>p. ?by t = Some p \<and> m \<in> set (pt_missing_inputs p))" for t
      using D(3) [of m t] Some by (simp add: waiting_def)
    have "distinct ts" using wf Some by (simp add: wf_waiting_def)
    moreover have "pending_ok ?W ?pp" using ok by (simp add: pending_ok_def pending_totals_def)
    moreover have "\<forall>t\<in>set ts. pending_inputs_by_tx ?pp t \<noteq> None" using ts by auto
    ultimately have st: "resolved_state m ts ?W ?pp (resolve_txs m ?pp ts)" and dist: "distinct ts"
      using resolve_txs_ok by blast+
    have "(\<lambda>m' t'. ?W m' t' \<and> \<not> (m' = m \<and> t' \<in> set ts)) = waiting ((pending_txs_by_inputs pp)(m := None))"
      using Some by (auto simp: waiting_def fun_eq_iff)
    then have inv': "pending_inv (fst (resolve_txs m ?pp ts))"
      using st wf by (auto simp: resolved_state_def pending_inv_def wf_waiting_def)
    have by': "pending_inputs_by_tx (fst (resolve_txs m ?pp ts)) t = without_inputs {m} ?by t" for t
    proof (cases "t \<in> set ts")
      case False
      have "without_inputs {m} ?by t = ?by t"
      proof (cases "?by t")
        case (Some p)
        then have "filter (\<lambda>i. i \<notin> {m}) (pt_missing_inputs p) = pt_missing_inputs p"
          using ts [of t] False by (auto simp: filter_id_conv)
        then show ?thesis using Some D(5) [OF Some] by (simp only: without_inputs_def Let_def) simp
      qed (simp add: without_inputs_def)
      with False st show ?thesis by (simp add: resolved_state_def)
    qed (use st in \<open>simp add: resolved_state_def\<close>)
    have "set (concat (map (resolved_of m ?by) ts)) = satisfied {m} ?by"
    proof -
      have "m \<in> set (pt_missing_inputs p)" if "?by t = Some p" "set (pt_missing_inputs p) \<subseteq> {m}" for t p
        using that(2) D(5) [OF that(1)] by (cases "pt_missing_inputs p") auto
      then have "x \<in> satisfied {m} ?by \<longleftrightarrow> (\<exists>t\<in>set ts. x \<in> set (resolved_of m ?by t))" for x
        unfolding satisfied_def in_resolved_of using ts by blast
      then show ?thesis by auto
    qed
    with st inv' by' resolved_of_ids [OF ok dist, of m] show ?thesis
      using Some \<open>input_from_output utxo out = Some m\<close>
      by (simp add: resolves_def new_known_input_from_output_def resolved_state_def fun_eq_iff)
  qed
qed

definition known_inputs :: "tx_id \<Rightarrow> (u16 \<times> tx_output) list \<Rightarrow> missing_input set" where
  "known_inputs t outs = (\<Union>(index, out)\<in>set outs. set_option (input_from_output (t, index) out))"

lemma known_outputs_resolves:
  "pending_inv pp \<Longrightarrow> resolves (known_inputs t outs) pp (known_outputs pp t outs)"
proof (induction pp t outs rule: known_outputs.induct)
  case (1 pp t)
  then show ?case using resolves_nothing [of pp "{}"] by (simp add: known_inputs_def)
next
  case (2 pp t index out outs)
  obtain pp1 r1 where r1: "new_known_input_from_output pp (t, index) out = (pp1, r1)" by fastforce
  obtain pp2 r2 where r2: "known_outputs pp1 t outs = (pp2, r2)" by fastforce
  have s1: "resolves (set_option (input_from_output (t, index) out)) pp (pp1, r1)"
    using known_input_resolves [OF 2(2), of "(t, index)" out] r1 by simp
  then have "pending_inv pp1" by (simp add: resolves_def)
  with 2(1) [OF r1 [symmetric] refl] r2 have "resolves (known_inputs t outs) pp1 (pp2, r2)" by simp
  from resolves_trans [OF 2(2) s1 this] show ?case by (simp add: r1 r2 known_inputs_def)
qed

section \<open>Expiry\<close>

lemma waiting_remove:
  "wf_waiting by_inputs \<Longrightarrow> wf_waiting (remove_waiting t ms by_inputs)
     \<and> (waiting (remove_waiting t ms by_inputs) m u \<longleftrightarrow> waiting by_inputs m u \<and> \<not> (u = t \<and> m \<in> set ms))"
proof (induction t ms by_inputs rule: remove_waiting.induct)
  case (2 t m' ms by_inputs)
  let ?by = "case by_inputs m' of None \<Rightarrow> by_inputs
    | Some ts \<Rightarrow> (let ts = removeAll t ts in by_inputs(m' := (if ts = [] then None else Some ts)))"
  have wf: "wf_waiting ?by"
    using 2(2) by (cases "by_inputs m'") (auto simp: wf_waiting_def Let_def distinct_removeAll)
  have "waiting ?by m u \<longleftrightarrow> waiting by_inputs m u \<and> \<not> (u = t \<and> m = m')"
  proof (cases "by_inputs m'")
    case None
    then show ?thesis by (auto simp: waiting_def)
  next
    case (Some ts)
    have "removeAll t ts = [] \<longleftrightarrow> set ts - {t} = {}" by (metis set_removeAll set_empty)
    with Some show ?thesis by (auto simp: waiting_def Let_def)
  qed
  with 2(1) [OF wf] show ?case by (simp only: remove_waiting.simps) auto
qed simp

definition expiry_notice :: "(tx_id \<rightharpoonup> pending_tx) \<Rightarrow> tx_id \<Rightarrow> pool_notification list" where
  "expiry_notice by_tx t =
     (case by_tx t of
        None \<Rightarrow> []
      | Some p \<Rightarrow> [NotifyErrorInsertion t (missing_input_error (hd (pt_missing_inputs p))) (pt_insertion_source p)])"

lemma expire_tx_inv:
  assumes inv: "pending_inv pp"
  shows "pending_inv (fst (expire_tx pp t))
    \<and> pending_inputs_by_tx (fst (expire_tx pp t)) = (pending_inputs_by_tx pp)(t := None)
    \<and> snd (expire_tx pp t) = expiry_notice (pending_inputs_by_tx pp) t"
proof (cases "pending_inputs_by_tx pp t")
  case None
  then show ?thesis using inv by (auto simp: expire_tx_def expiry_notice_def fun_upd_idem)
next
  case (Some p)
  let ?by = "pending_inputs_by_tx pp"
  let ?pp = "(decrease_pool_size (pp\<lparr>pending_inputs_by_tx := ?by(t := None)\<rparr>) (pt_tx p))
    \<lparr>pending_txs_by_inputs := remove_waiting t (pt_missing_inputs p) (pending_txs_by_inputs pp)\<rparr>"
  have ok: "pending_ok (waiting (pending_txs_by_inputs pp)) pp" and wf: "wf_waiting (pending_txs_by_inputs pp)"
    using inv by (simp_all add: pending_inv_def)
  note D = pending_okD [OF ok]
  have fst: "fst (expire_tx pp t) = ?pp" using Some by (simp add: expire_tx_def Let_def)
  have "pending_ok (waiting (pending_txs_by_inputs ?pp)) ?pp"
  proof (rule pending_okI)
    show "finite (dom (pending_inputs_by_tx ?pp))" using D(1) by simp
    show "pending_totals ?pp" using totals_removed [OF D(1,2) Some] by (simp add: pending_totals_def)
    show "waiting (pending_txs_by_inputs ?pp) m u \<longleftrightarrow>
        (\<exists>q. pending_inputs_by_tx ?pp u = Some q \<and> m \<in> set (pt_missing_inputs q))" for m u
      using waiting_remove [OF wf, of t "pt_missing_inputs p" m u] D(3) [of m u] Some by auto
    show "tx_id (pt_tx q) = u \<and> pt_missing_inputs q \<noteq> [] \<and> u \<in> snd ` set (ttl_check ?pp)"
      if "pending_inputs_by_tx ?pp u = Some q" for u q
      using that D(4-6) [of u q] by (simp split: if_splits)
  qed
  then have "pending_inv ?pp" using waiting_remove [OF wf] by (simp add: pending_inv_def)
  then show ?thesis
    unfolding fst using Some D(4,5) [OF Some]
    by (simp add: expire_tx_def expiry_notice_def Let_def split: list.split)
qed

text \<open>Deadlines are handed out in the order of the clock: the newest is in front.\<close>

definition deadlines_sorted :: "pending_pool \<Rightarrow> bool" where
  "deadlines_sorted pp \<longleftrightarrow> sorted_wrt (\<ge>) (map fst (ttl_check pp))"

definition overdue :: "nat \<Rightarrow> pending_pool \<Rightarrow> tx_id set" where
  "overdue now pp = {t. \<exists>deadline\<le>now. (deadline, t) \<in> set (ttl_check pp)}"

lemma pending_inv_ttl:
  assumes "pending_inv pp" "\<forall>t\<in>dom (pending_inputs_by_tx pp). t \<in> snd ` set xs"
  shows "pending_inv (pp\<lparr>ttl_check := xs\<rparr>)"
  using assms by (auto simp: pending_inv_def pending_ok_def pending_totals_def)

definition expiry_notices :: "tx_id set \<Rightarrow> (tx_id \<rightharpoonup> pending_tx) \<Rightarrow> pool_notification set" where
  "expiry_notices T by_tx = (\<Union>t\<in>T. set (expiry_notice by_tx t))"

lemma expiry_notices_insert:
  "expiry_notices (insert t T) by_tx = set (expiry_notice by_tx t) \<union> expiry_notices T (by_tx(t := None))"
proof -
  have "set (expiry_notice by_tx u) \<subseteq> set (expiry_notice by_tx t) \<union> set (expiry_notice (by_tx(t := None)) u)" for u
    by (cases "u = t") (simp_all add: expiry_notice_def)
  moreover have "set (expiry_notice (by_tx(t := None)) u) \<subseteq> set (expiry_notice by_tx u)" for u
    by (simp add: expiry_notice_def)
  ultimately show ?thesis unfolding expiry_notices_def by blast
qed

definition expired :: "nat \<Rightarrow> pending_pool \<Rightarrow> pending_pool \<times> pool_notification list \<Rightarrow> bool" where
  "expired now pp r \<longleftrightarrow> pending_inv (fst r) \<and> deadlines_sorted (fst r)
     \<and> pending_inputs_by_tx (fst r) = pending_inputs_by_tx pp |` (- overdue now pp)
     \<and> ttl_check (fst r) = filter (\<lambda>x. now < fst x) (ttl_check pp)
     \<and> set (snd r) = expiry_notices (overdue now pp) (pending_inputs_by_tx pp)"

lemma expired_now:
  assumes "pending_inv pp" "deadlines_sorted pp" "ttl_check pp = [] \<or> now < fst (last (ttl_check pp))"
  shows "expired now pp (pp, [])"
proof -
  have late: "now < fst x" if "x \<in> set (ttl_check pp)" for x
  proof -
    have xs: "butlast (ttl_check pp) @ [last (ttl_check pp)] = ttl_check pp"
      using that by (intro append_butlast_last_id) auto
    have "sorted_wrt (\<ge>) (map fst (butlast (ttl_check pp) @ [last (ttl_check pp)]))"
      unfolding xs using assms(2) by (simp add: deadlines_sorted_def)
    moreover have "x \<in> set (butlast (ttl_check pp) @ [last (ttl_check pp)])" unfolding xs using that .
    ultimately have "fst (last (ttl_check pp)) \<le> fst x" unfolding map_append sorted_wrt_append by auto
    with that assms(3) show ?thesis by auto
  qed
  then have "overdue now pp = {}" "filter (\<lambda>x. now < fst x) (ttl_check pp) = ttl_check pp"
    by (force simp: overdue_def) (simp add: filter_id_conv late)
  with assms(1,2) show ?thesis by (simp add: expired_def expiry_notices_def restrict_map_def)
qed

lemma expire_transactions_spec:
  "pending_inv pp \<Longrightarrow> deadlines_sorted pp \<Longrightarrow> expired now pp (expire_transactions now pp)"
proof (induction now pp rule: expire_transactions.induct)
  case (1 now pp)
  show ?case
  proof (cases "ttl_check pp = [] \<or> now < fst (last (ttl_check pp))")
    case True
    then show ?thesis using expired_now [OF 1(2,3) True] by (simp add: expire_transactions.simps)
  next
    case False
    define xs d t where "xs = butlast (ttl_check pp)" and "d = fst (last (ttl_check pp))" and "t = snd (last (ttl_check pp))"
    have ttl: "ttl_check pp = xs @ [(d, t)]" and d: "d \<le> now"
      using False by (auto simp: xs_def d_def t_def)
    let ?pp = "(fst (expire_tx pp t))\<lparr>ttl_check := xs\<rparr>" and ?by = "pending_inputs_by_tx pp"
    have e: "pending_inv (fst (expire_tx pp t))" "pending_inputs_by_tx (fst (expire_tx pp t)) = ?by(t := None)"
        "snd (expire_tx pp t) = expiry_notice ?by t"
      using expire_tx_inv [OF 1(2), of t] by blast+
    have "u \<in> snd ` set xs" if u: "u \<in> dom (pending_inputs_by_tx (fst (expire_tx pp t)))" for u
    proof -
      obtain p where p: "?by u = Some p" "u \<noteq> t" using u unfolding e(2) by (auto split: if_splits)
      have "pending_ok (waiting (pending_txs_by_inputs pp)) pp" using 1(2) by (simp add: pending_inv_def)
      from pending_okD(6) [OF this p(1)] have "u \<in> snd ` set (ttl_check pp)" .
      with p(2) show ?thesis by (auto simp: ttl)
    qed
    then have inv: "pending_inv ?pp" using pending_inv_ttl [OF e(1)] by blast
    have sorted: "deadlines_sorted ?pp" using 1(3) by (simp add: deadlines_sorted_def ttl sorted_wrt_append)
    have IH: "expired now ?pp (expire_transactions now ?pp)"
      using 1(1) [OF False refl] inv sorted unfolding xs_def t_def by blast
    have over: "overdue now pp = insert t (overdue now ?pp)" using d by (auto simp: overdue_def ttl)
    have by2: "pending_inputs_by_tx ?pp = ?by(t := None)" using e(2) by simp
    have "?by |` (- overdue now pp) = (?by(t := None)) |` (- overdue now ?pp)"
      by (auto simp: over restrict_map_def fun_eq_iff)
    moreover have "expiry_notices (overdue now pp) ?by = set (snd (expire_tx pp t)) \<union> expiry_notices (overdue now ?pp) (?by(t := None))"
      by (simp only: e(3) over expiry_notices_insert)
    moreover have "expire_transactions now pp =
        (fst (expire_transactions now ?pp), snd (expire_tx pp t) @ snd (expire_transactions now ?pp))"
      using False by (subst expire_transactions.simps) (simp add: Let_def xs_def t_def)
    ultimately show ?thesis
      using IH d unfolding expired_def by2 by (simp add: ttl)
  qed
qed

section \<open>Reachable pending pools\<close>

text \<open>The clock does not go back, a transaction is only added while its id is not pending, and the totals
  fit into 64 bits.\<close>

definition pending_room :: "pending_pool \<Rightarrow> pool_tx \<Rightarrow> bool" where
  "pending_room pp tx \<longleftrightarrow> unat (pp_current_bytes pp) + unat (metered_bytes_size tx) < 2 ^ 64
     \<and> unat (pp_current_gas pp) + unat (tx_max_gas tx) < 2 ^ 64 \<and> unat (pp_current_txs pp) + 1 < 2 ^ 64"

inductive pending_reachable :: "nat \<Rightarrow> nat \<Rightarrow> pending_pool \<Rightarrow> bool" for ttl :: nat where
  start: "pending_reachable ttl now (pending_pool_new ttl)"
| insertion: "pending_reachable ttl before pp \<Longrightarrow> before \<le> now \<Longrightarrow> pending_inputs_by_tx pp (tx_id tx) = None \<Longrightarrow>
    missing \<noteq> [] \<Longrightarrow> pending_room pp tx \<Longrightarrow> insert_pending pp tx source missing now = Some pp' \<Longrightarrow>
    pending_reachable ttl now pp'"
| known: "pending_reachable ttl now pp \<Longrightarrow> new_known_tx_inner pp outs t = Some (pp', resolved) \<Longrightarrow>
    pending_reachable ttl now pp'"
| expiry: "pending_reachable ttl before pp \<Longrightarrow> before \<le> now \<Longrightarrow>
    pending_reachable ttl now (fst (expire_transactions now pp))"

lemma pp_ttl_expire_tx [simp]: "pp_ttl (fst (expire_tx pp t)) = pp_ttl pp"
  by (simp add: expire_tx_def Let_def split: option.split)

lemma pp_ttl_expire [simp]: "pp_ttl (fst (expire_transactions now pp)) = pp_ttl pp"
proof (induction now pp rule: expire_transactions.induct)
  case (1 now pp)
  then show ?case by (subst expire_transactions.simps) (auto simp: Let_def)
qed

lemma insert_pending_ttl:
  assumes "insert_pending pp tx source missing now = Some pp'"
  shows "pp_ttl pp' = pp_ttl pp" "ttl_check pp' = (now + pp_ttl pp, tx_id tx) # ttl_check pp"
  using assms by (auto simp: insert_pending_def system_time_add_def split: if_splits)

lemma pending_reachable_inv:
  "pending_reachable ttl now pp \<Longrightarrow>
     pending_inv pp \<and> deadlines_sorted pp \<and> pp_ttl pp = ttl \<and> (\<forall>x\<in>set (ttl_check pp). fst x \<le> now + ttl)"
proof (induction rule: pending_reachable.induct)
  case (start now)
  show ?case using pending_inv_new by (simp add: deadlines_sorted_def) (simp add: pending_pool_new_def)
next
  case (insertion before pp now tx missing source pp')
  then have "pending_inv pp'"
    using insert_pending_inv [of pp tx missing source now pp'] by (simp add: pending_room_def)
  moreover have "fst x \<le> now + ttl" if "x \<in> set (ttl_check pp)" for x
    using insertion that by fastforce
  ultimately show ?case
    using insertion insert_pending_ttl [OF insertion(6)] by (auto simp: deadlines_sorted_def)
next
  case (known now pp outs t pp' resolved)
  then have "resolves (known_inputs t (enumerate_from 0 outs)) pp (pp', resolved)"
    using known_outputs_resolves [of pp t "enumerate_from 0 outs"]
    by (simp add: new_known_tx_inner_def split: if_splits)
  then show ?case using known by (simp add: resolves_def deadlines_sorted_def)
next
  case (expiry before pp now)
  then have "expired now pp (expire_transactions now pp)" using expire_transactions_spec by blast
  then show ?case using expiry by (fastforce simp: expired_def)
qed

section \<open>Properties of the pending pool\<close>

text \<open>C29: Once the outputs of a transaction are known, a reachable pending pool hands out, once each, exactly
  the transactions whose missing inputs are all among them, and keeps every other one with exactly the
  inputs that are still missing.\<close>

theorem pending_resolution_exact:
  assumes "pending_reachable ttl now pp" "length outs \<le> 2 ^ 16"
  shows "\<exists>pp' resolved. new_known_tx_inner pp outs t = Some (pp', resolved)
    \<and> (\<forall>u. pending_inputs_by_tx pp' u =
         (case pending_inputs_by_tx pp u of
            None \<Rightarrow> None
          | Some p \<Rightarrow>
              (let left = filter (\<lambda>m. m \<notin> known_inputs t (enumerate_from 0 outs)) (pt_missing_inputs p)
               in if left = [] then None else Some (p\<lparr>pt_missing_inputs := left\<rparr>))))
    \<and> distinct (map (tx_id \<circ> fst) resolved)
    \<and> set resolved = {(pt_tx p, pt_insertion_source p) | u p. pending_inputs_by_tx pp u = Some p
         \<and> set (pt_missing_inputs p) \<subseteq> known_inputs t (enumerate_from 0 outs)}"
proof -
  have "pending_inv pp" using pending_reachable_inv [OF assms(1)] by blast
  from known_outputs_resolves [OF this, of t "enumerate_from 0 outs"] show ?thesis
    using assms(2)
    by (intro exI [of _ "fst (known_outputs pp t (enumerate_from 0 outs))"]
        exI [of _ "snd (known_outputs pp t (enumerate_from 0 outs))"])
      (simp add: new_known_tx_inner_def resolves_def without_inputs_def satisfied_def)
qed


text \<open>C31: The totals of every reachable pending pool are exact: the number, the size and the gas of the
  transactions that are pending, as long as no pending transaction is inserted again and the totals have room.\<close>

theorem pending_accounting_exact:
  assumes "pending_reachable ttl now pp"
  shows "unat (pp_current_txs pp) = card (dom (pending_inputs_by_tx pp))
    \<and> unat (pp_current_bytes pp) = (\<Sum>t\<in>dom (pending_inputs_by_tx pp). unat (metered_bytes_size (pt_tx (the (pending_inputs_by_tx pp t)))))
    \<and> unat (pp_current_gas pp) = (\<Sum>t\<in>dom (pending_inputs_by_tx pp). unat (tx_max_gas (pt_tx (the (pending_inputs_by_tx pp t)))))"
  using pending_reachable_inv [OF assms]
  by (simp add: pending_inv_def pending_ok_def pending_totals_def pending_sum_def)


text \<open>A deadline outlives the transaction it was set for: when a transaction that was handed out comes
  back, it is given a new deadline, but it is removed as soon as the old one has passed.\<close>

theorem pending_stale_deadline:
  assumes "pending_reachable ttl before pp" "before \<le> now" "pending_inputs_by_tx pp (tx_id tx) = None"
    and "(deadline, tx_id tx) \<in> set (ttl_check pp)" "missing \<noteq> []" "pending_room pp tx"
    and "insert_pending pp tx source missing now = Some pp'" "deadline \<le> later"
  shows "(now + ttl, tx_id tx) \<in> set (ttl_check pp')
    \<and> pending_inputs_by_tx (fst (expire_transactions later pp')) (tx_id tx) = None"
proof -
  have "pending_reachable ttl now pp'" by (rule pending_reachable.insertion [OF assms(1-3,5-7)])
  then have "expired later pp' (expire_transactions later pp')"
    using pending_reachable_inv expire_transactions_spec by blast
  moreover have "tx_id tx \<in> overdue later pp'"
    using assms(4,8) insert_pending_ttl(2) [OF assms(7)] by (auto simp: overdue_def)
  moreover have "pp_ttl pp = ttl" using pending_reachable_inv [OF assms(1)] by blast
  ultimately show ?thesis
    using insert_pending_ttl(2) [OF assms(7)] by (simp add: expired_def restrict_map_def)
qed

section \<open>A pool with one pending transaction\<close>

definition sample_waiting :: pool_tx where
  "sample_waiting = sample_tx 2 [] []"

definition sample_pending :: pending_pool where
  "sample_pending = the (insert_pending (pending_pool_new 10) sample_waiting (RPC None) [MissingUtxo (1, 0)] 0)"

lemma sample_pending_eval:
  "insert_pending (pending_pool_new 10) sample_waiting (RPC None) [MissingUtxo (1, 0)] 0 = Some sample_pending"
  "pending_inputs_by_tx sample_pending =
     [2 \<mapsto> \<lparr>pt_tx = sample_waiting, pt_insertion_source = RPC None, pt_missing_inputs = [MissingUtxo (1, 0)]\<rparr>]"
  "pending_txs_by_inputs sample_pending = [MissingUtxo (1, 0) \<mapsto> [2]]"
  "ttl_check sample_pending = [(10, 2)]" "pp_ttl sample_pending = 10"
  "pp_current_txs sample_pending = 1" "pp_current_bytes sample_pending = 20" "pp_current_gas sample_pending = 10"
  by (simp_all add: sample_pending_def insert_pending_def pending_pool_new_def sample_waiting_def system_time_add_def
      hash_insert_def rust_eval)

lemma sample_pending_reachable: "pending_reachable 10 0 sample_pending"
  by (rule pending_reachable.insertion [OF pending_reachable.start _ _ _ _ sample_pending_eval(1)])
    (simp_all add: pending_pool_new_def pending_room_def sample_waiting_def)

lemma sample_known: "known_inputs 1 (enumerate_from 0 [OutCoin 3 4 5]) = {MissingUtxo (1, 0)}"
  by (simp add: known_inputs_def)

theorem pending_resolution_exact_witness:
  "\<exists>pp' resolved. new_known_tx_inner sample_pending [OutCoin 3 4 5] 1 = Some (pp', resolved)
     \<and> pending_inputs_by_tx pp' 2 = None \<and> set resolved = {(sample_waiting, RPC None)}"
proof -
  have "{(pt_tx p, pt_insertion_source p) | u p. pending_inputs_by_tx sample_pending u = Some p
      \<and> set (pt_missing_inputs p) \<subseteq> {MissingUtxo (1, 0)}} = {(sample_waiting, RPC None)}"
    by (auto simp: sample_pending_eval split: if_splits)
  then show ?thesis
    using pending_resolution_exact [OF sample_pending_reachable, of "[OutCoin 3 4 5]" 1]
    unfolding sample_known by (auto simp: sample_pending_eval)
qed


theorem pending_accounting_exact_witness:
  "unat (pp_current_bytes sample_pending) = unat (metered_bytes_size sample_waiting)"
  using pending_accounting_exact [OF sample_pending_reachable] by (simp add: sample_pending_eval)

definition sample_pending_twice :: pending_pool where
  "sample_pending_twice = the (insert_pending sample_pending sample_waiting (RPC None) [MissingUtxo (1, 0)] 5)"

lemma sample_pending_twice_eval:
  "insert_pending sample_pending sample_waiting (RPC None) [MissingUtxo (1, 0)] 5 = Some sample_pending_twice"
  by (simp add: sample_pending_twice_def insert_pending_def system_time_add_def sample_pending_eval(5))


definition sample_handed_out :: pending_pool where
  "sample_handed_out = fst (known_outputs sample_pending 1 (enumerate_from 0 [OutCoin 3 4 5]))"

lemma sample_handed_out_eval:
  "new_known_tx_inner sample_pending [OutCoin 3 4 5] 1 = Some (sample_handed_out, [(sample_waiting, RPC None)])"
  "pending_inputs_by_tx sample_handed_out = Map.empty" "ttl_check sample_handed_out = [(10, 2)]"
  "pp_ttl sample_handed_out = 10" "pp_current_txs sample_handed_out = 0" "pp_current_bytes sample_handed_out = 0"
  "pp_current_gas sample_handed_out = 0"
  by (simp_all add: sample_handed_out_def new_known_tx_inner_def new_known_input_from_output_def resolve_tx_def
      sample_pending_eval Let_def decrease_pool_size_def sample_waiting_def rust_eval fun_eq_iff)

lemma sample_handed_out_reachable: "pending_reachable 10 0 sample_handed_out"
  by (rule pending_reachable.known [OF sample_pending_reachable sample_handed_out_eval(1)])

theorem pending_stale_deadline_witness:
  "\<exists>pp'. insert_pending sample_handed_out sample_waiting (RPC None) [MissingContract 9] 8 = Some pp'
     \<and> (18, 2) \<in> set (ttl_check pp') \<and> pending_inputs_by_tx (fst (expire_transactions 11 pp')) 2 = None"
proof -
  obtain pp' where "insert_pending sample_handed_out sample_waiting (RPC None) [MissingContract 9] 8 = Some pp'"
    by (simp add: insert_pending_def system_time_add_def sample_handed_out_eval)
  with pending_stale_deadline [OF sample_handed_out_reachable _ _ _ _ _ this, of 10 11] show ?thesis
    by (simp add: sample_handed_out_eval sample_waiting_def pending_room_def)
qed

end
