(* ===== verification/Tx_Pool_Worker.thy ===== *)
theory Tx_Pool_Worker
  imports Tx_Pool_Integrity Tx_Pending_Pool
begin

text \<open>The worker that owns the pool and the pending pool (\<open>txpool_v2/src/pool_worker.rs\<close>). What it tries to
  send to its channels is appended to lists of its state: notifications, and requests to insert resolved
  transactions again. The chain and the clocks at the time a transaction is inserted are an argument.\<close>

section \<open>State and requests\<close>

record world =
  latest_view :: "(string, persistent_storage) result"
  instant_now :: instant
  system_now :: nat

(* src/crates/services/txpool_v2/src/pool_worker.rs:255-266 PoolWorker *)
record ('g, 'n) pool_worker =
  w_pool :: "('g, 'n) pool"
  w_pending_pool :: pending_pool
  w_insert_requests :: resolved_txs
  w_notifications :: "pool_notification list"

text \<open>A block is imported with the outputs of its transactions and the ids in their statuses.\<close>

(* src/crates/services/txpool_v2/src/pool_worker.rs:200-210 PoolRemoveRequest *)
datatype pool_remove_request =
    ProcessBlock "tx_output list list" "tx_id list"
  | SkippedTransactions "(tx_id \<times> pool_error) list"
  | TxAndCoinDependents "tx_id list" pool_error

(* src/crates/services/txpool_v2/src/pool_worker.rs:99-110 PoolWorker of PoolWorkerInterface::new *)
definition worker_new :: "('g, 'n) pool \<Rightarrow> ('g, 'n) pool_worker" where
  "worker_new p =
     \<lparr>w_pool = p, w_pending_pool = pending_pool_new (pending_pool_tx_ttl (p_config p)),
      w_insert_requests = [], w_notifications = []\<rparr>"

definition try_send :: "pool_notification list \<Rightarrow> ('g, 'n) pool_worker \<Rightarrow> ('g, 'n) pool_worker" where
  "try_send ns w = w\<lparr>w_notifications := w_notifications w @ ns\<rparr>"

section \<open>Insertion\<close>

(* src/crates/services/txpool_v2/src/pool_worker.rs:596-614 pending pool limits of has_enough_space_in_pools *)
definition pending_share :: "'a::len word \<Rightarrow> u16 \<Rightarrow> 'a word" where
  "pending_share limit percentage = saturating_mul limit (ucast percentage) div 100"

(* src/crates/services/txpool_v2/src/pool_worker.rs:576-622 PoolWorker::has_enough_space_in_pools *)
definition has_enough_space_in_pools :: "('g, 'n) pool_worker \<Rightarrow> pool_tx \<Rightarrow> bool" where
  "has_enough_space_in_pools w tx \<longleftrightarrow>
     (let config = p_config (w_pool w);
          lims = limits config;
          percentage = max_pending_pool_size_percentage config;
          gas_used = saturating_add (current_gas (w_pool w)) (tx_max_gas tx);
          bytes_used = saturating_add (current_bytes_size (w_pool w)) (metered_bytes_size tx);
          txs_used = saturating_add (of_nat (length (tx_id_to_storage_id (w_pool w)))) 1
      in if gas_used > pl_max_gas lims \<or> bytes_used > max_bytes_size lims \<or> txs_used > max_txs lims
         then False
         else
           (let gas_used = saturating_add (pp_current_gas (w_pending_pool w)) (tx_max_gas tx);
                bytes_used = saturating_add (pp_current_bytes (w_pending_pool w)) (metered_bytes_size tx);
                txs_used = saturating_add (pp_current_txs (w_pending_pool w)) 1
            in \<not> (gas_used > pending_share (pl_max_gas lims) percentage
                  \<or> bytes_used > pending_share (max_bytes_size lims) percentage
                  \<or> txs_used > pending_share (max_txs lims) percentage)))"

(* src/crates/services/txpool_v2/src/pool_worker.rs:377-396 extended source of insert *)
fun extended_source :: "('g, 'n) digraph \<Rightarrow> ('g, 'n) pool \<Rightarrow> tx_id \<Rightarrow> insertion_source \<Rightarrow> extended_insertion_source option" where
  "extended_source G p t (P2P info) = Some (ExtP2P info)"
| "extended_source G p t (RPC channel) = map_option (\<lambda>d. ExtRPC (sd_transaction d) channel) (pool_get G p t)"

(* src/crates/services/txpool_v2/src/pool_worker.rs:375-433 inserted transaction in PoolWorker::insert *)
definition on_inserted ::
    "('g, 'n) digraph \<Rightarrow> ('g, 'n) pool_worker \<Rightarrow> pool_tx \<Rightarrow> insertion_source \<Rightarrow> nat \<Rightarrow> pool_tx list
      \<Rightarrow> ('g, 'n) pool_worker option" where
  "on_inserted G w tx source time removed =
     Option.bind (extended_source G (w_pool w) (tx_id tx) source) (\<lambda>ext.
     map_option
       (\<lambda>(pp, resolved).
          try_send (NotifyInserted (tx_id tx) time (tx_expiration tx) ext
                      # map (\<lambda>r. NotifyRemoved (tx_id r) (Removed (LessWorth (tx_id tx)))) removed)
            (w\<lparr>w_pending_pool := pp, w_insert_requests := w_insert_requests w @ resolved\<rparr>))
       (new_known_tx (w_pending_pool w) tx))"

(* src/crates/services/txpool_v2/src/pool_worker.rs:434-459 missing inputs in PoolWorker::insert *)
definition on_missing_inputs ::
    "('g, 'n) pool_worker \<Rightarrow> pool_tx \<Rightarrow> insertion_source \<Rightarrow> nat \<Rightarrow> missing_input list \<Rightarrow> ('g, 'n) pool_worker option" where
  "on_missing_inputs w tx source time missing =
     (case missing of
        [] \<Rightarrow> Some w
      | m # _ \<Rightarrow>
          (if \<not> has_enough_space_in_pools w tx
           then Some (try_send [NotifyErrorInsertion (tx_id tx) (missing_input_error m) source] w)
           else map_option (\<lambda>pp. w\<lparr>w_pending_pool := pp\<rparr>) (insert_pending (w_pending_pool w) tx source missing time)))"

(* src/crates/services/txpool_v2/src/pool_worker.rs:353-473 PoolWorker::insert *)
definition worker_insert ::
    "('g, 'n) digraph \<Rightarrow> world \<Rightarrow> ('g, 'n) pool_worker \<Rightarrow> pool_tx \<Rightarrow> insertion_source \<Rightarrow> ('g, 'n) pool_worker option" where
  "worker_insert G env w tx source =
     (case latest_view env of
        Inl err \<Rightarrow> Some (try_send [NotifyErrorInsertion (tx_id tx) (DatabaseError err) source] w)
      | Inr view \<Rightarrow>
          (case pool_insert G (w_pool w) tx view (instant_now env) of
             None \<Rightarrow> None
           | Some (p, Inr removed) \<Rightarrow> on_inserted G (w\<lparr>w_pool := p\<rparr>) tx source (system_now env) removed
           | Some (p, Inl (InsertionMissingInputs missing)) \<Rightarrow>
               on_missing_inputs (w\<lparr>w_pool := p\<rparr>) tx source (system_now env) missing
           | Some (p, Inl (InsertionError error)) \<Rightarrow>
               Some (try_send [NotifyErrorInsertion (tx_id tx) error source] (w\<lparr>w_pool := p\<rparr>))))"

section \<open>The other requests\<close>

(* src/crates/services/txpool_v2/src/pool_worker.rs:475-484 PoolWorker::extract_block_transactions *)
definition extract_block_transactions ::
    "('g, 'n) digraph \<Rightarrow> ('g, 'n) pool_worker \<Rightarrow> constraints \<Rightarrow> (('g, 'n) pool_worker \<times> pool_tx list) option" where
  "extract_block_transactions G w c =
     map_option (\<lambda>(p, txs). (w\<lparr>w_pool := p\<rparr>, txs)) (extract_transactions_for_block G (w_pool w) c)"

(* src/crates/services/txpool_v2/src/pool_worker.rs:337-344 loop over insert requests *)
fun insert_requests ::
    "('g, 'n) digraph \<Rightarrow> (tx_id \<Rightarrow> world) \<Rightarrow> ('g, 'n) pool_worker \<Rightarrow> resolved_txs \<Rightarrow> ('g, 'n) pool_worker option" where
  "insert_requests G env w [] = Some w"
| "insert_requests G env w ((tx, source) # txs) =
     Option.bind (worker_insert G (env (tx_id tx)) w tx source) (\<lambda>w. insert_requests G env w txs)"

(* src/crates/services/txpool_v2/src/pool_worker.rs:486-500 PoolWorker::process_block *)
definition worker_process_block ::
    "('g, 'n) digraph \<Rightarrow> (tx_id \<Rightarrow> world) \<Rightarrow> ('g, 'n) pool_worker \<Rightarrow> tx_output list list \<Rightarrow> tx_id list
      \<Rightarrow> ('g, 'n) pool_worker option" where
  "worker_process_block G env w outputs ids =
     Option.bind (process_block G (w_pool w) ids) (\<lambda>p.
     Option.bind (new_known_txs (w_pending_pool w) (zip outputs ids)) (\<lambda>(pp, resolved).
     insert_requests G env (w\<lparr>w_pool := p, w_pending_pool := pp\<rparr>) resolved))"

text \<open>The text of the error is a parameter: it mentions an id and the reason.\<close>

(* src/crates/services/txpool_v2/src/pool_worker.rs:502-517 PoolWorker::remove_skipped_transactions *)
fun remove_skipped_transactions ::
    "('g, 'n) digraph \<Rightarrow> (tx_id \<Rightarrow> pool_error \<Rightarrow> string) \<Rightarrow> ('g, 'n) pool_worker \<Rightarrow> (tx_id \<times> pool_error) list
      \<Rightarrow> ('g, 'n) pool_worker option" where
  "remove_skipped_transactions G fmt w [] = Some w"
| "remove_skipped_transactions G fmt w ((t, reason) # parents) =
     Option.bind (remove_skipped_transaction G (w_pool w) t) (\<lambda>(p, removed).
       remove_skipped_transactions G fmt
         (try_send (map (\<lambda>tx. NotifyRemoved (tx_id tx) (SkippedTransaction (fmt (tx_id tx) reason))) removed)
            (w\<lparr>w_pool := p\<rparr>)) parents)"

(* src/crates/services/txpool_v2/src/pool_worker.rs:519-534 PoolWorker::remove_and_coin_dependents *)
definition remove_and_coin_dependents ::
    "('g, 'n) digraph \<Rightarrow> ('g, 'n) pool_worker \<Rightarrow> tx_id list \<Rightarrow> pool_error \<Rightarrow> ('g, 'n) pool_worker option" where
  "remove_and_coin_dependents G w tx_ids error =
     map_option
       (\<lambda>(p, removed). try_send (map (\<lambda>tx. NotifyRemoved (tx_id tx) error) removed) (w\<lparr>w_pool := p\<rparr>))
       (remove_transaction_and_dependents G (w_pool w) tx_ids)"

(* src/crates/services/txpool_v2/src/pool_worker.rs:298-310 dispatch of remove requests *)
fun handle_remove ::
    "('g, 'n) digraph \<Rightarrow> (tx_id \<Rightarrow> world) \<Rightarrow> (tx_id \<Rightarrow> pool_error \<Rightarrow> string) \<Rightarrow> ('g, 'n) pool_worker
      \<Rightarrow> pool_remove_request \<Rightarrow> ('g, 'n) pool_worker option" where
  "handle_remove G env fmt w (ProcessBlock outputs ids) = worker_process_block G env w outputs ids"
| "handle_remove G env fmt w (SkippedTransactions parents) = remove_skipped_transactions G fmt w parents"
| "handle_remove G env fmt w (TxAndCoinDependents ids error) = remove_and_coin_dependents G w ids error"

(* src/crates/services/txpool_v2/src/pool_worker.rs:346-348 expiration check of run *)
definition expiration_tick :: "nat \<Rightarrow> ('g, 'n) pool_worker \<Rightarrow> ('g, 'n) pool_worker" where
  "expiration_tick now w =
     (let (pp, ns) = expire_transactions now (w_pending_pool w) in try_send ns (w\<lparr>w_pending_pool := pp\<rparr>))"

(* src/crates/services/txpool_v2/src/pool_worker.rs:536-541 PoolWorker::get_tx_ids *)
definition get_tx_ids :: "('g, 'n) pool_worker \<Rightarrow> usize \<Rightarrow> tx_id list" where
  "get_tx_ids w m = take (unat m) (iter_tx_ids (w_pool w))"

(* src/crates/services/txpool_v2/src/pool_worker.rs:543-560 PoolWorker::get_txs *)
definition get_txs :: "('g, 'n) digraph \<Rightarrow> ('g, 'n) pool_worker \<Rightarrow> tx_id list \<Rightarrow> (pool_tx \<times> instant) option list" where
  "get_txs G w tx_ids =
     map (\<lambda>t. map_option (\<lambda>d. (sd_transaction d, creation_instant d)) (pool_get G (w_pool w) t)) tx_ids"

(* src/crates/services/txpool_v2/src/pool_worker.rs:562-574 PoolWorker::get_non_existing_txs *)
definition get_non_existing_txs :: "('g, 'n) pool_worker \<Rightarrow> tx_id list \<Rightarrow> tx_id list" where
  "get_non_existing_txs w tx_ids = filter (\<lambda>t. \<not> pool_contains (w_pool w) t) tx_ids"

section \<open>The configuration never changes\<close>

lemma on_removal_config: "on_removal p d = Some p' \<Longrightarrow> p_config p' = p_config p"
  by (auto simp: on_removal.simps Let_def)

lemma update_on_removal_config: "update_components_and_caches_on_removal p ds = Some p' \<Longrightarrow> p_config p' = p_config p"
proof (induction ds arbitrary: p)
  case (Cons d ds)
  then obtain q where "on_removal p d = Some q" "update_components_and_caches_on_removal q ds = Some p'"
    by (auto simp: update_components_and_caches_on_removal.simps bind_eq_Some_conv)
  then show ?case using Cons.IH on_removal_config by metis
qed (simp add: update_components_and_caches_on_removal.simps)

lemma remove_subtree_config: "remove_subtree G p i = Some (p', ds) \<Longrightarrow> p_config p' = p_config p"
  by (auto simp: remove_subtree_def bind_eq_Some_conv dest!: update_on_removal_config)

lemma remove_subtrees_config: "remove_subtrees G p is = Some (p', ds) \<Longrightarrow> p_config p' = p_config p"
proof (induction "is" arbitrary: p ds)
  case (Cons i "is")
  then obtain q ds1 ds2 where "remove_subtree G p i = Some (q, ds1)" "remove_subtrees G q is = Some (p', ds2)"
    by (auto simp: remove_subtrees.simps bind_eq_Some_conv)
  then show ?case using Cons.IH remove_subtree_config by metis
qed (simp add: remove_subtrees.simps)

lemma remove_ids_config: "remove_ids_and_dependents G p ts = Some (p', ds) \<Longrightarrow> p_config p' = p_config p"
proof (induction ts arbitrary: p ds)
  case (Cons t ts)
  show ?case
  proof (cases "map_of (tx_id_to_storage_id p) t")
    case None
    then show ?thesis using Cons by (simp add: remove_ids_and_dependents.simps)
  next
    case (Some i)
    let ?p = "p\<lparr>tx_id_to_storage_id := remove_id t (tx_id_to_storage_id p)\<rparr>"
    obtain q ds1 ds2 where "remove_subtree G ?p i = Some (q, ds1)" "remove_ids_and_dependents G q ts = Some (p', ds2)"
      using Cons.prems Some by (auto simp: remove_ids_and_dependents.simps bind_eq_Some_conv)
    then show ?thesis using Cons.IH [of q ds2] remove_subtree_config [of G ?p i q ds1] by simp
  qed
qed (simp add: remove_ids_and_dependents.simps)

lemma remove_transaction_and_dependents_config:
  "remove_transaction_and_dependents G p ts = Some (p', txs) \<Longrightarrow> p_config p' = p_config p"
  by (auto simp: remove_transaction_and_dependents_def dest!: remove_ids_config)

lemma remove_skipped_config: "remove_skipped_transaction G p t = Some (p', txs) \<Longrightarrow> p_config p' = p_config p"
  by (auto simp: remove_skipped_transaction_def Let_def dest!: remove_subtrees_config)

lemma store_checked_config: "store_checked G p ct now = Some p' \<Longrightarrow> p_config p' = p_config p"
  by (auto simp: store_checked_def Let_def split: option.splits prod.splits if_splits)

lemma pool_insert_config:
  assumes "pool_insert G p tx ps now = Some (p', r)"
  shows "p_config p' = p_config p"
  using assms
  by (auto simp: pool_insert_def insert_inner_def bind_eq_Some_conv split: option.splits sum.splits
      dest!: remove_subtrees_config store_checked_config)

lemma extract_all_config: "extract_all p ds = Some p' \<Longrightarrow> p_config p' = p_config p"
proof (induction ds arbitrary: p)
  case (Cons d ds)
  let ?p = "p\<lparr>p_extracted := new_extracted_transaction (p_extracted p) (sd_transaction d)\<rparr>"
  obtain q where "update_components_and_caches_on_removal ?p [d] = Some q" "extract_all q ds = Some p'"
    using Cons.prems by (auto simp: extract_all.simps bind_eq_Some_conv)
  then show ?case using Cons.IH [of q] update_on_removal_config [of ?p "[d]" q] by simp
qed (simp add: extract_all.simps)

lemma extract_config: "extract_transactions_for_block G p c = Some (p', txs) \<Longrightarrow> p_config p' = p_config p"
  by (auto simp: extract_transactions_for_block_def bind_eq_Some_conv Let_def split: if_splits dest!: extract_all_config)

lemma process_executed_config: "process_executed G p js ts = Some (p', js') \<Longrightarrow> p_config p' = p_config p"
proof (induction ts arbitrary: p js)
  case (Cons t ts)
  let ?p = "p\<lparr>p_extracted := new_executed_transaction (p_extracted p) t\<rparr>"
  show ?case
  proof (cases "map_of (tx_id_to_storage_id p) t")
    case None
    then show ?thesis using Cons.prems Cons.IH [of ?p js] by (simp add: process_executed.simps Let_def)
  next
    case (Some i)
    obtain s od where r: "remove_transaction G (p_storage p) i = (s, od)" by fastforce
    let ?q = "p\<lparr>p_extracted := new_executed_transaction (p_extracted p) t,
      tx_id_to_storage_id := remove_id t (tx_id_to_storage_id p), p_storage := s\<rparr>"
    show ?thesis
    proof (cases od)
      case None
      then show ?thesis
        using Cons.prems Some r Cons.IH [of ?q js] by (simp add: process_executed.simps Let_def)
    next
      case (Some d)
      then obtain q js1 where "update_components_and_caches_on_removal ?q [d] = Some q" "process_executed G q js1 ts = Some (p', js')"
        using Cons.prems \<open>map_of (tx_id_to_storage_id p) t = Some i\<close> r
        by (auto simp: process_executed.simps Let_def split: option.splits)
      then show ?thesis using Cons.IH [of q js1] update_on_removal_config [of ?q "[d]" q] by simp
    qed
  qed
qed (simp add: process_executed.simps)

lemma promote_found_config: "promote_found G p b js = Some (p', b') \<Longrightarrow> p_config p' = p_config p"
  by (induction G p b js rule: promote_found.induct) (auto split: option.splits)

lemma process_block_config: "process_block G p ts = Some p' \<Longrightarrow> p_config p' = p_config p"
  by (auto simp: process_block_def bind_eq_Some_conv split: if_splits dest!: process_executed_config promote_found_config)

section \<open>The share of the pending pool\<close>

definition no_larger :: "pending_pool \<Rightarrow> pending_pool \<Rightarrow> bool" where
  "no_larger pp' pp \<longleftrightarrow> pp_current_bytes pp' \<le> pp_current_bytes pp \<and> pp_current_gas pp' \<le> pp_current_gas pp
     \<and> pp_current_txs pp' \<le> pp_current_txs pp"

lemma no_larger_refl [simp]: "no_larger pp pp"
  by (simp add: no_larger_def)

lemma no_larger_trans: "no_larger pp2 pp1 \<Longrightarrow> no_larger pp1 pp \<Longrightarrow> no_larger pp2 pp"
  unfolding no_larger_def by (blast intro: order_trans)

lemma decrease_no_larger: "no_larger (decrease_pool_size (pp\<lparr>pending_inputs_by_tx := by_tx\<rparr>) tx) pp"
  by (simp add: no_larger_def decrease_pool_size_def saturating_sub_le)

lemma resolve_tx_no_larger: "no_larger (fst (resolve_tx m pp t)) pp"
  using decrease_no_larger by (auto simp: resolve_tx_def Let_def no_larger_def split: option.split)

lemma resolve_txs_no_larger: "no_larger (fst (resolve_txs m pp ts)) pp"
proof (induction ts arbitrary: pp)
  case (Cons t ts)
  show ?case
    using no_larger_trans [OF Cons.IH [of "fst (resolve_tx m pp t)"] resolve_tx_no_larger]
    by (simp add: split_def Let_def)
qed simp

lemma known_input_no_larger: "no_larger (fst (new_known_input_from_output pp utxo out)) pp"
proof -
  have "no_larger (fst (resolve_txs m (pp\<lparr>pending_txs_by_inputs := by_inputs\<rparr>) ts)) pp" for m by_inputs ts
    using resolve_txs_no_larger [of m "pp\<lparr>pending_txs_by_inputs := by_inputs\<rparr>" ts] by (simp add: no_larger_def)
  then show ?thesis by (auto simp: new_known_input_from_output_def split: option.split)
qed

lemma known_outputs_no_larger: "no_larger (fst (known_outputs pp t outs)) pp"
proof (induction outs arbitrary: pp)
  case (Cons x outs)
  obtain index out where x: "x = (index, out)" by fastforce
  show ?case
    using no_larger_trans [OF Cons.IH [of "fst (new_known_input_from_output pp (t, index) out)"] known_input_no_larger]
    by (simp add: x split_def Let_def)
qed simp

lemma new_known_tx_inner_no_larger: "new_known_tx_inner pp outs t = Some (pp', rs) \<Longrightarrow> no_larger pp' pp"
  using known_outputs_no_larger [of pp t "enumerate_from 0 outs"]
  by (simp add: new_known_tx_inner_def split: if_splits)

lemma new_known_txs_no_larger: "new_known_txs pp txs = Some (pp', rs) \<Longrightarrow> no_larger pp' pp"
proof (induction txs arbitrary: pp rs)
  case (Cons x txs)
  obtain outs t where x: "x = (outs, t)" by fastforce
  obtain pp1 r1 r2 where "new_known_tx_inner pp outs t = Some (pp1, r1)" "new_known_txs pp1 txs = Some (pp', r2)"
    using Cons.prems by (auto simp: x bind_eq_Some_conv)
  then show ?case using Cons.IH no_larger_trans new_known_tx_inner_no_larger by blast
qed simp

lemma expire_tx_no_larger: "no_larger (fst (expire_tx pp t)) pp"
  using decrease_no_larger by (auto simp: expire_tx_def Let_def no_larger_def split: option.split)

lemma expire_no_larger: "no_larger (fst (expire_transactions now pp)) pp"
proof (induction now pp rule: expire_transactions.induct)
  case (1 now pp)
  show ?case
  proof (cases "ttl_check pp = [] \<or> now < fst (last (ttl_check pp))")
    case True
    then show ?thesis by (simp add: expire_transactions.simps)
  next
    case False
    let ?e = "expire_tx pp (snd (last (ttl_check pp)))"
    have "no_larger (fst (expire_transactions now (fst ?e\<lparr>ttl_check := butlast (ttl_check pp)\<rparr>)))
        (fst ?e\<lparr>ttl_check := butlast (ttl_check pp)\<rparr>)"
      using 1 [OF False refl] .
    then have "no_larger (fst (expire_transactions now (fst ?e\<lparr>ttl_check := butlast (ttl_check pp)\<rparr>))) (fst ?e)"
      by (simp add: no_larger_def)
    from no_larger_trans [OF this expire_tx_no_larger] show ?thesis
      using False by (subst expire_transactions.simps) (simp add: Let_def)
  qed
qed

definition within_share :: "('g, 'n) pool_worker \<Rightarrow> bool" where
  "within_share w \<longleftrightarrow>
     (let config = p_config (w_pool w); percentage = max_pending_pool_size_percentage config
      in pp_current_gas (w_pending_pool w) \<le> pending_share (pl_max_gas (limits config)) percentage
         \<and> pp_current_bytes (w_pending_pool w) \<le> pending_share (max_bytes_size (limits config)) percentage
         \<and> pp_current_txs (w_pending_pool w) \<le> pending_share (max_txs (limits config)) percentage)"

lemma within_share_mono:
  "within_share w \<Longrightarrow> no_larger (w_pending_pool w') (w_pending_pool w) \<Longrightarrow> p_config (w_pool w') = p_config (w_pool w) \<Longrightarrow>
     within_share w'"
  by (auto simp: within_share_def no_larger_def Let_def elim: order_trans)

lemma try_send_simps [simp]:
  "w_pool (try_send ns w) = w_pool w" "w_pending_pool (try_send ns w) = w_pending_pool w"
  "w_insert_requests (try_send ns w) = w_insert_requests w" "w_notifications (try_send ns w) = w_notifications w @ ns"
  by (simp_all add: try_send_def)

lemma on_missing_share:
  assumes share: "within_share w" and "on_missing_inputs w tx source time missing = Some w'"
  shows "within_share w' \<and> w_pool w' = w_pool w"
proof (cases "has_enough_space_in_pools w tx \<and> missing \<noteq> []")
  case False
  then have "w_pending_pool w' = w_pending_pool w" "w_pool w' = w_pool w"
    using assms(2) by (auto simp: on_missing_inputs_def split: list.splits if_splits)
  then show ?thesis using within_share_mono [OF share, of w'] by simp
next
  case True
  then obtain m ms where "missing = m # ms" by (cases missing) auto
  with True assms(2) have "map_option (\<lambda>pp. w\<lparr>w_pending_pool := pp\<rparr>) (insert_pending (w_pending_pool w) tx source missing time) = Some w'"
    by (simp add: on_missing_inputs_def)
  then obtain pp where pp: "insert_pending (w_pending_pool w) tx source missing time = Some pp" "w' = w\<lparr>w_pending_pool := pp\<rparr>"
    by (auto simp del: fun_upd_apply)
  have "pp_current_gas pp = saturating_add (pp_current_gas (w_pending_pool w)) (tx_max_gas tx)"
    "pp_current_bytes pp = saturating_add (pp_current_bytes (w_pending_pool w)) (metered_bytes_size tx)"
    "pp_current_txs pp = saturating_add (pp_current_txs (w_pending_pool w)) 1"
    using pp(1) by (auto simp: insert_pending_def)
  then show ?thesis
    using True by (auto simp: pp(2) within_share_def has_enough_space_in_pools_def Let_def not_less split: if_splits)
qed

lemma worker_insert_share:
  assumes share: "within_share w" and "worker_insert G env w tx source = Some w'"
  shows "within_share w' \<and> p_config (w_pool w') = p_config (w_pool w)"
proof (cases "latest_view env")
  case (Inl err)
  then show ?thesis using assms within_share_mono [OF share, of w'] by (auto simp: worker_insert_def)
next
  case (Inr view)
  obtain p r where p: "pool_insert G (w_pool w) tx view (instant_now env) = Some (p, r)"
    using assms(2) Inr by (auto simp: worker_insert_def split: option.splits)
  have cfg: "p_config p = p_config (w_pool w)" using pool_insert_config [OF p] .
  let ?w = "w\<lparr>w_pool := p\<rparr>"
  have share1: "within_share ?w" using share by (simp add: within_share_def cfg)
  show ?thesis
  proof (cases r)
    case (Inr removed)
    then have "on_inserted G ?w tx source (system_now env) removed = Some w'"
      using assms(2) p \<open>latest_view env = Inr view\<close> by (simp add: worker_insert_def)
    then have "w_pool w' = p" "no_larger (w_pending_pool w') (w_pending_pool w)"
      using new_known_tx_inner_no_larger by (auto simp: on_inserted_def new_known_tx_def bind_eq_Some_conv)
    then show ?thesis using within_share_mono [OF share, of w'] cfg by simp
  next
    case (Inl e)
    show ?thesis
    proof (cases e)
      case (InsertionError x)
      then show ?thesis
        using assms(2) p Inl \<open>latest_view env = Inr view\<close> cfg within_share_mono [OF share, of w']
        by (auto simp: worker_insert_def)
    next
      case (InsertionMissingInputs missing)
      then have "on_missing_inputs ?w tx source (system_now env) missing = Some w'"
        using assms(2) p Inl \<open>latest_view env = Inr view\<close> by (simp add: worker_insert_def)
      then show ?thesis
        using on_missing_share [OF share1] cfg by fastforce
    qed
  qed
qed

lemma insert_requests_share:
  "within_share w \<Longrightarrow> insert_requests G env w txs = Some w' \<Longrightarrow> within_share w' \<and> p_config (w_pool w') = p_config (w_pool w)"
proof (induction txs arbitrary: w)
  case (Cons x txs)
  obtain tx source where x: "x = (tx, source)" by fastforce
  obtain w1 where w1: "worker_insert G (env (tx_id tx)) w tx source = Some w1" "insert_requests G env w1 txs = Some w'"
    using Cons.prems(2) by (auto simp: x bind_eq_Some_conv)
  from worker_insert_share [OF Cons.prems(1) w1(1)] Cons.IH [OF _ w1(2)] show ?case by simp
qed simp

lemma remove_skipped_transactions_pending:
  "remove_skipped_transactions G fmt w ps = Some w' \<Longrightarrow>
     w_pending_pool w' = w_pending_pool w \<and> p_config (w_pool w') = p_config (w_pool w)"
proof (induction ps arbitrary: w)
  case (Cons x ps)
  obtain t reason where x: "x = (t, reason)" by fastforce
  obtain p txs where p: "remove_skipped_transaction G (w_pool w) t = Some (p, txs)"
    using Cons.prems by (auto simp: x bind_eq_Some_conv)
  let ?w = "try_send (map (\<lambda>tx. NotifyRemoved (tx_id tx) (SkippedTransaction (fmt (tx_id tx) reason))) txs) (w\<lparr>w_pool := p\<rparr>)"
  have "remove_skipped_transactions G fmt ?w ps = Some w'" using Cons.prems p by (simp add: x)
  from Cons.IH [OF this] remove_skipped_config [OF p] show ?case by simp
qed simp

lemma handle_remove_share:
  assumes share: "within_share w" and "handle_remove G env fmt w req = Some w'"
  shows "within_share w' \<and> p_config (w_pool w') = p_config (w_pool w)"
proof (cases req)
  case (ProcessBlock outputs ids)
  obtain p pp resolved where p: "process_block G (w_pool w) ids = Some p"
      "new_known_txs (w_pending_pool w) (zip outputs ids) = Some (pp, resolved)"
      "insert_requests G env (w\<lparr>w_pool := p, w_pending_pool := pp\<rparr>) resolved = Some w'"
    using assms(2) ProcessBlock by (auto simp: worker_process_block_def bind_eq_Some_conv)
  have "within_share (w\<lparr>w_pool := p, w_pending_pool := pp\<rparr>)"
    by (rule within_share_mono [OF share]) (simp_all add: process_block_config [OF p(1)] new_known_txs_no_larger [OF p(2)])
  from insert_requests_share [OF this p(3)] show ?thesis by (simp add: process_block_config [OF p(1)])
next
  case (SkippedTransactions parents)
  then show ?thesis
    using assms(2) remove_skipped_transactions_pending [of G fmt w parents w'] within_share_mono [OF share, of w'] by simp
next
  case (TxAndCoinDependents ids error)
  then obtain p txs where p: "remove_transaction_and_dependents G (w_pool w) ids = Some (p, txs)"
      "w_pool w' = p" "w_pending_pool w' = w_pending_pool w"
    using assms(2) by (auto simp: remove_and_coin_dependents_def)
  then show ?thesis
    using within_share_mono [OF share, of w'] remove_transaction_and_dependents_config [OF p(1)] by simp
qed

text \<open>The workers that any sequence of requests can lead to.\<close>

inductive worker_reachable :: "('g, 'n) digraph \<Rightarrow> pool_config \<Rightarrow> ('g, 'n) pool_worker \<Rightarrow> bool"
  for G :: "('g, 'n) digraph" and config :: pool_config where
  start: "worker_reachable G config (worker_new (pool_new G config))"
| insertion: "worker_reachable G config w \<Longrightarrow> insert_requests G env w txs = Some w' \<Longrightarrow> worker_reachable G config w'"
| removal_request: "worker_reachable G config w \<Longrightarrow> handle_remove G env fmt w req = Some w' \<Longrightarrow> worker_reachable G config w'"
| extraction: "worker_reachable G config w \<Longrightarrow> extract_block_transactions G w c = Some (w', txs) \<Longrightarrow>
    worker_reachable G config w'"
| tick: "worker_reachable G config w \<Longrightarrow> worker_reachable G config (expiration_tick now w)"

lemma worker_reachable_share:
  "worker_reachable G config w \<Longrightarrow> within_share w \<and> p_config (w_pool w) = config"
proof (induction rule: worker_reachable.induct)
  case start
  show ?case by (simp add: within_share_def worker_new_def pool_new_def pending_pool_new_def Let_def)
next
  case (insertion w env txs w')
  then show ?case using insert_requests_share by metis
next
  case (removal_request w env fmt req w')
  then show ?case using handle_remove_share by metis
next
  case (extraction w c w' txs)
  then obtain p where p: "extract_transactions_for_block G (w_pool w) c = Some (p, txs)" "w' = w\<lparr>w_pool := p\<rparr>"
    by (auto simp: extract_block_transactions_def)
  then show ?case
    using extraction.IH within_share_mono [of w w'] extract_config [OF p(1)] by simp
next
  case (tick w now)
  have "w_pending_pool (expiration_tick now w) = fst (expire_transactions now (w_pending_pool w))"
    "w_pool (expiration_tick now w) = w_pool w"
    by (simp_all add: expiration_tick_def split_def Let_def)
  then show ?case using tick.IH within_share_mono [of w "expiration_tick now w"] expire_no_larger by simp
qed

lemma unat_pending_share: "100 * unat (pending_share (limit :: 64 word) percentage) \<le> unat limit * unat percentage"
proof -
  have "unat (pending_share limit percentage) = unat (saturating_mul limit (ucast percentage)) div 100"
    by (simp add: pending_share_def unat_div)
  moreover have "unat (saturating_mul limit (ucast percentage)) \<le> unat limit * unat percentage"
    by (simp add: unat_saturating_mul unat_ucast_up)
  ultimately show ?thesis by linarith
qed

lemma validate_missing:
  "validate_inputs_loop v missing inps = Some (Inl (ValidationMissingInputs ms)) \<Longrightarrow> ms \<noteq> []"
  by (induction v missing inps rule: validate_inputs_loop.induct)
    (auto split: option.splits sum.splits if_splits)

lemma and_then_Inl:
  "and_then m f = Some (Inl e) \<longleftrightarrow> m = Some (Inl e) \<or> (\<exists>x. m = Some (Inr x) \<and> f x = Some (Inl e))"
  by (auto simp: and_then_def split: option.splits sum.splits)

lemma map_err_Inl: "map_err g r = Inl e \<longleftrightarrow> (\<exists>e'. r = Inl e' \<and> e = g e')"
  by (auto simp: map_err_def split: sum.splits)

lemma insertion_error_of_missing: "InsertionMissingInputs ms = insertion_error_of e \<longleftrightarrow> e = ValidationMissingInputs ms"
  by (cases e) auto

lemma can_insert_missing:
  assumes "can_insert_transaction G p tx ps = Some (Inl (InsertionMissingInputs ms))"
  shows "ms \<noteq> []"
proof -
  have "validate_inputs G (p_storage p) tx ps (p_extracted p) (utxo_validation (p_config p)) =
      Some (Inl (ValidationMissingInputs ms))"
    using assms
    by (auto simp: can_insert_transaction_def and_then_Inl map_err_Inl insertion_error_of_missing split: if_splits
        space_check_result.splits) (metis space_check_result.exhaust)
  then show ?thesis unfolding validate_inputs_def by (rule validate_missing)
qed

lemma pool_get_contained:
  assumes "pool_inv G p" "pool_contains p t"
  shows "\<exists>d. pool_get G p t = Some d"
proof -
  obtain i where i: "map_of (tx_id_to_storage_id p) t = Some i" using assms(2) by (auto simp: pool_contains_def)
  then have "(t, i) \<in> set (tx_id_to_storage_id p)" by (rule map_of_SomeD)
  then show ?thesis using assms(1) i by (auto simp: pool_get_def pool_inv_def agrees_def index_exact_def)
qed

lemma pool_insert_missing:
  "pool_insert G p tx ps now = Some (p', Inl (InsertionMissingInputs ms)) \<Longrightarrow> ms \<noteq> []"
  using can_insert_missing [of G p tx ps ms]
  by (auto simp: pool_insert_def insert_inner_def bind_eq_Some_conv split: option.splits sum.splits)

text \<open>What a worker did with a transaction.\<close>

definition accounted :: "('g, 'n) pool_worker \<Rightarrow> pool_tx \<Rightarrow> insertion_source \<Rightarrow> ('g, 'n) pool_worker \<Rightarrow> pool_notification list \<Rightarrow> bool" where
  "accounted w tx source w' ns \<longleftrightarrow>
     pool_contains (w_pool w') (tx_id tx)
       \<and> (\<exists>time expiration ext rest. ns = NotifyInserted (tx_id tx) time expiration ext # rest)
     \<or> w_pool w' = w_pool w \<and> w_pending_pool w' = w_pending_pool w
       \<and> (\<exists>e. ns = [NotifyErrorInsertion (tx_id tx) e source])
     \<or> w_pool w' = w_pool w \<and> ns = []
       \<and> (\<exists>missing. missing \<noteq> [] \<and> pending_inputs_by_tx (w_pending_pool w') (tx_id tx) =
            Some \<lparr>pt_tx = tx, pt_insertion_source = source, pt_missing_inputs = missing\<rparr>)"

lemma on_inserted_accounted:
  assumes "pool_inv G (w_pool w1)" "pool_contains (w_pool w1) (tx_id tx)" "wf_tx tx" "w_notifications w1 = w_notifications w"
  shows "\<exists>w' ns. on_inserted G w1 tx source time removed = Some w' \<and> w_notifications w' = w_notifications w @ ns
    \<and> accounted w tx source w' ns"
proof -
  obtain ext where ext: "extended_source G (w_pool w1) (tx_id tx) source = Some ext"
    using pool_get_contained [OF assms(1,2)] by (cases source) auto
  obtain pp resolved where "new_known_tx (w_pending_pool w1) tx = Some (pp, resolved)"
    using assms(3) by (cases "known_outputs (w_pending_pool w1) (tx_id tx) (enumerate_from 0 (tx_outputs tx))")
      (simp add: new_known_tx_def new_known_tx_inner_def wf_tx_def)
  with ext assms(2,4) show ?thesis by (simp add: on_inserted_def accounted_def)
qed

lemma on_missing_accounted:
  assumes "missing \<noteq> []" "time + pp_ttl (w_pending_pool w) < 2 ^ 63 * 1000000000"
  shows "\<exists>w' ns. on_missing_inputs w tx source time missing = Some w' \<and> w_notifications w' = w_notifications w @ ns
    \<and> accounted w tx source w' ns"
proof -
  obtain m ms where m: "missing = m # ms" using assms(1) by (cases missing) auto
  show ?thesis
  proof (cases "has_enough_space_in_pools w tx")
    case False
    then show ?thesis by (simp add: on_missing_inputs_def m accounted_def)
  next
    case True
    then show ?thesis
      using assms(2) by (simp add: on_missing_inputs_def m accounted_def insert_pending_def system_time_add_def)
  qed
qed

section \<open>Properties of the worker\<close>

text \<open>C24: Whatever is sent to the worker, the pending pool never uses more than its percentage of the limits
  of the pool on gas, size and number of transactions.\<close>

theorem pending_pool_within_share:
  assumes "worker_reachable G config w"
  shows "100 * unat (pp_current_gas (w_pending_pool w))
      \<le> unat (pl_max_gas (limits config)) * unat (max_pending_pool_size_percentage config)
    \<and> 100 * unat (pp_current_bytes (w_pending_pool w))
      \<le> unat (max_bytes_size (limits config)) * unat (max_pending_pool_size_percentage config)
    \<and> 100 * unat (pp_current_txs (w_pending_pool w))
      \<le> unat (max_txs (limits config)) * unat (max_pending_pool_size_percentage config)"
proof -
  have le: "100 * unat a \<le> unat limit * unat percentage" if "a \<le> pending_share limit percentage"
    for a limit :: "64 word" and percentage
    using that unat_pending_share [of limit percentage] by (simp add: word_le_nat_alt)
  show ?thesis
    using worker_reachable_share [OF assms] le by (auto simp: within_share_def Let_def)
qed


section \<open>A worker with one pending transaction\<close>

definition sample_strict_config :: pool_config where
  "sample_strict_config = sample_pool_config\<lparr>utxo_validation := True\<rparr>"

definition sample_world :: world where
  "sample_world = \<lparr>latest_view = Inr sample_chain, instant_now = 0, system_now = 0\<rparr>"

definition sample_worker0 :: "(adjacency, nat) pool_worker" where
  "sample_worker0 = worker_new (pool_new adjacency_graph sample_strict_config)"

definition sample_worker1 :: "(adjacency, nat) pool_worker" where
  "sample_worker1 = the (worker_insert adjacency_graph sample_world sample_worker0 sample_child (RPC None))"

lemma sample_missing:
  "pool_insert adjacency_graph (pool_new adjacency_graph sample_strict_config) sample_child sample_chain 0 =
     Some (pool_new adjacency_graph sample_strict_config, Inl (InsertionMissingInputs [MissingUtxo (1, 0)]))"
proof -
  have "check_blacklisting (pool_config.black_list sample_strict_config) sample_child = Inr ()"
    using sample_checks2(1) by (simp add: sample_strict_config_def)
  moreover have "validate_inputs adjacency_graph (graph_storage_new adjacency_graph m) sample_child sample_chain
      extracted_outputs_new True = Some (Inl (ValidationMissingInputs [MissingUtxo (1, 0)]))" for m
    by (simp add: validate_inputs_def validate_input_def validate_coin_def sample_chain_def graph_storage_new_def
        extracted_outputs_new_def coin_exists_def)
  ultimately show ?thesis
    by (simp add: pool_insert_def insert_inner_def can_insert_transaction_def pool_new_def pool_contains_def and_then_def
        map_err_def check_blob_does_not_exist_def sample_strict_config_def)
qed

lemma sample_worker1_eval:
  "worker_insert adjacency_graph sample_world sample_worker0 sample_child (RPC None) = Some sample_worker1"
  "pp_current_gas (w_pending_pool sample_worker1) = 10" "pp_current_txs (w_pending_pool sample_worker1) = 1"
proof -
  have "has_enough_space_in_pools (sample_worker0\<lparr>w_pool := pool_new adjacency_graph sample_strict_config\<rparr>) sample_child"
    by (simp add: has_enough_space_in_pools_def sample_worker0_def worker_new_def pool_new_def pending_pool_new_def
        sample_strict_config_def sample_pool_config_def pending_share_def rust_eval Let_def word_less_nat_alt)
  then show "worker_insert adjacency_graph sample_world sample_worker0 sample_child (RPC None) = Some sample_worker1"
    "pp_current_gas (w_pending_pool sample_worker1) = 10" "pp_current_txs (w_pending_pool sample_worker1) = 1"
    using sample_missing
    by (simp_all add: sample_worker1_def worker_insert_def sample_world_def on_missing_inputs_def insert_pending_def
        system_time_add_def sample_worker0_def worker_new_def pending_pool_new_def)
      (simp_all add: pool_new_def sample_strict_config_def sample_pool_config_def rust_eval)
qed

lemma sample_worker_reachable: "worker_reachable adjacency_graph sample_strict_config sample_worker1"
proof (rule worker_reachable.insertion [OF worker_reachable.start])
  show "insert_requests adjacency_graph (\<lambda>_. sample_world) (worker_new (pool_new adjacency_graph sample_strict_config))
      [(sample_child, RPC None)] = Some sample_worker1"
    using sample_worker1_eval(1) by (simp add: sample_worker0_def)
qed

theorem pending_pool_within_share_witness:
  "100 * unat (pp_current_gas (w_pending_pool sample_worker1)) \<le> 100 * 50"
  using pending_pool_within_share [OF sample_worker_reachable] by (simp add: sample_strict_config_def sample_pool_config_def)


end
