(* ===== verification/Relayer.thy ===== *)
theory Relayer
  imports Prelude
begin

text \<open>The relayer (\<open>crates/services/relayer\<close>): it follows the finalized blocks of the data availability (DA)
  layer, downloads their logs page by page and stores the events of each block, and the commit of the
  database that links the heights (\<open>crates/fuel-core/src/database.rs\<close>). The node of the DA layer, the
  decoding of its logs by the generated bindings, the answers of the key-value store and the shutdown
  signal are arguments.\<close>

section \<open>Events\<close>

type_synonym da_height = u64

(* src/crates/types/src/entities/relayer/message.rs:49-62 MessageV1 *)
record message_v1 =
  m1_sender :: "256 word"
  m1_recipient :: "256 word"
  m1_nonce :: "256 word"
  m1_amount :: u64
  m1_data :: "u8 list"
  m1_da_height :: da_height

(* src/crates/types/src/entities/relayer/transaction.rs:37-46 RelayedTransactionV1 *)
record relayed_transaction =
  rt_nonce :: "256 word"
  rt_max_gas :: u64
  rt_serialized_transaction :: "u8 list"
  rt_da_height :: da_height

(* src/crates/types/src/services/relayer.rs:16-21 Event *)
datatype event = EventMessage message_v1 | EventTransaction relayed_transaction

(* src/crates/types/src/services/relayer.rs:25-30 Event::da_height *)
fun event_da_height :: "event \<Rightarrow> da_height" where
  "event_da_height (EventMessage m) = m1_da_height m"
| "event_da_height (EventTransaction t) = rt_da_height t"

text \<open>A log of the DA layer, and what the generated bindings decode from its topics and data.\<close>

record eth_log =
  topics :: "256 word list"
  log_data :: "u8 list"
  block_number :: "u64 option"
  log_index :: "256 word option"

record message_sent =
  ms_sender :: "256 word"
  ms_recipient :: "256 word"
  ms_nonce :: "256 word"
  ms_amount :: u64
  ms_data :: "u8 list"

record transaction_filter =
  tf_nonce :: "256 word"
  tf_max_gas :: u64
  tf_canonically_serialized_tx :: "u8 list"

record bridge_abi =
  eth_log_message :: "256 word"
  eth_forced_tx :: "256 word"
  decode_message_sent :: "256 word list \<Rightarrow> u8 list \<Rightarrow> (string, message_sent) result"
  decode_transaction :: "256 word list \<Rightarrow> u8 list \<Rightarrow> (string, transaction_filter) result"

(* src/crates/services/relayer/src/log.rs:32-39 MessageLog *)
record message_log =
  ml_sender :: "256 word"
  ml_recipient :: "256 word"
  ml_nonce :: "256 word"
  ml_amount :: u64
  ml_data :: "u8 list"
  ml_da_height :: da_height

(* src/crates/services/relayer/src/log.rs:42-47 TransactionLog *)
record transaction_log =
  tl_nonce :: "256 word"
  tl_max_gas :: u64
  tl_serialized_transaction :: "u8 list"
  tl_da_height :: da_height

(* src/crates/services/relayer/src/log.rs:49-61 From<&MessageLog> for Message *)
definition message_from :: "message_log \<Rightarrow> message_v1" where
  "message_from m =
     \<lparr>m1_sender = ml_sender m, m1_recipient = ml_recipient m, m1_nonce = ml_nonce m, m1_amount = ml_amount m,
      m1_data = ml_data m, m1_da_height = ml_da_height m\<rparr>"

(* src/crates/services/relayer/src/log.rs:63-73 From<TransactionLog> for RelayedTransaction *)
definition relayed_transaction_from :: "transaction_log \<Rightarrow> relayed_transaction" where
  "relayed_transaction_from t =
     \<lparr>rt_nonce = tl_nonce t, rt_max_gas = tl_max_gas t, rt_serialized_transaction = tl_serialized_transaction t,
      rt_da_height = tl_da_height t\<rparr>"

(* src/crates/services/relayer/src/log.rs:75-81 EthEventLog *)
datatype eth_event_log = LogMessage message_log | LogTransaction transaction_log | LogIgnored

(* src/crates/services/relayer/src/log.rs:101-136 parse_message_to_event *)
definition parse_message_to_event :: "bridge_abi \<Rightarrow> eth_log \<Rightarrow> (string, eth_event_log) result" where
  "parse_message_to_event abi log =
     (if length (topics log) \<noteq> 4 then Inl ''Malformed topics for Message''
      else
        (case decode_message_sent abi (topics log) (log_data log) of
           Inl e \<Rightarrow> Inl e
         | Inr m \<Rightarrow>
             (case block_number log of
                None \<Rightarrow> Inl ''Log missing block height''
              | Some h \<Rightarrow>
                  Inr (LogMessage
                    \<lparr>ml_sender = ms_sender m, ml_recipient = ms_recipient m, ml_nonce = ms_nonce m,
                     ml_amount = ms_amount m, ml_data = ms_data m, ml_da_height = h\<rparr>))))"

(* src/crates/services/relayer/src/log.rs:138-170 parse_forced_tx_to_event *)
definition parse_forced_tx_to_event :: "bridge_abi \<Rightarrow> eth_log \<Rightarrow> (string, eth_event_log) result" where
  "parse_forced_tx_to_event abi log =
     (if length (topics log) \<noteq> 2 then Inl ''Malformed topics for forced Transaction''
      else
        (case decode_transaction abi (topics log) (log_data log) of
           Inl e \<Rightarrow> Inl e
         | Inr t \<Rightarrow>
             (case block_number log of
                None \<Rightarrow> Inl ''Log missing block height''
              | Some h \<Rightarrow>
                  Inr (LogTransaction
                    \<lparr>tl_nonce = tf_nonce t, tl_max_gas = tf_max_gas t,
                     tl_serialized_transaction = tf_canonically_serialized_tx t, tl_da_height = h\<rparr>))))"

(* src/crates/services/relayer/src/log.rs:83-99 TryFrom<&Log> for EthEventLog *)
definition eth_event_log_from :: "bridge_abi \<Rightarrow> eth_log \<Rightarrow> (string, eth_event_log) result" where
  "eth_event_log_from abi log =
     (case topics log of
        [] \<Rightarrow> Inl ''Topic list is empty''
      | n # _ \<Rightarrow>
          (if n = eth_log_message abi then parse_message_to_event abi log
           else if n = eth_forced_tx abi then parse_forced_tx_to_event abi log
           else Inr LogIgnored))"

section \<open>State and pagination\<close>

(* src/crates/services/relayer/src/service/state.rs:15-20 EthState *)
record eth_state =
  remote :: u64
  local_height :: u64

(* src/crates/services/relayer/src/service/state.rs:31-34 EthSyncGap *)
type_synonym eth_sync_gap = "u64 \<times> u64"

(* src/crates/services/relayer/src/service/state.rs:36-46 EthSyncPage *)
record eth_sync_page =
  current_start :: u64
  current_end :: u64
  page_size :: u64
  page_end :: u64

(* src/crates/services/relayer/src/service.rs:55-61 SyncState *)
datatype sync_state = PartiallySynced da_height | Synced da_height

(* src/crates/services/relayer/src/service.rs:65-69 SyncState::da_block_height *)
fun da_block_height :: "sync_state \<Rightarrow> da_height" where
  "da_block_height (PartiallySynced h) = h"
| "da_block_height (Synced h) = h"

(* src/crates/services/relayer/src/service/state.rs:59-61 EthState::is_synced *)
definition is_synced :: "eth_state \<Rightarrow> bool" where
  "is_synced s \<longleftrightarrow> local_height s \<ge> remote s"

(* src/crates/services/relayer/src/service/state.rs:50-56 EthState::sync_state *)
definition sync_state_of :: "eth_state \<Rightarrow> sync_state" where
  "sync_state_of s = (if is_synced s then Synced (local_height s) else PartiallySynced (local_height s))"

(* src/crates/services/relayer/src/service/state.rs:65-71 EthState::needs_to_sync_eth *)
definition needs_to_sync_eth :: "eth_state \<Rightarrow> eth_sync_gap option" where
  "needs_to_sync_eth s =
     (if \<not> is_synced s then Some (saturating_add (local_height s) 1, remote s) else None)"

(* src/crates/services/relayer/src/service/state.rs:74-76 EthState::set_local *)
definition set_local :: "u64 \<Rightarrow> eth_state \<Rightarrow> eth_state" where
  "set_local h s = s\<lparr>local_height := h\<rparr>"

(* src/crates/services/relayer/src/service/state.rs:128-130 EthSyncPage::is_empty *)
definition page_is_empty :: "eth_sync_page \<Rightarrow> bool" where
  "page_is_empty p \<longleftrightarrow> current_start p > current_end p \<or> page_size p = 0"

(* src/crates/services/relayer/src/service/state.rs:98-109 EthSyncGap::page *)
definition gap_page :: "eth_sync_gap \<Rightarrow> u64 \<Rightarrow> eth_sync_page option" where
  "gap_page gap sz =
     (let page = \<lparr>current_start = fst gap,
                  current_end = min (saturating_add (fst gap) (saturating_sub sz 1)) (snd gap),
                  page_size = sz, page_end = snd gap\<rparr>
      in if \<not> page_is_empty page then Some page else None)"

(* src/crates/services/relayer/src/service/state.rs:120-124 EthSyncPage::reduce *)
definition reduce_page :: "eth_sync_page \<Rightarrow> eth_sync_page option" where
  "reduce_page p =
     (let page = p\<lparr>current_start := saturating_add (current_start p) (page_size p),
                   current_end := min (saturating_add (current_end p) (page_size p)) (page_end p)\<rparr>
      in if \<not> page_is_empty page then Some page else None)"

section \<open>The database\<close>

text \<open>The history of events by height, and the height of the last commit.\<close>

(* src/crates/services/relayer/src/storage.rs:73-82 EventsHistory *)
record relayer_db =
  rd_height :: "da_height option"
  rd_history :: "da_height \<rightharpoonup> event list"

(* src/crates/fuel-core/src/database/database_description.rs:43-45 DaBlockHeight::advance_height *)
definition advance_height :: "da_height \<Rightarrow> da_height option" where
  "advance_height h = checked_add h 1"

datatype storage_error =
    MultipleHeightsInCommit "da_height list"
  | FailedToAdvanceHeight
  | HeightsAreNotLinked da_height da_height
  | NewHeightIsNotSet da_height
  | StoreFailed string
  | InvalidDaHeight
  | NotMonotonic

(* src/crates/fuel-core/src/database.rs:496-539 checks of commit_changes_with_height_update *)
definition check_heights :: "da_height option \<Rightarrow> da_height list \<Rightarrow> (storage_error, da_height option) result" where
  "check_heights prev new_heights =
     (if length new_heights > 1 then Inl (MultipleHeightsInCommit new_heights)
      else
        (let new_height = (if new_heights = [] then None else Some (last new_heights))
         in case (prev, new_height) of
              (None, _) \<Rightarrow> Inr new_height
            | (Some p, Some n) \<Rightarrow>
                (case advance_height p of
                   None \<Rightarrow> Inl FailedToAdvanceHeight
                 | Some e \<Rightarrow> if e \<noteq> n then Inl (HeightsAreNotLinked p n) else Inr new_height)
            | (Some p, None) \<Rightarrow> Inl (NewHeightIsNotSet p)))"

text \<open>The changes of a transaction are the entries of the history that it sets; the key-value store may fail
  to write them.\<close>

(* src/crates/fuel-core/src/database.rs:474-579 commit_changes_with_height_update *)
definition commit_changes ::
    "(da_height \<Rightarrow> (string, unit) result) \<Rightarrow> relayer_db \<Rightarrow> (da_height \<times> event list) list
      \<Rightarrow> relayer_db \<times> (storage_error, unit) result" where
  "commit_changes store db changes =
     (case check_heights (rd_height db) (rev (map fst changes)) of
        Inl e \<Rightarrow> (db, Inl e)
      | Inr None \<Rightarrow> (db, Inr ())
      | Inr (Some h) \<Rightarrow>
          (case store h of
             Inl e \<Rightarrow> (db, Inl (StoreFailed e))
           | Inr _ \<Rightarrow> (db\<lparr>rd_height := Some h, rd_history := rd_history db ++ map_of changes\<rparr>, Inr ())))"

(* src/crates/services/relayer/src/storage.rs:99-141 RelayerDb::insert_events *)
definition insert_events ::
    "(da_height \<Rightarrow> (string, unit) result) \<Rightarrow> relayer_db \<Rightarrow> da_height \<Rightarrow> event list
      \<Rightarrow> relayer_db \<times> (storage_error, unit) result" where
  "insert_events store db h events =
     (let before = (case rd_height db of None \<Rightarrow> 0 | Some b \<Rightarrow> b)
      in if \<exists>e\<in>set events. event_da_height e \<noteq> h then (db, Inl InvalidDaHeight)
         else
           (case commit_changes store db [(h, events)] of
              (db, Inl e) \<Rightarrow> (db, Inl e)
            | (db, Inr _) \<Rightarrow>
                (if the (rd_height db) < before then (db, Inl NotMonotonic) else (db, Inr ()))))"

section \<open>Downloading and writing logs\<close>

datatype relayer_error =
    NodeError string
  | MissingLogIndex
  | LogError string
  | DbError storage_error

(* src/crates/services/relayer/src/service/get_logs.rs:130-143 sort_events_by_log_index *)
definition sort_events_by_log_index :: "eth_log list \<Rightarrow> (relayer_error, eth_log list) result" where
  "sort_events_by_log_index events =
     (if \<exists>e\<in>set events. log_index e = None then Inl MissingLogIndex
      else Inr (sort_key (\<lambda>e. the (log_index e)) events))"

(* src/crates/services/relayer/src/service/get_logs.rs:96-118 conversion of the events in write_logs *)
fun fuel_events :: "bridge_abi \<Rightarrow> eth_log list \<Rightarrow> (relayer_error, event list) result" where
  "fuel_events abi [] = Inr []"
| "fuel_events abi (log # logs) =
     (case eth_event_log_from abi log of
        Inl e \<Rightarrow> Inl (LogError e)
      | Inr ev \<Rightarrow>
          (case fuel_events abi logs of
             Inl e \<Rightarrow> Inl e
           | Inr evs \<Rightarrow>
               Inr (case ev of
                      LogMessage m \<Rightarrow> EventMessage (message_from m) # evs
                    | LogTransaction t \<Rightarrow> EventTransaction (relayed_transaction_from t) # evs
                    | LogIgnored \<Rightarrow> evs)))"

(* src/crates/services/relayer/src/service/get_logs.rs:120-125 heights of write_logs *)
fun write_heights ::
    "(da_height \<Rightarrow> (string, unit) result) \<Rightarrow> relayer_db \<Rightarrow> event list \<Rightarrow> da_height list
      \<Rightarrow> relayer_db \<times> (relayer_error, unit) result" where
  "write_heights store db events [] = (db, Inr ())"
| "write_heights store db events (h # hs) =
     (case insert_events store db h (filter (\<lambda>e. event_da_height e = h) events) of
        (db, Inl e) \<Rightarrow> (db, Inl (DbError e))
      | (db, Inr _) \<Rightarrow> write_heights store db events hs)"

definition heights :: "da_height \<Rightarrow> da_height \<Rightarrow> da_height list" where
  "heights a b = map of_nat [unat a..<Suc (unat b)]"

(* src/crates/services/relayer/src/service/get_logs.rs:88-126 loop body of write_logs *)
definition write_page ::
    "bridge_abi \<Rightarrow> (da_height \<Rightarrow> (string, unit) result) \<Rightarrow> relayer_db \<Rightarrow> da_height \<Rightarrow> da_height \<Rightarrow> eth_log list
      \<Rightarrow> relayer_db \<times> (relayer_error, unit) result" where
  "write_page abi store db start_height last_height logs =
     (case sort_events_by_log_index logs of
        Inl e \<Rightarrow> (db, Inl e)
      | Inr sorted_events \<Rightarrow>
          (case fuel_events abi sorted_events of
             Inl e \<Rightarrow> (db, Inl e)
           | Inr events \<Rightarrow> write_heights store db events (heights start_height last_height)))"

text \<open>The stream of downloaded pages and the loop that writes them: a page is requested when the previous one
  is written. The loop ends early when the service was stopped before the page is requested. On a page
  that ends at the largest height the loop would not advance; the result is an option.\<close>

(* src/crates/services/relayer/src/service/get_logs.rs:20-128 download_logs, write_logs *)
partial_function (option) sync_pages ::
    "bridge_abi \<Rightarrow> (da_height \<Rightarrow> da_height \<Rightarrow> (string, eth_log list) result) \<Rightarrow> (da_height \<Rightarrow> bool)
      \<Rightarrow> (da_height \<Rightarrow> (string, unit) result) \<Rightarrow> relayer_db \<Rightarrow> eth_sync_page option
      \<Rightarrow> (relayer_db \<times> (relayer_error, unit) result) option" where
  "sync_pages abi get_logs started store db page =
     (case page of
        None \<Rightarrow> Some (db, Inr ())
      | Some p \<Rightarrow>
          (if \<not> started (current_start p) then Some (db, Inr ())
           else
             (case get_logs (current_start p) (current_end p) of
                Inl e \<Rightarrow> Some (db, Inl (NodeError e))
              | Inr logs \<Rightarrow>
                  (case write_page abi store db (current_start p) (current_end p) logs of
                     (db, Inl e) \<Rightarrow> Some (db, Inl e)
                   | (db, Inr _) \<Rightarrow> sync_pages abi get_logs started store db (reduce_page p)))))"

section \<open>The task\<close>

(* src/crates/services/relayer/src/service.rs:106-120 Task *)
record relayer_task =
  synced :: sync_state
  rl_database :: relayer_db
  log_page_size :: u64

(* src/crates/services/relayer/src/service.rs:127-142 NotInitializedTask::new *)
definition relayer_new :: "relayer_db \<Rightarrow> da_height \<Rightarrow> u64 \<Rightarrow> relayer_task" where
  "relayer_new db da_deploy_height sz =
     \<lparr>synced = PartiallySynced (case rd_height db of None \<Rightarrow> saturating_sub da_deploy_height 1 | Some h \<Rightarrow> h),
      rl_database = db, log_page_size = sz\<rparr>"

(* src/crates/services/relayer/src/service.rs:182-192 Task::update_synced *)
definition update_synced :: "eth_state \<Rightarrow> relayer_task \<Rightarrow> relayer_task" where
  "update_synced s task =
     (let new_sync = sync_state_of s
      in if new_sync \<noteq> synced task then task\<lparr>synced := new_sync\<rparr> else task)"

text \<open>What one iteration of the loop sees of the outside.\<close>

record da_world =
  eth_synced :: "(string, unit) result"
  eth_finalized :: "(string, u64) result"
  eth_get_logs :: "da_height \<Rightarrow> da_height \<Rightarrow> (string, eth_log list) result"
  still_started :: "da_height \<Rightarrow> bool"
  kv_store :: "da_height \<Rightarrow> (string, unit) result"

(* src/crates/services/relayer/src/service/run.rs:38-66 run *)
definition relayer_run ::
    "bridge_abi \<Rightarrow> da_world \<Rightarrow> relayer_task \<Rightarrow> (relayer_task \<times> (relayer_error, unit) result) option" where
  "relayer_run abi env task =
     (case eth_synced env of
        Inl e \<Rightarrow> Some (task, Inl (NodeError e))
      | Inr _ \<Rightarrow>
          (case eth_finalized env of
             Inl e \<Rightarrow> Some (task, Inl (NodeError e))
           | Inr finalized \<Rightarrow>
               (let s = \<lparr>remote = finalized, local_height = da_block_height (synced task)\<rparr>
                in case needs_to_sync_eth s of
                     None \<Rightarrow> Some (task, Inr ())
                   | Some gap \<Rightarrow>
                       map_option
                         (\<lambda>(db, result).
                            let task = task\<lparr>rl_database := db\<rparr>
                            in (case rd_height db of
                                  None \<Rightarrow> task
                                | Some h \<Rightarrow> update_synced (set_local h s) task, result))
                         (sync_pages abi (eth_get_logs env) (still_started env) (kv_store env) (rl_database task)
                            (gap_page gap (log_page_size task))))))"

datatype task_next_action = TaskStop | TaskErrorContinue relayer_error | TaskContinue

text \<open>Besides the next action, the result says whether the task sleeps before it.\<close>

(* src/crates/services/relayer/src/service.rs:250-277 Task::run *)
definition relayer_task_run ::
    "bridge_abi \<Rightarrow> da_world \<Rightarrow> bool \<Rightarrow> bool \<Rightarrow> relayer_task \<Rightarrow> (relayer_task \<times> bool \<times> task_next_action) option" where
  "relayer_task_run abi env started retry_on_error task =
     map_option
       (\<lambda>(task, result).
          (task,
           started \<and> ((case result of Inl _ \<Rightarrow> True | Inr _ \<Rightarrow> False)
                     \<or> (case synced task of Synced _ \<Rightarrow> True | PartiallySynced _ \<Rightarrow> False)),
           case result of
             Inl err \<Rightarrow> if \<not> retry_on_error then TaskStop else TaskErrorContinue err
           | Inr _ \<Rightarrow> TaskContinue))
       (relayer_run abi env task)"

section \<open>Writing a range of heights\<close>

definition linkable :: "relayer_db \<Rightarrow> da_height \<Rightarrow> bool" where
  "linkable db h \<longleftrightarrow> (case rd_height db of None \<Rightarrow> True | Some p \<Rightarrow> advance_height p = Some h)"

lemma advance_height_iff: "advance_height p = Some h \<longleftrightarrow> unat h = unat p + 1"
proof -
  have "unat p + 1 < 2 ^ 64 \<Longrightarrow> unat (p + 1) = unat p + 1"
    by (subst unat_add_lem [THEN iffD1]) simp_all
  moreover have "unat h < 2 ^ 64" using unat_less_exp [of h] by simp
  ultimately show ?thesis
    by (auto simp: advance_height_def checked_add_def word_unat_eq_iff)
qed

lemma commit_changes_result:
  "commit_changes store db [(h, events)] =
     (if linkable db h
      then (case store h of
              Inl e \<Rightarrow> (db, Inl (StoreFailed e))
            | Inr _ \<Rightarrow> (db\<lparr>rd_height := Some h, rd_history := (rd_history db)(h \<mapsto> events)\<rparr>, Inr ()))
      else (db, Inl (case advance_height (the (rd_height db)) of
              None \<Rightarrow> FailedToAdvanceHeight | Some _ \<Rightarrow> HeightsAreNotLinked (the (rd_height db)) h)))"
  by (auto simp: commit_changes_def check_heights_def linkable_def Let_def split: option.splits sum.splits)

lemma insert_events_result:
  "insert_events store db h events =
     (if \<exists>e\<in>set events. event_da_height e \<noteq> h then (db, Inl InvalidDaHeight)
      else commit_changes store db [(h, events)])"
proof (cases "\<exists>e\<in>set events. event_da_height e \<noteq> h")
  case False
  have "\<not> h < (case rd_height db of None \<Rightarrow> 0 | Some b \<Rightarrow> b)" if "linkable db h"
    using that by (auto simp: linkable_def advance_height_iff word_less_nat_alt split: option.splits)
  with False show ?thesis
    by (simp add: insert_events_def Let_def commit_changes_result split: sum.splits)
qed (simp add: insert_events_def Let_def)

lemma heights_one [simp]: "heights h h = [h]"
  by (simp add: heights_def)

lemma heights_step: "a < b \<Longrightarrow> heights a b = a # heights (a + 1) b"
proof -
  assume ab: "a < b"
  then have "unat (a + 1) = unat a + 1"
    using unat_less_exp [of b] by (subst unat_add_lem [THEN iffD1]) (simp_all add: word_less_nat_alt)
  then show ?thesis using ab by (simp add: heights_def upt_conv_Cons word_less_nat_alt)
qed

lemma set_heights: "set (heights a b) = {a..b}"
proof -
  have "k \<in> (of_nat :: nat \<Rightarrow> u64) ` {unat a..<Suc (unat b)} \<longleftrightarrow> a \<le> k \<and> k \<le> b" for k :: u64
  proof
    assume "a \<le> k \<and> k \<le> b"
    then show "k \<in> (of_nat :: nat \<Rightarrow> u64) ` {unat a..<Suc (unat b)}"
      by (intro image_eqI [of _ _ "unat k"]) (simp_all add: word_le_nat_alt)
  next
    assume "k \<in> (of_nat :: nat \<Rightarrow> u64) ` {unat a..<Suc (unat b)}"
    then obtain n where n: "k = of_nat n" "unat a \<le> n" "n \<le> unat b" by auto
    then have "unat k = n" using unat_less_exp [of b] by (simp add: unat_of_nat take_bit_eq_mod)
    with n show "a \<le> k \<and> k \<le> b" by (simp add: word_le_nat_alt)
  qed
  then show ?thesis by (simp only: set_eq_iff heights_def set_map set_upt atLeastAtMost_iff simp_thms)
qed

definition events_at :: "event list \<Rightarrow> da_height \<Rightarrow> event list" where
  "events_at events h = filter (\<lambda>e. event_da_height e = h) events"

lemma write_heights_complete:
  assumes "a \<le> b" "linkable db a" "\<forall>h. store h = Inr ()"
  shows "write_heights store db events (heights a b) =
    (db\<lparr>rd_height := Some b, rd_history := (\<lambda>k. if k \<in> {a..b} then Some (events_at events k) else rd_history db k)\<rparr>, Inr ())"
  using assms(1,2)
proof (induction "unat b - unat a" arbitrary: a db)
  case 0
  then have "a = b" by (simp add: word_le_nat_alt word_unat_eq_iff)
  with 0 show ?case
    using assms(3) by (auto simp: insert_events_result commit_changes_result events_at_def fun_eq_iff)
next
  case (Suc n)
  then have ab: "a < b" by (simp add: word_less_nat_alt)
  have a1: "unat (a + 1) = unat a + 1"
    using ab unat_less_exp [of b] by (subst unat_add_lem [THEN iffD1]) (simp_all add: word_less_nat_alt)
  let ?db = "db\<lparr>rd_height := Some a, rd_history := (rd_history db)(a \<mapsto> events_at events a)\<rparr>"
  have "write_heights store db events (heights a b) = write_heights store ?db events (heights (a + 1) b)"
    using Suc.prems assms(3)
    by (simp add: heights_step [OF ab] insert_events_result commit_changes_result events_at_def)
  also have "\<dots> = (?db\<lparr>rd_height := Some b, rd_history := (\<lambda>k. if k \<in> {a + 1..b} then Some (events_at events k) else rd_history ?db k)\<rparr>, Inr ())"
  proof (rule Suc.hyps(1))
    show "n = unat b - unat (a + 1)" using Suc.hyps(2) a1 by simp
    show "a + 1 \<le> b" using ab a1 by (simp add: word_le_nat_alt word_less_nat_alt)
    show "linkable ?db (a + 1)" using a1 by (simp add: linkable_def advance_height_iff)
  qed
  also have "(\<lambda>k. if k \<in> {a + 1..b} then Some (events_at events k) else rd_history ?db k) =
      (\<lambda>k. if k \<in> {a..b} then Some (events_at events k) else rd_history db k)"
  proof
    fix k
    have "k = a \<or> k \<noteq> a \<and> (k \<in> {a + 1..b} \<longleftrightarrow> k \<in> {a..b})"
      using a1 by (auto simp: word_le_nat_alt word_unat_eq_iff)
    then show "(if k \<in> {a + 1..b} then Some (events_at events k) else rd_history ?db k) =
        (if k \<in> {a..b} then Some (events_at events k) else rd_history db k)"
      using ab by auto
  qed
  finally show ?case by simp
qed

section \<open>A chain that is served faithfully\<close>

text \<open>The finalized logs of the DA layer: each is in a block, has an index and can be decoded.\<close>

definition event_of :: "bridge_abi \<Rightarrow> eth_log \<Rightarrow> event list" where
  "event_of abi log =
     (case eth_event_log_from abi log of
        Inr (LogMessage m) \<Rightarrow> [EventMessage (message_from m)]
      | Inr (LogTransaction t) \<Rightarrow> [EventTransaction (relayed_transaction_from t)]
      | _ \<Rightarrow> [])"

definition well_formed_log :: "bridge_abi \<Rightarrow> eth_log \<Rightarrow> bool" where
  "well_formed_log abi log \<longleftrightarrow> block_number log \<noteq> None \<and> log_index log \<noteq> None
     \<and> (case eth_event_log_from abi log of Inl _ \<Rightarrow> False | Inr _ \<Rightarrow> True)"

definition logs_between :: "eth_log list \<Rightarrow> da_height \<Rightarrow> da_height \<Rightarrow> eth_log list" where
  "logs_between chain a b = filter (\<lambda>log. case block_number log of None \<Rightarrow> False | Some h \<Rightarrow> h \<in> {a..b}) chain"

text \<open>The events of a block, in the order of their logs.\<close>

definition block_events :: "bridge_abi \<Rightarrow> eth_log list \<Rightarrow> da_height \<Rightarrow> event list" where
  "block_events abi chain h = concat (map (event_of abi) (sort_key (\<lambda>log. the (log_index log)) (logs_between chain h h)))"

lemma parsed_height:
  "eth_event_log_from abi log = Inr (LogMessage m) \<Longrightarrow> block_number log = Some (ml_da_height m)"
  "eth_event_log_from abi log = Inr (LogTransaction t) \<Longrightarrow> block_number log = Some (tl_da_height t)"
  by (auto simp: eth_event_log_from_def parse_message_to_event_def parse_forced_tx_to_event_def
      split: list.splits if_splits sum.splits option.splits)

lemma event_of_height:
  assumes "e \<in> set (event_of abi log)"
  shows "block_number log = Some (event_da_height e)"
proof (cases "eth_event_log_from abi log")
  case (Inl err)
  with assms show ?thesis by (simp add: event_of_def)
next
  case (Inr ev)
  with assms show ?thesis
    by (cases ev) (auto simp: event_of_def message_from_def relayed_transaction_from_def dest: parsed_height)
qed

lemma fuel_events_result:
  "\<forall>log\<in>set logs. well_formed_log abi log \<Longrightarrow> fuel_events abi logs = Inr (concat (map (event_of abi) logs))"
  by (induction logs) (auto simp: well_formed_log_def event_of_def split: sum.splits eth_event_log.splits)

lemma events_at_concat:
  "events_at (concat (map (event_of abi) logs)) h = concat (map (event_of abi) (filter (\<lambda>log. block_number log = Some h) logs))"
proof (induction logs)
  case (Cons log logs)
  have "filter (\<lambda>e. event_da_height e = h) (event_of abi log) = (if block_number log = Some h then event_of abi log else [])"
    using event_of_height [of _ abi log] by (auto simp: filter_empty_conv filter_id_conv)
  with Cons show ?case by (simp add: events_at_def)
qed (simp add: events_at_def)

lemma block_events_page:
  assumes "h \<in> {a..b}"
  shows "events_at (concat (map (event_of abi) (sort_key (\<lambda>log. the (log_index log)) (logs_between chain a b)))) h =
    block_events abi chain h"
proof -
  have "filter (\<lambda>log. block_number log = Some h) (logs_between chain a b) = logs_between chain h h"
    using assms unfolding logs_between_def filter_filter by (intro filter_cong) (auto split: option.splits)
  then show ?thesis by (simp add: events_at_concat filter_sort block_events_def)
qed

lemma write_page_complete:
  assumes "a \<le> b" "linkable db a" "\<forall>h. store h = Inr ()" "\<forall>log\<in>set chain. well_formed_log abi log"
  shows "write_page abi store db a b (logs_between chain a b) =
    (db\<lparr>rd_height := Some b, rd_history := (\<lambda>k. if k \<in> {a..b} then Some (block_events abi chain k) else rd_history db k)\<rparr>, Inr ())"
proof -
  let ?logs = "sort_key (\<lambda>log. the (log_index log)) (logs_between chain a b)"
  have wf: "\<forall>log\<in>set (logs_between chain a b). well_formed_log abi log" using assms(4) by (simp add: logs_between_def)
  then have "sort_events_by_log_index (logs_between chain a b) = Inr ?logs"
    by (auto simp: sort_events_by_log_index_def well_formed_log_def)
  moreover have "fuel_events abi ?logs = Inr (concat (map (event_of abi) ?logs))"
    using wf by (intro fuel_events_result) simp
  moreover have "(\<lambda>k. if k \<in> {a..b} then Some (events_at (concat (map (event_of abi) ?logs)) k) else rd_history db k) =
      (\<lambda>k. if k \<in> {a..b} then Some (block_events abi chain k) else rd_history db k)"
    using block_events_page by (auto simp: fun_eq_iff)
  ultimately show ?thesis
    using write_heights_complete [OF assms(1-3), of "concat (map (event_of abi) ?logs)"]
    by (simp only: write_page_def sum.case)
qed

section \<open>Pages\<close>

text \<open>A page of the range up to its end.\<close>

definition page_ok :: "eth_sync_page \<Rightarrow> bool" where
  "page_ok p \<longleftrightarrow> page_size p \<noteq> 0 \<and> current_start p \<le> page_end p \<and> unat (page_end p) < 2 ^ 64 - 1
     \<and> unat (current_end p) = min (unat (current_start p) + unat (page_size p) - 1) (unat (page_end p))"

lemma unat_pos: "(w :: 'a::len word) \<noteq> 0 \<Longrightarrow> 1 \<le> unat w"
  by (metis One_nat_def Suc_leI bot_nat_0.not_eq_extremum unat_eq_zero)

lemma page_okD:
  assumes "page_ok p"
  shows "current_start p \<le> current_end p" "current_end p \<le> page_end p"
  using assms unat_pos [of "page_size p"] by (auto simp: page_ok_def word_le_nat_alt)

lemma gap_page_ok:
  assumes "a \<le> b" "sz \<noteq> 0" "unat b < 2 ^ 64 - 1"
  shows "\<exists>p. gap_page (a, b) sz = Some p \<and> page_ok p \<and> current_start p = a \<and> page_end p = b"
proof -
  let ?p = "\<lparr>current_start = a, current_end = min (saturating_add a (saturating_sub sz 1)) b, page_size = sz, page_end = b\<rparr>"
  have "page_ok ?p"
    using assms unat_pos [OF assms(2)]
    by (simp add: page_ok_def unat_min unat_saturating_add unat_saturating_sub word_le_nat_alt)
  moreover from page_okD(1) [OF this] have "\<not> page_is_empty ?p" using assms(2) by (simp add: page_is_empty_def not_less)
  ultimately show ?thesis by (simp add: gap_page_def)
qed

lemma reduce_page_last:
  assumes "page_ok p" "current_end p = page_end p"
  shows "reduce_page p = None"
proof -
  have "unat (page_end p) < unat (saturating_add (current_start p) (page_size p))"
    using assms unat_pos [of "page_size p"] by (auto simp: page_ok_def unat_saturating_add)
  moreover have "unat (min (saturating_add (current_end p) (page_size p)) (page_end p)) \<le> unat (page_end p)"
    by (simp add: unat_min)
  ultimately show ?thesis
    by (simp add: reduce_page_def page_is_empty_def word_less_nat_alt Let_def)
qed

lemma reduce_page_next:
  assumes "page_ok p" "current_end p \<noteq> page_end p"
  shows "\<exists>q. reduce_page p = Some q \<and> page_ok q \<and> unat (current_start q) = unat (current_end p) + 1 \<and> page_end q = page_end p"
proof -
  let ?q = "p\<lparr>current_start := saturating_add (current_start p) (page_size p),
      current_end := min (saturating_add (current_end p) (page_size p)) (page_end p)\<rparr>"
  have sz: "1 \<le> unat (page_size p)" using assms(1) unat_pos [of "page_size p"] by (simp add: page_ok_def)
  have "unat (current_end p) \<noteq> unat (page_end p)" using assms(2) by (simp add: word_unat_eq_iff)
  then have e: "unat (current_end p) = unat (current_start p) + unat (page_size p) - 1"
      "unat (current_start p) + unat (page_size p) - 1 < unat (page_end p)"
    using assms(1) by (auto simp: page_ok_def min_def split: if_splits)
  have st: "unat (saturating_add (current_start p) (page_size p)) = unat (current_start p) + unat (page_size p)"
    using e(2) assms(1) sz unfolding page_ok_def unat_saturating_add by (simp add: min_def) linarith
  have ok: "page_ok ?q"
    using assms(1) sz e st by (auto simp: page_ok_def unat_min unat_saturating_add word_le_nat_alt)
  from page_okD(1) [OF this] have "\<not> page_is_empty ?q" using ok by (simp add: page_is_empty_def not_less page_ok_def)
  then show ?thesis using ok st e(1) sz by (simp add: reduce_page_def Let_def)
qed

section \<open>Synchronisation\<close>

definition faithful :: "bridge_abi \<Rightarrow> eth_log list \<Rightarrow> da_world \<Rightarrow> bool" where
  "faithful abi chain env \<longleftrightarrow> (\<forall>log\<in>set chain. well_formed_log abi log)
     \<and> (\<forall>a b. eth_get_logs env a b = Inr (logs_between chain a b))
     \<and> (\<forall>h. still_started env h) \<and> (\<forall>h. kv_store env h = Inr ())"

lemma sync_pages_complete:
  assumes env: "faithful abi chain env"
  shows "page_ok p \<Longrightarrow> linkable db (current_start p) \<Longrightarrow>
    sync_pages abi (eth_get_logs env) (still_started env) (kv_store env) db (Some p) =
      Some (db\<lparr>rd_height := Some (page_end p),
              rd_history := (\<lambda>k. if k \<in> {current_start p..page_end p} then Some (block_events abi chain k) else rd_history db k)\<rparr>, Inr ())"
proof (induction "unat (page_end p) - unat (current_start p)" arbitrary: p db rule: less_induct)
  case less
  let ?a = "current_start p" and ?b = "current_end p" and ?e = "page_end p"
  let ?db = "db\<lparr>rd_height := Some ?b, rd_history := (\<lambda>k. if k \<in> {?a..?b} then Some (block_events abi chain k) else rd_history db k)\<rparr>"
  note le = page_okD [OF less.prems(1)]
  have "write_page abi (kv_store env) db ?a ?b (logs_between chain ?a ?b) = (?db, Inr ())"
    using env less.prems(2) le(1) by (intro write_page_complete) (simp_all add: faithful_def)
  then have step: "sync_pages abi (eth_get_logs env) (still_started env) (kv_store env) db (Some p) =
      sync_pages abi (eth_get_logs env) (still_started env) (kv_store env) ?db (reduce_page p)"
    using env by (subst sync_pages.simps) (simp add: faithful_def)
  show ?case
  proof (cases "?b = ?e")
    case True
    have "sync_pages abi (eth_get_logs env) (still_started env) (kv_store env) ?db None = Some (?db, Inr ())"
      by (subst sync_pages.simps) simp
    then show ?thesis using step reduce_page_last [OF less.prems(1) True] True by simp
  next
    case False
    then obtain q where q: "reduce_page p = Some q" "page_ok q" "unat (current_start q) = unat ?b + 1" "page_end q = ?e"
      using reduce_page_next [OF less.prems(1)] by blast
    have "linkable ?db (current_start q)" using q(3) by (simp add: linkable_def advance_height_iff)
    moreover have "unat (page_end q) - unat (current_start q) < unat ?e - unat ?a"
      using q(3,4) le False by (auto simp: word_le_nat_alt word_unat_eq_iff)
    ultimately have "sync_pages abi (eth_get_logs env) (still_started env) (kv_store env) ?db (Some q) =
        Some (?db\<lparr>rd_height := Some ?e,
              rd_history := (\<lambda>k. if k \<in> {current_start q..?e} then Some (block_events abi chain k) else rd_history ?db k)\<rparr>, Inr ())"
      using less.hyps [of q ?db] q(2,4) by simp
    moreover have "(\<lambda>k. if k \<in> {current_start q..?e} then Some (block_events abi chain k) else rd_history ?db k) =
        (\<lambda>k. if k \<in> {?a..?e} then Some (block_events abi chain k) else rd_history db k)"
    proof
      fix k
      have "k \<in> {?a..?e} \<longleftrightarrow> k \<in> {?a..?b} \<or> k \<in> {current_start q..?e}"
        using q(3) le by (auto simp: word_le_nat_alt)
      then show "(if k \<in> {current_start q..?e} then Some (block_events abi chain k) else rd_history ?db k) =
          (if k \<in> {?a..?e} then Some (block_events abi chain k) else rd_history db k)"
        by auto
    qed
    ultimately show ?thesis using step q(1) by simp
  qed
qed

text \<open>The state of the task and its database are in step.\<close>

definition in_step :: "relayer_task \<Rightarrow> bool" where
  "in_step task \<longleftrightarrow> (\<forall>h. rd_height (rl_database task) = Some h \<longrightarrow> da_block_height (synced task) = h)"

lemma in_step_linkable:
  assumes "in_step task" "unat h = unat (da_block_height (synced task)) + 1"
  shows "linkable (rl_database task) h"
  using assms by (auto simp: in_step_def linkable_def advance_height_iff split: option.splits)

section \<open>The history under faults\<close>

text \<open>The history has the blocks from the first height on, without gaps, each with events of its height.\<close>

definition history_from :: "da_height \<Rightarrow> relayer_db \<Rightarrow> bool" where
  "history_from first db \<longleftrightarrow>
     (case rd_height db of
        None \<Rightarrow> rd_history db = Map.empty
      | Some h \<Rightarrow> first \<le> h \<and> dom (rd_history db) = {first..h}
          \<and> (\<forall>k es. rd_history db k = Some es \<longrightarrow> (\<forall>e\<in>set es. event_da_height e = k)))"

lemma insert_events_history:
  assumes "history_from first db" "rd_height db = None \<longrightarrow> h = first" "insert_events store db h events = (db', r)"
  shows "history_from first db' \<and> (r = Inr () \<longrightarrow> rd_height db' = Some h) \<and> (rd_height db \<noteq> None \<longrightarrow> rd_height db' \<noteq> None)"
proof (cases "r = Inr ()")
  case False
  then have "db' = db"
    using assms(3) by (auto simp: insert_events_result commit_changes_result split: if_splits sum.splits)
  with assms(1) False show ?thesis by simp
next
  case True
  then have db': "db' = db\<lparr>rd_height := Some h, rd_history := (rd_history db)(h \<mapsto> events)\<rparr>" "linkable db h"
      "\<forall>e\<in>set events. event_da_height e = h"
    using assms(3) by (auto simp: insert_events_result commit_changes_result split: if_splits sum.splits)
  show ?thesis
  proof (cases "rd_height db")
    case None
    then show ?thesis using db' assms(1,2) True by (auto simp: history_from_def split: if_splits)
  next
    case (Some p)
    then have hp: "unat h = unat p + 1" using db'(2) by (simp add: linkable_def advance_height_iff)
    then have "insert h {first..p} = {first..h}" if "first \<le> p"
      using that by (auto simp: word_le_nat_alt word_unat_eq_iff)
    moreover have "first \<le> h" if "first \<le> p" using that hp by (simp add: word_le_nat_alt)
    ultimately show ?thesis
      using db' assms(1) Some True by (auto simp: history_from_def split: if_splits)
  qed
qed

lemma write_heights_history:
  "history_from first db \<Longrightarrow> rd_height db = None \<longrightarrow> hs = [] \<or> hd hs = first \<Longrightarrow>
     write_heights store db events hs = (db', r) \<Longrightarrow>
     history_from first db' \<and> (r = Inr () \<and> hs \<noteq> [] \<or> rd_height db \<noteq> None \<longrightarrow> rd_height db' \<noteq> None)"
proof (induction hs arbitrary: db)
  case (Cons h hs)
  obtain db1 r1 where i: "insert_events store db h (filter (\<lambda>e. event_da_height e = h) events) = (db1, r1)" by fastforce
  have ins: "history_from first db1" "r1 = Inr () \<longrightarrow> rd_height db1 = Some h" "rd_height db \<noteq> None \<longrightarrow> rd_height db1 \<noteq> None"
    using insert_events_history [OF Cons.prems(1) _ i] Cons.prems(2) by simp_all
  show ?case
  proof (cases r1)
    case (Inl e)
    then show ?thesis using Cons.prems(3) i ins by auto
  next
    case (Inr u)
    then have "write_heights store db1 events hs = (db', r)" "rd_height db1 = Some h"
      using Cons.prems(3) i ins(2) by auto
    then show ?thesis using Cons.IH [OF ins(1)] by simp
  qed
qed auto

lemma write_page_history:
  assumes "history_from first db" "rd_height db = None \<longrightarrow> a = first" "a \<le> b" "write_page abi store db a b logs = (db', r)"
  shows "history_from first db' \<and> (r = Inr () \<or> rd_height db \<noteq> None \<longrightarrow> rd_height db' \<noteq> None)"
proof -
  have h: "heights a b \<noteq> []" "hd (heights a b) = a"
    using assms(3) by (cases "a = b"; simp add: heights_step order.not_eq_order_implies_strict)+
  consider evs where "write_heights store db evs (heights a b) = (db', r)" | "db' = db" "r \<noteq> Inr ()"
    using assms(4) by (auto simp: write_page_def split: sum.splits)
  then show ?thesis
  proof cases
    case 1
    from write_heights_history [OF assms(1) _ 1] show ?thesis using h assms(2) by auto
  next
    case 2
    then show ?thesis using assms(1) by simp
  qed
qed

lemma reduce_page_nonempty: "reduce_page p = Some q \<Longrightarrow> current_start q \<le> current_end q"
  by (auto simp: reduce_page_def page_is_empty_def Let_def not_less split: if_splits)

lemma gap_page_nonempty: "gap_page gap sz = Some q \<Longrightarrow> current_start q \<le> current_end q \<and> current_start q = fst gap"
  by (auto simp: gap_page_def page_is_empty_def Let_def not_less split: if_splits)

definition pages_from :: "da_height \<Rightarrow> relayer_db \<Rightarrow> eth_sync_page option \<Rightarrow> bool" where
  "pages_from first db page \<longleftrightarrow>
     (\<forall>p. page = Some p \<longrightarrow> current_start p \<le> current_end p \<and> (rd_height db = None \<longrightarrow> current_start p = first))"

lemma sync_pages_history:
  assumes "sync_pages abi get_logs started store db page = Some res"
  shows "history_from first db \<longrightarrow> pages_from first db page \<longrightarrow>
    history_from first (fst res) \<and> (rd_height db \<noteq> None \<longrightarrow> rd_height (fst res) \<noteq> None)"
proof (rule sync_pages.raw_induct [OF _ assms, where
      P = "\<lambda>abi get_logs started store db page res. history_from first db \<longrightarrow> pages_from first db page \<longrightarrow>
        history_from first (fst res) \<and> (rd_height db \<noteq> None \<longrightarrow> rd_height (fst res) \<noteq> None)"])
  fix sync :: "bridge_abi \<Rightarrow> (da_height \<Rightarrow> da_height \<Rightarrow> (string, eth_log list) result) \<Rightarrow> (da_height \<Rightarrow> bool)
      \<Rightarrow> (da_height \<Rightarrow> (string, unit) result) \<Rightarrow> relayer_db \<Rightarrow> eth_sync_page option
      \<Rightarrow> (relayer_db \<times> (relayer_error, unit) result) option"
    and abi get_logs started store db page res
  assume IH: "\<And>abi get_logs started store db page res. sync abi get_logs started store db page = Some res \<Longrightarrow>
      history_from first db \<longrightarrow> pages_from first db page \<longrightarrow>
        history_from first (fst res) \<and> (rd_height db \<noteq> None \<longrightarrow> rd_height (fst res) \<noteq> None)"
    and run: "(case page of
        None \<Rightarrow> Some (db, Inr ())
      | Some p \<Rightarrow>
          (if \<not> started (current_start p) then Some (db, Inr ())
           else
             (case get_logs (current_start p) (current_end p) of
                Inl e \<Rightarrow> Some (db, Inl (NodeError e))
              | Inr logs \<Rightarrow>
                  (case write_page abi store db (current_start p) (current_end p) logs of
                     (db, Inl e) \<Rightarrow> Some (db, Inl e)
                   | (db, Inr _) \<Rightarrow> sync abi get_logs started store db (reduce_page p))))) = Some res"
  show "history_from first db \<longrightarrow> pages_from first db page \<longrightarrow>
      history_from first (fst res) \<and> (rd_height db \<noteq> None \<longrightarrow> rd_height (fst res) \<noteq> None)"
  proof (intro impI)
    assume db: "history_from first db" and page: "pages_from first db page"
    consider "fst res = db"
      | p logs r1 where "page = Some p" "write_page abi store db (current_start p) (current_end p) logs = (fst res, r1)"
      | p logs db1 where "page = Some p" "write_page abi store db (current_start p) (current_end p) logs = (db1, Inr ())"
          "sync abi get_logs started store db1 (reduce_page p) = Some res"
    proof (cases page)
      case (Some p)
      show ?thesis
      proof (cases "get_logs (current_start p) (current_end p)")
        case (Inr logs)
        obtain db1 r1 where w: "write_page abi store db (current_start p) (current_end p) logs = (db1, r1)" by fastforce
        show ?thesis
        proof (cases "started (current_start p)")
          case True
          then show ?thesis
            using run Some Inr w that(2) [OF Some, of logs] that(3) [OF Some, of logs] by (cases r1) auto
        qed (use that(1) run Some in auto)
      qed (use that(1) run Some in \<open>auto split: if_splits\<close>)
    qed (use that(1) run in auto)
    then show "history_from first (fst res) \<and> (rd_height db \<noteq> None \<longrightarrow> rd_height (fst res) \<noteq> None)"
    proof cases
      case 1
      with db show ?thesis by simp
    next
      case 2
      with page write_page_history [OF db _ _ 2(2)] show ?thesis by (auto simp: pages_from_def)
    next
      case 3
      have "history_from first db1 \<and> rd_height db1 \<noteq> None"
        using page 3(1) write_page_history [OF db _ _ 3(2)] by (simp add: pages_from_def)
      with IH [OF 3(3)] reduce_page_nonempty show ?thesis by (auto simp: pages_from_def)
    qed
  qed
qed

section \<open>Reachable states of the relayer\<close>

definition empty_relayer_db :: relayer_db where
  "empty_relayer_db = \<lparr>rd_height = None, rd_history = Map.empty\<rparr>"

text \<open>Iterations of the loop in any environment, with any failures.\<close>

inductive relayer_reachable :: "bridge_abi \<Rightarrow> da_height \<Rightarrow> u64 \<Rightarrow> relayer_task \<Rightarrow> bool"
  for abi :: bridge_abi and deploy :: da_height and sz :: u64 where
  start: "relayer_reachable abi deploy sz (relayer_new empty_relayer_db deploy sz)"
| iteration: "relayer_reachable abi deploy sz task \<Longrightarrow> relayer_run abi env task = Some (task', r) \<Longrightarrow>
    relayer_reachable abi deploy sz task'"
| restart: "relayer_reachable abi deploy sz task \<Longrightarrow>
    relayer_reachable abi deploy sz (relayer_new (rl_database task) deploy sz)"

lemma update_synced_simps [simp]:
  "synced (update_synced s task) = sync_state_of s" "rl_database (update_synced s task) = rl_database task"
  "log_page_size (update_synced s task) = log_page_size task"
  by (simp_all add: update_synced_def Let_def)

lemma da_block_height_sync_state [simp]: "da_block_height (sync_state_of s) = local_height s"
  by (simp add: sync_state_of_def)

lemma set_local_simps [simp]: "set_local h \<lparr>remote = f, local_height = l\<rparr> = \<lparr>remote = f, local_height = h\<rparr>"
  by (simp add: set_local_def)

lemma needs_to_sync_gap:
  "l < f \<Longrightarrow> needs_to_sync_eth \<lparr>remote = f, local_height = l\<rparr> = Some (saturating_add l 1, f)"
  by (simp add: needs_to_sync_eth_def is_synced_def)

lemma relayer_run_cases:
  assumes "relayer_run abi env task = Some (task', r)"
  obtains "task' = task"
  | finalized db where "da_block_height (synced task) < finalized"
      "sync_pages abi (eth_get_logs env) (still_started env) (kv_store env) (rl_database task)
         (gap_page (saturating_add (da_block_height (synced task)) 1, finalized) (log_page_size task)) = Some (db, r)"
      "rl_database task' = db" "log_page_size task' = log_page_size task"
      "synced task' = (case rd_height db of None \<Rightarrow> synced task
         | Some h \<Rightarrow> sync_state_of \<lparr>remote = finalized, local_height = h\<rparr>)"
proof (cases "task' = task")
  case False
  then obtain finalized where f: "eth_synced env = Inr ()" "eth_finalized env = Inr finalized"
      "da_block_height (synced task) < finalized"
    using assms by (auto simp: relayer_run_def needs_to_sync_eth_def is_synced_def Let_def not_le split: sum.splits if_splits)
  then obtain db where "sync_pages abi (eth_get_logs env) (still_started env) (kv_store env) (rl_database task)
         (gap_page (saturating_add (da_block_height (synced task)) 1, finalized) (log_page_size task)) = Some (db, r)"
      "task' = (case rd_height db of None \<Rightarrow> task\<lparr>rl_database := db\<rparr>
         | Some h \<Rightarrow> update_synced (set_local h \<lparr>remote = finalized, local_height = da_block_height (synced task)\<rparr>)
             (task\<lparr>rl_database := db\<rparr>))"
    using assms needs_to_sync_gap [OF f(3)] by (auto simp: relayer_run_def Let_def)
  with f(3) show ?thesis by (intro that(2) [of finalized db]) (auto split: option.splits)
qed (use that in blast)

definition first_height :: "da_height \<Rightarrow> da_height" where
  "first_height deploy = max deploy 1"

lemma first_height_next: "saturating_add (saturating_sub deploy 1) 1 = first_height deploy"
proof -
  have "unat (max deploy 1) = max (unat deploy) 1" by (simp add: max_def word_le_nat_alt)
  moreover have "min (unat deploy - 1 + 1) (2 ^ 64 - 1) = max (unat deploy) 1"
    using unat_less_exp [of deploy] by (simp add: min_def max_def) linarith
  ultimately show ?thesis
    by (simp add: first_height_def word_unat_eq_iff unat_saturating_add unat_saturating_sub)
qed

lemma relayer_reachable_inv:
  "relayer_reachable abi deploy sz task \<Longrightarrow>
     history_from (first_height deploy) (rl_database task) \<and> in_step task \<and> log_page_size task = sz
     \<and> (rd_height (rl_database task) = None \<longrightarrow> da_block_height (synced task) = saturating_sub deploy 1)"
proof (induction rule: relayer_reachable.induct)
  case start
  show ?case by (simp add: relayer_new_def empty_relayer_db_def history_from_def in_step_def)
next
  case (iteration task env task' r)
  from iteration(2) show ?case
  proof (cases rule: relayer_run_cases)
    case 1
    then show ?thesis using iteration by simp
  next
    case (2 finalized db)
    have "pages_from (first_height deploy) (rl_database task)
        (gap_page (saturating_add (da_block_height (synced task)) 1, finalized) (log_page_size task))"
      unfolding pages_from_def using gap_page_nonempty iteration.IH first_height_next by fastforce
    with sync_pages_history [OF 2(2), of "first_height deploy"] iteration.IH
    have "history_from (first_height deploy) db" "rd_height (rl_database task) \<noteq> None \<longrightarrow> rd_height db \<noteq> None"
      by simp_all
    then show ?thesis
      using 2(3-5) iteration.IH by (auto simp: in_step_def split: option.splits)
  qed
next
  case (restart task)
  then show ?case by (simp add: relayer_new_def in_step_def)
qed

lemma relayer_run_complete:
  assumes inv: "in_step task" "log_page_size task \<noteq> 0" and env: "faithful abi chain env"
    and fin: "eth_synced env = Inr ()" "eth_finalized env = Inr finalized" "finalized < - 1"
    and lag: "da_block_height (synced task) < finalized"
  shows "\<exists>task'. relayer_run abi env task = Some (task', Inr ()) \<and> synced task' = Synced finalized
    \<and> rd_height (rl_database task') = Some finalized
    \<and> (\<forall>k. rd_history (rl_database task') k =
         (if da_block_height (synced task) < k \<and> k \<le> finalized then Some (block_events abi chain k)
          else rd_history (rl_database task) k))"
proof -
  let ?l = "da_block_height (synced task)" and ?db = "rl_database task"
  have below: "unat finalized < 2 ^ 64 - 1" using fin(3) by (simp add: word_less_nat_alt unat_minus_one_word)
  have l1: "unat (saturating_add ?l 1) = unat ?l + 1"
    using lag unat_less_exp [of finalized] by (simp add: word_less_nat_alt unat_saturating_add)
  have gap: "saturating_add ?l 1 \<le> finalized" using l1 lag by (simp add: word_le_nat_alt word_less_nat_alt)
  obtain p where p: "gap_page (saturating_add ?l 1, finalized) (log_page_size task) = Some p" "page_ok p"
      "current_start p = saturating_add ?l 1" "page_end p = finalized"
    using gap_page_ok [OF gap inv(2) below] by blast
  have "linkable ?db (current_start p)" using in_step_linkable [OF inv(1)] l1 p(3) by simp
  note sync = sync_pages_complete [OF env p(2) this]
  have "k \<in> {saturating_add ?l 1..finalized} \<longleftrightarrow> ?l < k \<and> k \<le> finalized" for k
    using l1 by (auto simp: word_le_nat_alt word_less_nat_alt)
  then show ?thesis
    using sync fin lag p
    by (simp add: relayer_run_def Let_def needs_to_sync_gap) (simp add: sync_state_of_def is_synced_def)
qed

section \<open>Properties of the relayer\<close>

text \<open>C25: With a node that serves the finalized logs faithfully and a store that does not fail, one iteration of
  a reachable relayer that lags behind always returns and catches up with the finalized height (below
  the largest one), whatever the page size but zero: for each block of the gap it stores exactly its events, in the order of their logs, it
  leaves the earlier history as it was, and reports to be synced with that height.\<close>

theorem relayer_sync_complete:
  assumes "relayer_reachable abi deploy sz task" "sz \<noteq> 0" "faithful abi chain env"
    and "eth_synced env = Inr ()" "eth_finalized env = Inr finalized" "finalized < - 1"
    and "da_block_height (synced task) < finalized"
  shows "\<exists>task'. relayer_run abi env task = Some (task', Inr ()) \<and> synced task' = Synced finalized
    \<and> rd_height (rl_database task') = Some finalized
    \<and> (\<forall>k. rd_history (rl_database task') k =
         (if da_block_height (synced task) < k \<and> k \<le> finalized then Some (block_events abi chain k)
          else rd_history (rl_database task) k))"
  using relayer_reachable_inv [OF assms(1)] assms(2) by (intro relayer_run_complete [OF _ _ assms(3-7)]) auto

text \<open>C26: Whatever the node, the store, the shutdown signal and restarts do, the history of a reachable relayer has no
  gaps: it consists of the blocks from the deployment on up to the height of the database, each with
  events of that block only, and the height that the relayer reports is the height of the database.\<close>

theorem relayer_history_contiguous:
  assumes "relayer_reachable abi deploy sz task"
  shows "case rd_height (rl_database task) of
      None \<Rightarrow> rd_history (rl_database task) = Map.empty \<and> da_block_height (synced task) = saturating_sub deploy 1
    | Some h \<Rightarrow> dom (rd_history (rl_database task)) = {max deploy 1..h} \<and> da_block_height (synced task) = h
        \<and> (\<forall>k es. rd_history (rl_database task) k = Some es \<longrightarrow> (\<forall>e\<in>set es. event_da_height e = k))"
  using relayer_reachable_inv [OF assms]
  by (auto simp: history_from_def in_step_def first_height_def split: option.splits)

text \<open>A relayer that starts with a database at the finalized height does not report that it is synced, and its
  loop runs again without a pause, until a later block is finalized.\<close>

theorem relayer_up_to_date_unreported:
  assumes "rd_height db = Some h" "eth_synced env = Inr ()" "eth_finalized env = Inr h"
  shows "relayer_task_run abi env True retry (relayer_new db deploy sz) =
      Some (relayer_new db deploy sz, False, TaskContinue)
    \<and> synced (relayer_new db deploy sz) = PartiallySynced h"
  using assms
  by (simp add: relayer_task_run_def relayer_run_def Let_def needs_to_sync_eth_def is_synced_def relayer_new_def)

section \<open>A chain with one message\<close>

definition sample_abi :: bridge_abi where
  "sample_abi =
     \<lparr>eth_log_message = 1, eth_forced_tx = 2,
      decode_message_sent = (\<lambda>ts d. Inr \<lparr>ms_sender = ts ! 1, ms_recipient = ts ! 2, ms_nonce = ts ! 3, ms_amount = 7, ms_data = d\<rparr>),
      decode_transaction = (\<lambda>ts d. Inl ''not used'')\<rparr>"

definition sample_log :: eth_log where
  "sample_log = \<lparr>topics = [1, 10, 11, 12], log_data = [], block_number = Some 5, log_index = Some 0\<rparr>"

definition sample_da_world :: da_world where
  "sample_da_world =
     \<lparr>eth_synced = Inr (), eth_finalized = Inr 7, eth_get_logs = (\<lambda>a b. Inr (logs_between [sample_log] a b)),
      still_started = (\<lambda>_. True), kv_store = (\<lambda>_. Inr ())\<rparr>"

lemma sample_faithful: "faithful sample_abi [sample_log] sample_da_world"
  by (simp add: faithful_def sample_da_world_def well_formed_log_def sample_log_def sample_abi_def eth_event_log_from_def
      parse_message_to_event_def)

lemma sample_block_events:
  "block_events sample_abi [sample_log] 5 =
     [EventMessage \<lparr>m1_sender = 10, m1_recipient = 11, m1_nonce = 12, m1_amount = 7, m1_data = [], m1_da_height = 5\<rparr>]"
  by (simp add: block_events_def logs_between_def event_of_def sample_log_def sample_abi_def eth_event_log_from_def
      parse_message_to_event_def message_from_def)

lemma sample_relayer_start: "da_block_height (synced (relayer_new empty_relayer_db 4 2)) = 3"
  by (simp add: relayer_new_def empty_relayer_db_def rust_eval)

lemma sample_relayer_env:
  "eth_synced sample_da_world = Inr ()" "eth_finalized sample_da_world = Inr 7" "(7 :: u64) < - 1"
  "da_block_height (synced (relayer_new empty_relayer_db 4 2)) < 7"
  by (simp_all add: sample_da_world_def sample_relayer_start word_less_nat_alt unat_minus_one_word)

theorem relayer_sync_complete_witness:
  "\<exists>task'. relayer_run sample_abi sample_da_world (relayer_new empty_relayer_db 4 2) = Some (task', Inr ())
     \<and> synced task' = Synced 7 \<and> rd_history (rl_database task') 5 =
       Some [EventMessage \<lparr>m1_sender = 10, m1_recipient = 11, m1_nonce = 12, m1_amount = 7, m1_data = [], m1_da_height = 5\<rparr>]"
proof -
  obtain task' where t: "relayer_run sample_abi sample_da_world (relayer_new empty_relayer_db 4 2) = Some (task', Inr ())"
      "synced task' = Synced 7"
      "\<forall>k. rd_history (rl_database task') k = (if 3 < k \<and> k \<le> 7 then Some (block_events sample_abi [sample_log] k)
         else rd_history (rl_database (relayer_new empty_relayer_db 4 2)) k)"
    using relayer_sync_complete [OF relayer_reachable.start _ sample_faithful sample_relayer_env]
    unfolding sample_relayer_start by auto
  have "rd_history (rl_database task') 5 = Some (block_events sample_abi [sample_log] 5)"
    using t(3) [rule_format, of 5] by (simp add: word_less_nat_alt word_le_nat_alt)
  with t(1,2) show ?thesis by (simp add: sample_block_events)
qed

theorem relayer_history_contiguous_witness:
  "\<exists>task'. relayer_run sample_abi sample_da_world (relayer_new empty_relayer_db 4 2) = Some (task', Inr ())
     \<and> dom (rd_history (rl_database task')) = {4..7}"
proof -
  have "in_step (relayer_new empty_relayer_db 4 2)" "log_page_size (relayer_new empty_relayer_db 4 2) \<noteq> 0"
    by (simp_all add: in_step_def relayer_new_def empty_relayer_db_def)
  then obtain task' where t: "relayer_run sample_abi sample_da_world (relayer_new empty_relayer_db 4 2) = Some (task', Inr ())"
      "rd_height (rl_database task') = Some 7"
    using relayer_run_complete [OF _ _ sample_faithful sample_relayer_env] by blast
  have "max 4 1 = (4 :: u64)" by (simp add: max_def word_le_nat_alt)
  with relayer_history_contiguous [OF relayer_reachable.iteration [OF relayer_reachable.start t(1)]] t
  show ?thesis by auto
qed

end
