(* ===== verification/Tx_Status.thy ===== *)
theory Tx_Status
  imports Prelude
begin

text \<open>The transaction status manager (\<open>crates/services/tx_status_manager\<close>): a cache of the last status of
  each transaction, from which final and preconfirmed statuses are pruned after a time to live, and the
  subscribers that are told about new statuses. The channel to a subscriber, the permits of the semaphore
  and the clock are arguments.\<close>

section \<open>Statuses\<close>

text \<open>What the statuses of executed transactions carry is a parameter.\<close>

(* src/crates/types/src/services/txpool.rs:437-452 TransactionStatus *)
datatype 'r transaction_status =
    StSubmitted u64
  | StSuccess 'r
  | StPreConfirmationSuccess 'r
  | StSqueezedOut string
  | StPreConfirmationSqueezedOut string
  | StFailure 'r
  | StPreConfirmationFailure 'r

(* src/crates/types/src/services/txpool.rs:456-466 TransactionStatus::is_final *)
fun status_is_final :: "'r transaction_status \<Rightarrow> bool" where
  "status_is_final (StSuccess _) = True"
| "status_is_final (StFailure _) = True"
| "status_is_final (StSqueezedOut _) = True"
| "status_is_final (StPreConfirmationSqueezedOut _) = True"
| "status_is_final (StSubmitted _) = False"
| "status_is_final (StPreConfirmationSuccess _) = False"
| "status_is_final (StPreConfirmationFailure _) = False"

(* src/crates/services/tx_status_manager/src/tx_status_stream.rs:28-32 TxStatusMessage *)
datatype 'r tx_status_message = Status "'r transaction_status" | FailedStatus

(* src/crates/services/tx_status_manager/src/tx_status_stream.rs:35-40 TxStatusMessage::is_final *)
fun message_is_final :: "'r tx_status_message \<Rightarrow> bool" where
  "message_is_final (Status s) = status_is_final s"
| "message_is_final FailedStatus = True"

section \<open>The stream of a subscriber\<close>

(* src/crates/services/tx_status_manager/src/tx_status_stream.rs:57-74 State *)
datatype 'r stream_state =
    StreamEmpty
  | StreamSubmitted "'r transaction_status"
  | StreamPreconfirmed "'r transaction_status"
  | StreamEarlySuccess "'r transaction_status"
  | StreamSuccess "'r transaction_status" "'r transaction_status"
  | StreamFailed
  | StreamLateFailed "'r transaction_status"
  | StreamSenderClosed "'r transaction_status"
  | StreamClosed

(* src/crates/services/tx_status_manager/src/tx_status_stream.rs:98-142 TxUpdateStream::add_msg *)
definition add_msg :: "'r tx_status_message \<Rightarrow> 'r stream_state \<Rightarrow> 'r stream_state" where
  "add_msg msg state =
     (case state of
        StreamEmpty \<Rightarrow>
          (case msg of
             Status (StSubmitted s) \<Rightarrow> StreamSubmitted (StSubmitted s)
           | Status (StPreConfirmationSuccess s) \<Rightarrow> StreamPreconfirmed (StPreConfirmationSuccess s)
           | Status (StPreConfirmationFailure s) \<Rightarrow> StreamPreconfirmed (StPreConfirmationFailure s)
           | Status s \<Rightarrow> StreamEarlySuccess s
           | FailedStatus \<Rightarrow> StreamFailed)
      | StreamSubmitted s1 \<Rightarrow>
          (case msg of
             Status (StSubmitted s2) \<Rightarrow> StreamSubmitted (StSubmitted s2)
           | Status (StPreConfirmationSuccess s2) \<Rightarrow> StreamPreconfirmed (StPreConfirmationSuccess s2)
           | Status (StPreConfirmationFailure s2) \<Rightarrow> StreamPreconfirmed (StPreConfirmationFailure s2)
           | Status s2 \<Rightarrow> StreamSuccess s1 s2
           | FailedStatus \<Rightarrow> StreamLateFailed s1)
      | StreamPreconfirmed s1 \<Rightarrow>
          (case msg of
             Status s2 \<Rightarrow> StreamSuccess s1 s2
           | FailedStatus \<Rightarrow> StreamLateFailed s1)
      | s \<Rightarrow> s)"

(* src/crates/services/tx_status_manager/src/tx_status_stream.rs:144-151 TxUpdateStream::add_failure *)
fun add_failure :: "'r stream_state \<Rightarrow> 'r stream_state" where
  "add_failure (StreamSubmitted s) = StreamLateFailed s"
| "add_failure (StreamPreconfirmed s) = StreamLateFailed s"
| "add_failure StreamEmpty = StreamFailed"
| "add_failure s = s"

(* src/crates/services/tx_status_manager/src/tx_status_stream.rs:157-184 TxUpdateStream::try_next *)
fun try_next :: "'r stream_state \<Rightarrow> 'r stream_state \<times> 'r tx_status_message option" where
  "try_next (StreamSubmitted s) = (StreamEmpty, Some (Status s))"
| "try_next (StreamPreconfirmed s) = (StreamEmpty, Some (Status s))"
| "try_next StreamEmpty = (StreamEmpty, None)"
| "try_next (StreamEarlySuccess s) = (StreamClosed, Some (Status s))"
| "try_next (StreamSenderClosed s) = (StreamClosed, Some (Status s))"
| "try_next StreamFailed = (StreamClosed, Some FailedStatus)"
| "try_next (StreamLateFailed s) = (StreamFailed, Some (Status s))"
| "try_next (StreamSuccess s1 s2) = (StreamSenderClosed s2, Some (Status s1))"
| "try_next StreamClosed = (StreamClosed, None)"

(* src/crates/services/tx_status_manager/src/tx_status_stream.rs:186-188 TxUpdateStream::is_closed *)
fun stream_is_closed :: "'r stream_state \<Rightarrow> bool" where
  "stream_is_closed StreamClosed = True"
| "stream_is_closed _ = False"

section \<open>Subscribers\<close>

(* src/crates/services/tx_status_manager/src/update_sender.rs:62-67 SendError *)
datatype send_error = SendFull | SendClosed

text \<open>The sending end of the channel of a subscriber.\<close>

type_synonym ('c, 'r) channel_send = "'c \<Rightarrow> 'r tx_status_message \<Rightarrow> 'c \<times> (send_error, unit) result"

(* src/crates/services/tx_status_manager/src/update_sender.rs:86-95 Sender *)
record ('c, 'r) sender =
  sn_stream :: "'r stream_state"
  sn_tx :: 'c
  sn_created :: nat

(* src/crates/services/tx_status_manager/src/update_sender.rs:156-178 SendStatus::try_send for Sender *)
definition sender_try_send ::
    "('c, 'r) channel_send \<Rightarrow> ('c, 'r) sender \<Rightarrow> 'r tx_status_message \<Rightarrow> ('c, 'r) sender \<times> (send_error, unit) result" where
  "sender_try_send send sn msg =
     (let sn = (case try_next (add_msg msg (sn_stream sn)) of
                  (stream, None) \<Rightarrow> sn\<lparr>sn_stream := stream\<rparr>
                | (stream, Some m) \<Rightarrow>
                    (case send (sn_tx sn) m of
                       (tx, Inr _) \<Rightarrow> sn\<lparr>sn_stream := stream, sn_tx := tx\<rparr>
                     | (tx, Inl SendFull) \<Rightarrow> sn\<lparr>sn_stream := add_failure stream, sn_tx := tx\<rparr>
                     | (tx, Inl SendClosed) \<Rightarrow> sn\<lparr>sn_stream := StreamClosed, sn_tx := tx\<rparr>))
      in (sn, if stream_is_closed (sn_stream sn) then Inl SendClosed else Inr ()))"

type_synonym ('c, 'r) senders = "256 word \<rightharpoonup> ('c, 'r) sender list"

(* src/crates/services/tx_status_manager/src/update_sender.rs:302-312 remove_closed_and_expired *)
definition remove_closed_and_expired :: "nat \<Rightarrow> nat \<Rightarrow> ('c, 'r) senders \<Rightarrow> ('c, 'r) senders" where
  "remove_closed_and_expired now ttl senders =
     (\<lambda>t. case senders t of
            None \<Rightarrow> None
          | Some sns \<Rightarrow>
              (let sns = filter (\<lambda>sn. \<not> stream_is_closed (sn_stream sn) \<and> now - sn_created sn < ttl) sns
               in if sns = [] then None else Some sns))"

(* src/crates/services/tx_status_manager/src/update_sender.rs:277-299 subscribe *)
definition subscribe :: "256 word \<Rightarrow> 'c \<Rightarrow> nat \<Rightarrow> ('c, 'r) senders \<Rightarrow> ('c, 'r) senders" where
  "subscribe t chan now senders =
     senders(t \<mapsto> (case senders t of None \<Rightarrow> [] | Some sns \<Rightarrow> sns)
                  @ [\<lparr>sn_stream = StreamEmpty, sn_tx = chan, sn_created = now\<rparr>])"

(* src/crates/services/tx_status_manager/src/update_sender.rs:218-245 UpdateSender::try_subscribe, subscribe_inner *)
definition try_subscribe ::
    "bool \<Rightarrow> 'c \<Rightarrow> nat \<Rightarrow> nat \<Rightarrow> 256 word \<Rightarrow> ('c, 'r) senders \<Rightarrow> ('c, 'r) senders \<times> bool" where
  "try_subscribe permit chan now ttl t senders =
     (let senders = remove_closed_and_expired now ttl senders
      in if \<not> permit then (senders, False)
         else (subscribe t chan now (remove_closed_and_expired now ttl senders), True))"

(* src/crates/services/tx_status_manager/src/update_sender.rs:263-263 retained senders of UpdateSender::send *)
fun send_all :: "('c, 'r) channel_send \<Rightarrow> 'r tx_status_message \<Rightarrow> ('c, 'r) sender list \<Rightarrow> ('c, 'r) sender list" where
  "send_all send msg [] = []"
| "send_all send msg (sn # sns) =
     (case sender_try_send send sn msg of
        (sn, Inr _) \<Rightarrow> sn # send_all send msg sns
      | (_, Inl _) \<Rightarrow> send_all send msg sns)"

(* src/crates/services/tx_status_manager/src/update_sender.rs:248-273 UpdateSender::send *)
definition send_update ::
    "('c, 'r) channel_send \<Rightarrow> nat \<Rightarrow> nat \<Rightarrow> 256 word \<Rightarrow> 'r tx_status_message \<Rightarrow> ('c, 'r) senders \<Rightarrow> ('c, 'r) senders" where
  "send_update send now ttl t msg senders =
     (let senders = remove_closed_and_expired now ttl senders
      in case senders t of
           None \<Rightarrow> senders
         | Some sns \<Rightarrow> senders(t := (let sns = send_all send msg sns in if sns = [] then None else Some sns)))"

section \<open>The cache\<close>

(* src/crates/services/tx_status_manager/src/manager.rs:34-38 Data *)
record 'r status_data =
  pruning_queue :: "(nat \<times> 256 word) list"
  non_prunable_statuses :: "256 word \<rightharpoonup> 'r transaction_status"
  prunable_statuses :: "256 word \<rightharpoonup> nat \<times> 'r transaction_status"

(* src/crates/services/tx_status_manager/src/manager.rs:41-47 Data::empty *)
definition status_data_empty :: "'r status_data" where
  "status_data_empty = \<lparr>pruning_queue = [], non_prunable_statuses = Map.empty, prunable_statuses = Map.empty\<rparr>"

(* src/crates/services/tx_status_manager/src/manager.rs:102-104 TxStatusManager::is_prunable *)
fun is_prunable :: "'r transaction_status \<Rightarrow> bool" where
  "is_prunable (StSubmitted _) = False"
| "is_prunable _ = True"

(* src/crates/services/tx_status_manager/src/manager.rs:106-147 TxStatusManager::prune_old_statuses *)
function prune_old_statuses :: "nat \<Rightarrow> nat \<Rightarrow> 'r status_data \<Rightarrow> 'r status_data" where
  "prune_old_statuses now ttl d =
     (if pruning_queue d = [] \<or> now - fst (last (pruning_queue d)) < ttl then d
      else
        (let past = fst (last (pruning_queue d));
             t = snd (last (pruning_queue d));
             d = d\<lparr>pruning_queue := butlast (pruning_queue d)\<rparr>
         in prune_old_statuses now ttl
              (case prunable_statuses d t of
                 None \<Rightarrow> d
               | Some (timestamp, _) \<Rightarrow>
                   (if timestamp = past then d\<lparr>prunable_statuses := (prunable_statuses d)(t := None)\<rparr> else d))))"
  by pat_completeness auto
termination
  by (relation "measure (\<lambda>(now, ttl, d). length (pruning_queue d))") (auto split: option.split)

declare prune_old_statuses.simps [simp del]

(* src/crates/services/tx_status_manager/src/manager.rs:149-158 TxStatusManager::add_new_status *)
definition add_new_status :: "nat \<Rightarrow> 256 word \<Rightarrow> 'r transaction_status \<Rightarrow> 'r status_data \<Rightarrow> 'r status_data" where
  "add_new_status now t s d =
     (if is_prunable s
      then d\<lparr>pruning_queue := (now, t) # pruning_queue d,
             prunable_statuses := (prunable_statuses d)(t \<mapsto> (now, s)),
             non_prunable_statuses := (non_prunable_statuses d)(t := None)\<rparr>
      else d\<lparr>non_prunable_statuses := (non_prunable_statuses d)(t \<mapsto> s)\<rparr>)"

(* src/crates/services/tx_status_manager/src/manager.rs:160-163 TxStatusManager::register_status *)
definition register_status :: "nat \<Rightarrow> nat \<Rightarrow> 256 word \<Rightarrow> 'r transaction_status \<Rightarrow> 'r status_data \<Rightarrow> 'r status_data" where
  "register_status now ttl t s d = add_new_status now t s (prune_old_statuses now ttl d)"

(* src/crates/services/tx_status_manager/src/manager.rs:85-90 TxStatusManager *)
record ('c, 'r) status_manager =
  sm_data :: "'r status_data"
  sm_senders :: "('c, 'r) senders"
  sm_subscription_ttl :: nat
  sm_ttl :: nat

(* src/crates/services/tx_status_manager/src/manager.rs:165-172 TxStatusManager::status_update *)
definition status_update ::
    "('c, 'r) channel_send \<Rightarrow> nat \<Rightarrow> 256 word \<Rightarrow> 'r transaction_status \<Rightarrow> ('c, 'r) status_manager \<Rightarrow> ('c, 'r) status_manager" where
  "status_update send now t s m =
     m\<lparr>sm_data := register_status now (sm_ttl m) t s (sm_data m),
       sm_senders := send_update send now (sm_subscription_ttl m) t (Status s) (sm_senders m)\<rparr>"

(* src/crates/services/tx_status_manager/src/manager.rs:194-201 TxStatusManager::status *)
definition status_of :: "'r status_data \<Rightarrow> 256 word \<Rightarrow> 'r transaction_status option" where
  "status_of d t =
     (case non_prunable_statuses d t of
        Some s \<Rightarrow> Some s
      | None \<Rightarrow> map_option snd (prunable_statuses d t))"

text \<open>The text of the error of a skipped transaction is a parameter.\<close>

(* src/crates/services/tx_status_manager/src/manager.rs:211-216 TxStatusManager::notify_skipped_txs *)
fun notify_skipped_txs ::
    "('c, 'r) channel_send \<Rightarrow> (string \<Rightarrow> string) \<Rightarrow> nat \<Rightarrow> (256 word \<times> string) list \<Rightarrow> ('c, 'r) status_manager \<Rightarrow> ('c, 'r) status_manager" where
  "notify_skipped_txs send fmt now [] m = m"
| "notify_skipped_txs send fmt now ((t, reason) # txs) m =
     notify_skipped_txs send fmt now txs (status_update send now t (StSqueezedOut (fmt reason)) m)"

section \<open>What a subscriber receives\<close>

text \<open>A channel delivers what it accepts, in that order.\<close>

definition fifo_channel :: "('c, 'r) channel_send \<Rightarrow> ('c \<Rightarrow> 'r tx_status_message list) \<Rightarrow> bool" where
  "fifo_channel send delivered \<longleftrightarrow>
     (\<forall>c m. delivered (fst (send c m)) = (case snd (send c m) of Inr _ \<Rightarrow> delivered c @ [m] | Inl _ \<Rightarrow> delivered c))"

text \<open>A subscriber is served as long as its sender is retained.\<close>

fun serve :: "('c, 'r) channel_send \<Rightarrow> 'r tx_status_message list \<Rightarrow> ('c, 'r) sender \<Rightarrow> ('c, 'r) sender" where
  "serve send [] sn = sn"
| "serve send (m # ms) sn =
     (case sender_try_send send sn m of
        (sn, Inr _) \<Rightarrow> serve send ms sn
      | (sn, Inl _) \<Rightarrow> sn)"

fun closes :: "'r tx_status_message \<Rightarrow> bool" where
  "closes (Status (StSubmitted _)) = False"
| "closes (Status (StPreConfirmationSuccess _)) = False"
| "closes (Status (StPreConfirmationFailure _)) = False"
| "closes _ = True"

lemma next_message: "try_next (add_msg m StreamEmpty) = (if closes m then StreamClosed else StreamEmpty, Some m)"
proof (cases m)
  case (Status s)
  then show ?thesis by (cases s) (simp_all add: add_msg_def)
qed (simp add: add_msg_def)

lemma closes_iff_final: "closes m = message_is_final m"
proof (cases m)
  case (Status s)
  then show ?thesis by (cases s) simp_all
qed simp

text \<open>The steps of a sender between two updates: it is empty, or failed because the channel was full.\<close>

lemma sender_step_failed:
  assumes "fifo_channel send delivered" "sn_stream sn = StreamFailed" "sender_try_send send sn m = (sn', r)"
  shows "r = Inl SendClosed" "delivered (sn_tx sn') \<in> {delivered (sn_tx sn), delivered (sn_tx sn) @ [FailedStatus]}"
proof -
  obtain c r' where c: "send (sn_tx sn) FailedStatus = (c, r')" by fastforce
  have "delivered c = (case r' of Inr _ \<Rightarrow> delivered (sn_tx sn) @ [FailedStatus] | Inl _ \<Rightarrow> delivered (sn_tx sn))"
    using assms(1) c unfolding fifo_channel_def by (metis fst_conv snd_conv)
  moreover have "add_msg m StreamFailed = StreamFailed" by (simp add: add_msg_def)
  ultimately show "r = Inl SendClosed" "delivered (sn_tx sn') \<in> {delivered (sn_tx sn), delivered (sn_tx sn) @ [FailedStatus]}"
    using assms(2,3) c by (auto simp: sender_try_send_def Let_def split: sum.splits send_error.splits)
qed

lemma sender_step_empty:
  assumes "fifo_channel send delivered" "sn_stream sn = StreamEmpty" "sender_try_send send sn m = (sn', r)"
  shows "r = Inr () \<and> \<not> closes m \<and> sn_stream sn' = StreamEmpty \<and> delivered (sn_tx sn') = delivered (sn_tx sn) @ [m]
    \<or> r = Inr () \<and> \<not> closes m \<and> sn_stream sn' = StreamFailed \<and> delivered (sn_tx sn') = delivered (sn_tx sn)
    \<or> r = Inl SendClosed \<and> closes m \<and> delivered (sn_tx sn') = delivered (sn_tx sn) @ [m]
    \<or> r = Inl SendClosed \<and> delivered (sn_tx sn') = delivered (sn_tx sn)"
proof -
  obtain c r' where c: "send (sn_tx sn) m = (c, r')" by fastforce
  have "delivered c = (case r' of Inr _ \<Rightarrow> delivered (sn_tx sn) @ [m] | Inl _ \<Rightarrow> delivered (sn_tx sn))"
    using assms(1) c unfolding fifo_channel_def by (metis fst_conv snd_conv)
  then show ?thesis
    using assms(2,3) c
    by (auto simp: sender_try_send_def next_message Let_def split: sum.splits send_error.splits if_splits)
qed

lemma serve_failed:
  assumes "fifo_channel send delivered" "sn_stream sn = StreamFailed"
  shows "delivered (sn_tx (serve send ms sn)) \<in> {delivered (sn_tx sn), delivered (sn_tx sn) @ [FailedStatus]}"
proof (cases ms)
  case (Cons m rest)
  obtain sn' r where s: "sender_try_send send sn m = (sn', r)" by fastforce
  then show ?thesis using sender_step_failed [OF assms s] Cons by simp
qed simp

text \<open>A prefix of the updates up to the first final one, possibly followed by a failure.\<close>

definition honest :: "'r tx_status_message list \<Rightarrow> 'r tx_status_message list \<Rightarrow> bool" where
  "honest ms received \<longleftrightarrow> (\<exists>k. received = take k ms \<or> received = take k ms @ [FailedStatus])
     \<and> (\<forall>m\<in>set (butlast received). \<not> message_is_final m)"

lemma honest_Nil [simp]: "honest ms []"
  by (auto simp: honest_def intro: exI [of _ 0])

lemma honest_failed [simp]: "honest ms [FailedStatus]"
  by (auto simp: honest_def intro: exI [of _ 0])

lemma honest_one: "honest (m # ms) [m]"
  by (auto simp: honest_def intro: exI [of _ 1])

lemma honest_Cons: "\<not> message_is_final m \<Longrightarrow> honest ms received \<Longrightarrow> honest (m # ms) (m # received)"
  by (auto simp: honest_def intro: exI [of _ "Suc _"])

lemma serve_honest:
  assumes fifo: "fifo_channel send delivered"
  shows "sn_stream sn = StreamEmpty \<Longrightarrow>
    \<exists>received. delivered (sn_tx (serve send ms sn)) = delivered (sn_tx sn) @ received \<and> honest ms received"
proof (induction ms arbitrary: sn)
  case (Cons m ms)
  obtain sn' r where s: "sender_try_send send sn m = (sn', r)" by fastforce
  from sender_step_empty [OF fifo Cons.prems s] consider
      "r = Inr ()" "\<not> closes m" "sn_stream sn' = StreamEmpty" "delivered (sn_tx sn') = delivered (sn_tx sn) @ [m]"
    | "r = Inr ()" "sn_stream sn' = StreamFailed" "delivered (sn_tx sn') = delivered (sn_tx sn)"
    | "r = Inl SendClosed" "delivered (sn_tx sn') = delivered (sn_tx sn) @ [m]"
    | "r = Inl SendClosed" "delivered (sn_tx sn') = delivered (sn_tx sn)" by blast
  then show ?case
  proof cases
    case 1
    from Cons.IH [OF 1(3)] obtain received where
      "delivered (sn_tx (serve send ms sn')) = delivered (sn_tx sn') @ received" "honest ms received" by blast
    then show ?thesis using 1 s by (intro exI [of _ "m # received"]) (simp add: honest_Cons closes_iff_final)
  next
    case 2
    then show ?thesis using serve_failed [OF fifo 2(2), of ms] s by auto
  next
    case 3
    then show ?thesis using s by (intro exI [of _ "[m]"]) (simp add: honest_one)
  next
    case 4
    then show ?thesis using s by (intro exI [of _ "[]"]) simp
  qed
qed simp

lemma serve_accepted:
  assumes fifo: "fifo_channel send delivered" and ok: "\<forall>c m. snd (send c m) = Inr ()"
  shows "sn_stream sn = StreamEmpty \<Longrightarrow> delivered (sn_tx (serve send ms sn)) =
    delivered (sn_tx sn) @ takeWhile (\<lambda>m. \<not> message_is_final m) ms @ take 1 (dropWhile (\<lambda>m. \<not> message_is_final m) ms)"
proof (induction ms arbitrary: sn)
  case (Cons m ms)
  obtain c where c: "send (sn_tx sn) m = (c, Inr ())" using ok by (metis prod.collapse)
  then have d: "delivered c = delivered (sn_tx sn) @ [m]" using fifo unfolding fifo_channel_def by (metis fst_conv snd_conv sum.case(2))
  have step: "sender_try_send send sn m =
      (sn\<lparr>sn_stream := (if closes m then StreamClosed else StreamEmpty), sn_tx := c\<rparr>, if closes m then Inl SendClosed else Inr ())"
    using c Cons.prems by (simp add: sender_try_send_def next_message)
  show ?case
  proof (cases "closes m")
    case True
    then show ?thesis using step d by (simp add: closes_iff_final)
  next
    case False
    then show ?thesis
      using step d Cons.IH [of "sn\<lparr>sn_stream := StreamEmpty, sn_tx := c\<rparr>"] by (simp add: closes_iff_final)
  qed
qed simp

section \<open>Pruning\<close>

definition queue_sorted :: "'r status_data \<Rightarrow> bool" where
  "queue_sorted d \<longleftrightarrow> sorted_wrt (\<ge>) (map fst (pruning_queue d))"

definition all_queued :: "'r status_data \<Rightarrow> bool" where
  "all_queued d \<longleftrightarrow> (\<forall>t time s. prunable_statuses d t = Some (time, s) \<longrightarrow> (time, t) \<in> set (pruning_queue d))"

definition unexpired :: "nat \<Rightarrow> nat \<Rightarrow> (256 word \<rightharpoonup> nat \<times> 'r transaction_status) \<Rightarrow> (256 word \<rightharpoonup> nat \<times> 'r transaction_status)" where
  "unexpired now ttl statuses t =
     (case statuses t of None \<Rightarrow> None | Some (time, s) \<Rightarrow> if now - time < ttl then Some (time, s) else None)"

definition pruned :: "nat \<Rightarrow> nat \<Rightarrow> 'r status_data \<Rightarrow> 'r status_data \<Rightarrow> bool" where
  "pruned now ttl d d' \<longleftrightarrow> queue_sorted d' \<and> all_queued d'
     \<and> non_prunable_statuses d' = non_prunable_statuses d
     \<and> prunable_statuses d' = unexpired now ttl (prunable_statuses d)
     \<and> set (pruning_queue d') \<subseteq> set (pruning_queue d)"

lemma pruned_now:
  assumes "queue_sorted d" "all_queued d" "pruning_queue d = [] \<or> now - fst (last (pruning_queue d)) < ttl"
  shows "pruned now ttl d d"
proof -
  have young: "now - fst x < ttl" if "x \<in> set (pruning_queue d)" for x
  proof -
    have xs: "butlast (pruning_queue d) @ [last (pruning_queue d)] = pruning_queue d"
      using that by (intro append_butlast_last_id) auto
    have "sorted_wrt (\<ge>) (map fst (butlast (pruning_queue d) @ [last (pruning_queue d)]))"
      unfolding xs using assms(1) by (simp add: queue_sorted_def)
    moreover have "x \<in> set (butlast (pruning_queue d) @ [last (pruning_queue d)])" unfolding xs using that .
    ultimately have "fst (last (pruning_queue d)) \<le> fst x" unfolding map_append sorted_wrt_append by auto
    with that assms(3) show ?thesis by auto
  qed
  have "unexpired now ttl (prunable_statuses d) t = prunable_statuses d t" for t
    using young assms(2) by (fastforce simp: unexpired_def all_queued_def split: option.splits)
  with assms(1,2) show ?thesis by (simp add: pruned_def fun_eq_iff)
qed

lemma prune_old_statuses_pruned:
  "queue_sorted d \<Longrightarrow> all_queued d \<Longrightarrow> pruned now ttl d (prune_old_statuses now ttl d)"
proof (induction now ttl d rule: prune_old_statuses.induct)
  case (1 now ttl d)
  show ?case
  proof (cases "pruning_queue d = [] \<or> now - fst (last (pruning_queue d)) < ttl")
    case True
    then show ?thesis using pruned_now [OF 1(2,3) True] by (simp add: prune_old_statuses.simps)
  next
    case False
    define past t xs where "past = fst (last (pruning_queue d))" and "t = snd (last (pruning_queue d))" and "xs = butlast (pruning_queue d)"
    have q: "pruning_queue d = xs @ [(past, t)]" and old: "\<not> now - past < ttl"
      using False by (auto simp: past_def t_def xs_def)
    let ?stale = "\<exists>s. prunable_statuses d t = Some (past, s)"
    define d1 where "d1 = d\<lparr>pruning_queue := xs, prunable_statuses := (if ?stale then (prunable_statuses d)(t := None) else prunable_statuses d)\<rparr>"
    have d1: "(case prunable_statuses (d\<lparr>pruning_queue := xs\<rparr>) t of None \<Rightarrow> d\<lparr>pruning_queue := xs\<rparr>
        | Some (timestamp, _) \<Rightarrow> (if timestamp = past
            then d\<lparr>pruning_queue := xs, prunable_statuses := (prunable_statuses (d\<lparr>pruning_queue := xs\<rparr>))(t := None)\<rparr>
            else d\<lparr>pruning_queue := xs\<rparr>)) = d1"
      by (cases "prunable_statuses d t") (auto simp: d1_def)
    have step: "prune_old_statuses now ttl d = prune_old_statuses now ttl d1"
      unfolding d1 [symmetric] past_def t_def xs_def using False by (subst prune_old_statuses.simps) (simp add: Let_def)
    have s1: "queue_sorted d1" using 1(2) by (simp add: queue_sorted_def d1_def q sorted_wrt_append)
    have a1: "all_queued d1" using 1(3) by (auto simp: all_queued_def d1_def q split: if_splits)
    have "pruned now ttl d1 (prune_old_statuses now ttl d1)"
      using 1(1) [OF False past_def t_def refl, folded xs_def] s1 a1 unfolding d1 [symmetric] by simp
    moreover have "unexpired now ttl (prunable_statuses d1) = unexpired now ttl (prunable_statuses d)"
      using old by (auto simp: unexpired_def d1_def fun_eq_iff split: option.splits)
    ultimately show ?thesis
      unfolding step by (auto simp: pruned_def d1_def q)
  qed
qed

section \<open>The cache as a map of last statuses\<close>

text \<open>The specification: the last status of each transaction with the time it came, dropped by a later update
  once it is not a submission and as old as the time to live.\<close>

fun spec_step :: "nat \<Rightarrow> (256 word \<rightharpoonup> nat \<times> 'r transaction_status) \<Rightarrow> nat \<times> 256 word \<times> 'r transaction_status
    \<Rightarrow> (256 word \<rightharpoonup> nat \<times> 'r transaction_status)" where
  "spec_step ttl A (now, u, s) =
     (\<lambda>t. if t = u then Some (now, s)
          else (case A t of
                  None \<Rightarrow> None
                | Some (time, s') \<Rightarrow> if is_prunable s' \<and> ttl \<le> now - time then None else Some (time, s')))"

fun entry_rel :: "(nat \<times> 'r transaction_status) option \<Rightarrow> 'r transaction_status option
    \<Rightarrow> (nat \<times> 'r transaction_status) option \<Rightarrow> bool" where
  "entry_rel None n p \<longleftrightarrow> n = None \<and> p = None"
| "entry_rel (Some (time, s)) n p \<longleftrightarrow> (if is_prunable s then n = None \<and> p = Some (time, s) else n = Some s)"

definition cache_rel :: "nat \<Rightarrow> (256 word \<rightharpoonup> nat \<times> 'r transaction_status) \<Rightarrow> 'r status_data \<Rightarrow> bool" where
  "cache_rel now A d \<longleftrightarrow> queue_sorted d \<and> all_queued d \<and> (\<forall>x\<in>set (pruning_queue d). fst x \<le> now)
     \<and> (\<forall>t. entry_rel (A t) (non_prunable_statuses d t) (prunable_statuses d t))"

lemma cache_rel_status:
  assumes "cache_rel now A d"
  shows "status_of d t = map_option snd (A t)"
proof -
  have "entry_rel (A t) (non_prunable_statuses d t) (prunable_statuses d t)" using assms by (simp add: cache_rel_def)
  then show ?thesis
    by (cases "A t") (auto simp: status_of_def split: if_splits)
qed

lemma cache_rel_empty: "cache_rel now Map.empty status_data_empty"
  by (simp add: cache_rel_def status_data_empty_def queue_sorted_def all_queued_def)

lemma entry_rel_unexpired:
  assumes "entry_rel a n (statuses t)"
  shows "entry_rel (case a of None \<Rightarrow> None
      | Some (time, s') \<Rightarrow> if is_prunable s' \<and> ttl \<le> now - time then None else Some (time, s')) n (unexpired now ttl statuses t)"
  using assms by (cases a) (auto simp: unexpired_def split: if_splits)

lemma register_status_refines:
  assumes rel: "cache_rel before A d" and le: "before \<le> now"
  shows "cache_rel now (spec_step ttl A (now, u, s)) (register_status now ttl u s d)"
proof -
  let ?d = "prune_old_statuses now ttl d"
  have "pruned now ttl d ?d" using rel prune_old_statuses_pruned [of d now ttl] by (simp add: cache_rel_def)
  then have p: "queue_sorted ?d" "all_queued ?d" "non_prunable_statuses ?d = non_prunable_statuses d"
      "prunable_statuses ?d = unexpired now ttl (prunable_statuses d)" "set (pruning_queue ?d) \<subseteq> set (pruning_queue d)"
    by (simp_all add: pruned_def)
  have young: "\<forall>x\<in>set (pruning_queue ?d). fst x \<le> now" using rel le p(5) by (fastforce simp: cache_rel_def)
  have "entry_rel (spec_step ttl A (now, u, s) t) (non_prunable_statuses (add_new_status now u s ?d) t)
      (prunable_statuses (add_new_status now u s ?d) t)" for t
  proof (cases "t = u")
    case True
    then show ?thesis by (simp add: add_new_status_def)
  next
    case False
    have "entry_rel (A t) (non_prunable_statuses d t) (prunable_statuses d t)" using rel by (simp add: cache_rel_def)
    from entry_rel_unexpired [of "A t" "non_prunable_statuses d t" "prunable_statuses d" t ttl now, OF this] False show ?thesis
      by (simp add: add_new_status_def p(3,4))
  qed
  moreover have "queue_sorted (add_new_status now u s ?d)" using p(1) young by (auto simp: queue_sorted_def add_new_status_def)
  moreover have "all_queued (add_new_status now u s ?d)" using p(2) by (auto simp: all_queued_def add_new_status_def)
  moreover have "\<forall>x\<in>set (pruning_queue (add_new_status now u s ?d)). fst x \<le> now" using young by (auto simp: add_new_status_def)
  ultimately show ?thesis by (simp add: cache_rel_def register_status_def)
qed

definition run_updates :: "nat \<Rightarrow> (nat \<times> 256 word \<times> 'r transaction_status) list \<Rightarrow> 'r status_data" where
  "run_updates ttl us = foldl (\<lambda>d (now, t, s). register_status now ttl t s d) status_data_empty us"

lemma run_updates_refines:
  assumes "sorted (map fst us)"
  shows "cache_rel (if us = [] then 0 else fst (last us)) (foldl (spec_step ttl) Map.empty us) (run_updates ttl us)"
  using assms
proof (induction us rule: rev_induct)
  case Nil
  show ?case by (simp add: run_updates_def cache_rel_empty)
next
  case (snoc x us)
  obtain now t s where x: "x = (now, t, s)" by (metis prod.exhaust)
  have "sorted (map fst us)" and "(if us = [] then 0 else fst (last us)) \<le> now"
    using snoc.prems by (auto simp: sorted_append x)
  from register_status_refines [OF snoc.IH [OF this(1)] this(2), of ttl t s]
  show ?case by (simp add: run_updates_def x)
qed

lemma status_updates_data:
  assumes "sm_data m = status_data_empty"
  shows "sm_data (foldl (\<lambda>m (now, t, s). status_update send now t s m) m us) = run_updates (sm_ttl m) us
    \<and> sm_ttl (foldl (\<lambda>m (now, t, s). status_update send now t s m) m us) = sm_ttl m"
  by (induction us rule: rev_induct) (auto simp: run_updates_def assms status_update_def split: prod.split)

section \<open>Properties of the status manager\<close>

text \<open>C27: The cache of statuses, with its two maps and its queue, refines a map from transactions to their last
  status: with a clock that does not go back, a transaction has the status that came last, unless this is
  not a submission and a later update came when it was as old as the time to live.\<close>

theorem status_cache_refines_spec:
  assumes "sorted (map fst us)" "sm_data m = status_data_empty"
  shows "status_of (sm_data (foldl (\<lambda>m (now, t, s). status_update send now t s m) m us)) t =
    map_option snd (foldl (spec_step (sm_ttl m)) Map.empty us t)"
  using cache_rel_status [OF run_updates_refines [OF assms(1)], of "sm_ttl m" t] status_updates_data [OF assms(2), of send us]
  by simp


text \<open>A channel with room for two messages whose receiver does not read, and a manager of no status.\<close>

definition sample_channel_send :: "(unit tx_status_message list, unit) channel_send" where
  "sample_channel_send c m = (if length c < 2 then (c @ [m], Inr ()) else (c, Inl SendFull))"

definition sample_status_manager :: "(unit tx_status_message list, unit) status_manager" where
  "sample_status_manager = \<lparr>sm_data = status_data_empty, sm_senders = Map.empty, sm_subscription_ttl = 60, sm_ttl = 10\<rparr>"

theorem status_cache_refines_spec_witness:
  "status_of (sm_data (foldl (\<lambda>m (now, t, s). status_update sample_channel_send now t s m) sample_status_manager
     [(0, 1, StSubmitted 7), (5, 1, StSuccess ()), (20, 2, StSubmitted 8)])) 1 = None"
proof -
  have "sm_data sample_status_manager = status_data_empty" by (simp add: sample_status_manager_def)
  from status_cache_refines_spec [OF _ this, of "[(0, 1, StSubmitted 7), (5, 1, StSuccess ()), (20, 2, StSubmitted 8)]"
      sample_channel_send 1]
  show ?thesis by (simp add: sample_status_manager_def)
qed


end
