(* ===== verification/Spec2Isabelle.thy ===== *)
theory Spec2Isabelle
  imports Gas_Price_Service Sync_Service Tx_Pool_Worker Relayer Tx_Status
begin

text \<open>
  A verification library for core services of the Fuel node, fuel-core.

  \<^bold>\<open>The program.\<close> A node imports blocks from the network, executes them, keeps transactions that wait for a
  block, and computes the gas price of the next block. The library covers the parts in which the node
  decides something by itself, without a virtual machine, a database or the network:

  \<^item> the gas price algorithm (\<open>crates/fuel-gas-price-algorithm\<close>), which turns L2 block data and the
    costs of data availability (DA) into the next price, and the service around it
    (\<open>crates/services/gas_price_service\<close>), which persists its state, catches up after a restart and
    collects the DA costs;
  \<^item> the block synchronisation service (\<open>crates/services/sync\<close>), which tracks the heights to import,
    splits them into chunks over a cache of headers and blocks, and fetches and executes them;
  \<^item> the transaction pool (\<open>crates/services/txpool_v2\<close>): a dependency graph of transactions, a collision
    manager, a selection of the best transactions for a block, the pool that keeps the three in step, the
    pending pool of transactions whose inputs are not known yet, and the worker that owns both;
  \<^item> the relayer (\<open>crates/services/relayer\<close>), which follows the finalized blocks of the DA layer and stores
    their messages and forced transactions;
  \<^item> the transaction status manager (\<open>crates/services/tx_status_manager\<close>), which caches the last status of
    each transaction and serves the subscribers.

  The pool reports to the status manager, takes its gas price limit from outside and is told of the blocks
  that the importer executed; the gas price service and the synchronisation service follow the same blocks.
  The node wires these services with channels, so that each is modelled by itself with its inputs as
  arguments of its steps.

  \<^bold>\<open>The theories.\<close> Every definition that models code carries a comment with the file, the lines and the
  symbol it translates.

  \<^item> \<open>Prelude\<close>: machine words and their saturating, checked and signed operations; results. The
    collections \<open>rust_arith\<close> (facts on \<open>unat\<close>) and \<open>rust_eval\<close> (unfolding for evaluation).
  \<^item> \<open>Gas_Price_Algorithm\<close>: the updaters V0 and V1 of \<open>v0.rs\<close> and \<open>v1.rs\<close>, the activity tracker and the
    store of unrecorded blocks; the DA price is rate limited, stays in its bounds, is not raised in a safety
    mode and follows the profit; the unrecorded bytes are exact.
  \<^item> \<open>Gas_Price_Service\<close>: metadata, configuration, the transactional storage adapter, block handling,
    catch-up and the DA source; block handling is atomic, a restart resumes, catching up agrees with
    live operation, and two divergences are proved.
  \<^item> \<open>Sync_Service\<close>: the status machine of \<open>state.rs\<close> refines a specification by heights, chunking covers
    the requested range, and an import attempt leaves the service idle.
  \<^item> \<open>Tx_Pool_Types\<close>: transactions, errors, limits, the blacklist and the outputs of extracted transactions.
  \<^item> \<open>Tx_Pool_Collisions\<close>: the collision manager and the rule for replacing transactions; the locale
    \<open>collision_tracking\<close> is the contract the pool relies on.
  \<^item> \<open>Unique_Paths\<close>: graphs with at most one path between two nodes.
  \<^item> \<open>Tx_Pool_Graph\<close> and \<open>Tx_Pool_Storage\<close>: the graph storage over the operations of the graph library,
    whose documented behaviour is the locale \<open>stable_digraph\<close>; the cumulative totals are exact, removal of a
    subtree terminates and is exact, diamonds are refused.
  \<^item> \<open>Tx_Pool_Selection\<close>: the selection by tip per gas over the contract \<open>dependency_storage\<close>, which the graph
    storage satisfies; the selection terminates, respects the constraints and the dependencies, and is maximal.
  \<^item> \<open>Tx_Pool\<close>: the pool and its operations, over the contracts of the storage, the collision manager and the
    selection, with what each operation does to each of them.
  \<^item> \<open>Tx_Pool_Integrity\<close>: the pools that any sequence of operations reaches; their totals are exact and no two
    stored transactions collide, the indices are well formed, no blacklisted transaction is stored, and
    insertion, extraction, processing of a block and removal have the outcome they promise.
  \<^item> \<open>Tx_Pending_Pool\<close>: the pending pool; transactions are handed out exactly when their last missing input
    becomes known and expire exactly at their deadline, and the totals are exact as long as no pending
    transaction is inserted again. Two divergences are proved.
  \<^item> \<open>Tx_Pool_Worker\<close>: the handlers of the worker; an insertion accounts for every transaction (stored, pending,
    or reported as refused) and the pending pool stays within its share of the limits.
  \<^item> \<open>Relayer\<close>: logs and events, pages, the commit that links the heights of the database, and the loop; with a
    faithful node an iteration ends and stores all events of the gap, and whatever the node does the stored
    history has no gap. One divergence is proved.
  \<^item> \<open>Tx_Status\<close>: statuses, the state of a subscription, the senders and the cache; the cache refines a map of
    last statuses, and a subscriber receives a prefix of the updates up to the first final one.

  \<^bold>\<open>Conventions.\<close> Unsigned integers are words, compared through \<open>unat\<close>. A method that changes its object
  returns the new state. An error is the left side of a sum; a panic and a computation that does not end are
  \<open>None\<close>. Traits and third-party code are records of operations, passed as arguments, with their laws in
  locales. Hash maps whose order shows are association lists. No definition uses fuel: loops are structural,
  have a measure (the number of transactions that may still be selected, the length of chains left) or are
  partial functions into \<open>option\<close> for which termination is proved. Times are natural numbers; a handler reads
  the clock once.

  \<^bold>\<open>Not modelled.\<close> The executors (the semantics of the FuelVM is third-party code), the importer, the
  producer and consensus tasks that drive them, databases and codecs, networking, the GraphQL API and the
  client, metrics, logging, channels and timers. Inside the modelled crates: the worst-case table of the gas
  price algorithm (floating point), the HTTP client of the block committer, the Ethereum provider and its ABI
  decoding, the verification queues of the pool, and the task loops of the services that only select between
  channels and timers.
\<close>

end
